(* ===== verification/Prelude.thy ===== *)
theory Prelude
  imports Main "HOL-Library.Word" "HOL-Library.Multiset"
begin

text \<open>
  Shared vocabulary of the development.

  \<^item> Go run-time failures are values: \<open>gofault\<close> names the panics and fatal exits the modelled code
    can raise, and \<open>'a res\<close> is the result of a Go computation that may fail.  \<open>rbind\<close> sequences
    such computations and \<open>rmap\<close> runs one for every element of a slice.
  \<^item> A loop that may not end returns \<open>('a res) option\<close>: \<open>None\<close> is "does not return".
  \<^item> \<open>iface\<close> is Go's \<open>interface{}\<close>: \<open>None\<close> is the nil interface.
  \<^item> \<open>slice_get\<close> and \<open>slice_set\<close> are the bounds-checked slice accesses of Go.
  \<^item> generic lemmas on lists, options and results, collected in \<open>go_simps\<close>.
\<close>

section \<open>Go results\<close>

datatype gofault =
    IndexOutOfRange
  | NilDeref
  | TypeAssertion
  | DivideByZero
  | CloseOfClosed
  | Panic string
  | Fatal string

type_synonym 'a res = "gofault + 'a"

type_synonym 'v iface = "'v option"

named_theorems go_simps \<open>evaluation of Go results, slices and pointers\<close>

definition rbind :: "'a res \<Rightarrow> ('a \<Rightarrow> 'b res) \<Rightarrow> 'b res" where
  "rbind m f = (case m of Inl e \<Rightarrow> Inl e | Inr x \<Rightarrow> f x)"

lemma rbind_Inl [simp, go_simps]: "rbind (Inl e) f = Inl e"
  and rbind_Inr [simp, go_simps]: "rbind (Inr x) f = f x"
  by (simp_all add: rbind_def)

lemma rbind_eq_Inr: "rbind m f = Inr y \<longleftrightarrow> (\<exists>x. m = Inr x \<and> f x = Inr y)"
  by (cases m) simp_all

lemma rbind_eq_Inl: "rbind m f = Inl e \<longleftrightarrow> m = Inl e \<or> (\<exists>x. m = Inr x \<and> f x = Inl e)"
  by (cases m) simp_all

lemma rbind_assoc: "rbind (rbind m f) g = rbind m (\<lambda>x. rbind (f x) g)"
  by (cases m) simp_all

lemma rbind_InrE:
  assumes "rbind m f = Inr y"
  obtains x where "m = Inr x" and "f x = Inr y"
  using assms by (auto simp: rbind_eq_Inr)

section \<open>Slices\<close>

definition slice_get :: "'a list \<Rightarrow> int \<Rightarrow> 'a res" where
  "slice_get xs i = (if 0 \<le> i \<and> i < int (length xs) then Inr (xs ! nat i) else Inl IndexOutOfRange)"

definition slice_set :: "'a list \<Rightarrow> int \<Rightarrow> 'a \<Rightarrow> 'a list res" where
  "slice_set xs i v =
     (if 0 \<le> i \<and> i < int (length xs) then Inr (xs[nat i := v]) else Inl IndexOutOfRange)"

lemma slice_get_nat [simp]: "i < length xs \<Longrightarrow> slice_get xs (int i) = Inr (xs ! i)"
  by (simp add: slice_get_def)

lemma slice_set_nat [simp]: "i < length xs \<Longrightarrow> slice_set xs (int i) v = Inr (xs[i := v])"
  by (simp add: slice_set_def)

lemma slice_get_Inr: "slice_get xs i = Inr x \<longleftrightarrow> 0 \<le> i \<and> i < int (length xs) \<and> x = xs ! nat i"
  by (auto simp: slice_get_def)

lemma slice_set_Inr:
  "slice_set xs i v = Inr ys \<longleftrightarrow> 0 \<le> i \<and> i < int (length xs) \<and> ys = xs[nat i := v]"
  by (auto simp: slice_set_def)

text \<open>The conversion \<open>uint(x)\<close> of a Go \<open>int\<close>: 64-bit two's complement reinterpretation.\<close>

definition to_uint :: "int \<Rightarrow> nat" where
  "to_uint x = nat (x mod 2 ^ 64)"

lemma to_uint_small [simp]: "0 \<le> x \<Longrightarrow> x < 2 ^ 64 \<Longrightarrow> to_uint x = nat x"
  by (simp add: to_uint_def)

section \<open>Lists\<close>

lemma nth_update_if: "xs[i := x] ! j = (if i = j \<and> j < length xs then x else xs ! j)"
  by (cases "i < length xs") (auto simp: nth_list_update list_update_beyond)

lemma update_twice_swap:
  "i \<noteq> j \<Longrightarrow> xs[i := x, j := y, i := x'] = xs[i := x', j := y]"
  by (metis list_update_overwrite list_update_swap)

lemma filter_split_last:
  assumes "filter P xs = ys @ [y]"
  obtains us vs where "xs = us @ y # vs" and "P y" and "filter P us = ys" and "\<forall>v\<in>set vs. \<not> P v"
proof -
  have "filter P (rev xs) = y # rev ys"
    using assms by (simp add: rev_filter [symmetric])
  then obtain us vs where "rev xs = us @ y # vs" and "\<forall>u\<in>set us. \<not> P u" and "P y" and "rev ys = filter P vs"
    by (auto simp: filter_eq_Cons_iff)
  moreover from this have "xs = rev vs @ y # rev us" by (metis append.assoc append_Cons append_Nil rev.simps(2) rev_append rev_rev_ident)
  ultimately show ?thesis
    using that [of "rev vs" "rev us"] by (metis rev_filter rev_rev_ident set_rev)
qed

lemma split_at_distinct:
  assumes "distinct xs" and "xs = us @ y # vs" and "xs = us' @ y # vs'"
  shows "us = us' \<and> vs = vs'"
  using assms by (metis append_Cons_eq_iff distinct.simps(2) distinct_append not_distinct_conv_prefix)


section \<open>Sorting\<close>

text \<open>
  \<open>sort.Sort\<close> and \<open>sort.Slice\<close> return some permutation sorted by \<open>Less\<close>, and are not stable: where the code sorts, the sort is a
  parameter \<open>srt\<close>, and \<open>go_sort\<close> states what the standard library promises of it.
\<close>

definition go_sort :: "('a \<Rightarrow> 'a \<Rightarrow> bool) \<Rightarrow> ('a list \<Rightarrow> 'a list) \<Rightarrow> bool" where
  "go_sort lt srt \<longleftrightarrow>
     (\<forall>xs. mset (srt xs) = mset xs \<and> (\<forall>i j. i < j \<and> j < length xs \<longrightarrow> \<not> lt (srt xs ! j) (srt xs ! i)))"

lemma go_sortD:
  assumes "go_sort lt srt"
  shows "mset (srt xs) = mset xs" and "i < j \<Longrightarrow> j < length xs \<Longrightarrow> \<not> lt (srt xs ! j) (srt xs ! i)"
    and "length (srt xs) = length xs"
proof -
  show ms: "mset (srt xs) = mset xs" using assms by (simp add: go_sort_def)
  show "length (srt xs) = length xs" using mset_eq_length [OF ms] .
  show "i < j \<Longrightarrow> j < length xs \<Longrightarrow> \<not> lt (srt xs ! j) (srt xs ! i)" using assms by (simp add: go_sort_def)
qed

text \<open>If \<open>Less\<close> compares a key, the result is sorted by it, and a stable sort is one of the possible ones.\<close>

lemma go_sort_sorted:
  fixes key :: "'a \<Rightarrow> 'k::linorder"
  assumes "go_sort (\<lambda>a b. key a < key b) srt"
  shows "sorted (map key (srt xs))"
  unfolding sorted_iff_nth_mono_less using go_sortD(2) [OF assms] go_sortD(3) [OF assms] by (auto simp: not_less)

lemma sort_key_go_sort:
  fixes key :: "'a \<Rightarrow> 'k::linorder"
  shows "go_sort (\<lambda>a b. key a < key b) (sort_key key)"
proof -
  have "\<not> key (sort_key key xs ! j) < key (sort_key key xs ! i)" if "i < j" "j < length xs" for xs i j
    using sorted_nth_mono [OF sorted_sort_key [of key xs], of i j] that by (simp add: not_less)
  then show ?thesis by (simp add: go_sort_def)
qed

text \<open>A permutation of a list, as a list of indices.\<close>

lemma mset_eq_indices:
  assumes "mset ys = mset xs"
  shows "\<exists>p. distinct p \<and> set p = {..<length xs} \<and> ys = map ((!) xs) p"
  using assms
proof (induction ys arbitrary: xs)
  case Nil
  then show ?case by simp
next
  case (Cons y ys)
  from Cons.prems have "y \<in> set xs" by (metis list.set_intros(1) mset_eq_setD)
  then obtain us vs where xs: "xs = us @ y # vs" by (auto simp: in_set_conv_decomp)
  with Cons.prems have "mset ys = mset (us @ vs)" by simp
  from Cons.IH [OF this] obtain p where p: "distinct p" "set p = {..<length (us @ vs)}" "ys = map ((!) (us @ vs)) p" by blast
  let ?f = "\<lambda>j. if j < length us then j else Suc j"
  have inj: "inj ?f" by (auto simp: inj_def)
  have "?f ` {..<length (us @ vs)} = {..<length xs} - {length us}"
  proof
    show "{..<length xs} - {length us} \<subseteq> ?f ` {..<length (us @ vs)}"
    proof
      fix j assume "j \<in> {..<length xs} - {length us}"
      then have j: "j < length xs" "j \<noteq> length us" by auto
      show "j \<in> ?f ` {..<length (us @ vs)}"
      proof (cases "j < length us")
        case True
        then show ?thesis by (intro image_eqI [of _ _ j]) simp_all
      next
        case False
        with j xs show ?thesis by (intro image_eqI [of _ _ "j - 1"]) auto
      qed
    qed
  qed (use xs in auto)
  then have img: "set (map ?f p) = {..<length xs} - {length us}" unfolding set_map p(2) .
  have "ys = map ((!) xs) (map ?f p)"
    using p(3) xs by (auto simp: nth_append nth_Cons')
  then have "y # ys = map ((!) xs) (length us # map ?f p)" using xs by simp
  moreover have "distinct (map ?f p)" unfolding distinct_map using p(1) inj_on_subset [OF inj subset_UNIV] by blast
  then have "distinct (length us # map ?f p)" by (simp only: distinct.simps img) simp
  moreover have "length us < length xs" using xs by simp
  then have "set (length us # map ?f p) = {..<length xs}" by (simp only: list.set(2) img insert_Diff lessThan_iff)
  ultimately show ?case by (intro exI [of _ "length us # map ?f p"] conjI)
qed

end
