(* ===== verification/Bitset.thy ===== *)
theory Bitset
  imports Prelude
begin

text \<open>
  The bit sets of \<^verbatim>\<open>porcupine/bitset.go\<close>: a slice of \<open>uint64\<close> chunks, bit \<open>p\<close> of the set being
  bit \<open>p mod 64\<close> of chunk \<open>p div 64\<close>.  The Go methods \<open>set\<close> and \<open>clear\<close> write the slice in place
  and return it; the model returns the new slice.  Accesses out of range are the index panic.

  The locale \<open>position_set\<close> is the interface the checker relies on (a finite set of positions with
  a capacity); it is interpreted on the Go definitions through the abstraction \<open>bits_of\<close>.
\<close>

unbundle bit_operations_syntax

section \<open>Definitions\<close>

type_synonym bitset = "64 word list"

definition newBitset :: "nat \<Rightarrow> bitset" where
  "newBitset bits =
     (let extra = (if bits mod 64 \<noteq> 0 then 1 else 0);
          chunks = bits div 64 + extra
      in replicate chunks 0)"

definition clone :: "bitset \<Rightarrow> bitset" where
  "clone b = take (length b) b"

definition bitsetIndex :: "nat \<Rightarrow> nat \<times> nat" where
  "bitsetIndex pos = (pos div 64, pos mod 64)"

definition bs_set :: "bitset \<Rightarrow> nat \<Rightarrow> bitset res" where
  "bs_set b pos =
     (let (major, minor) = bitsetIndex pos
      in rbind (slice_get b (int major))
           (\<lambda>v. slice_set b (int major) (v OR push_bit minor 1)))"

definition bs_clear :: "bitset \<Rightarrow> nat \<Rightarrow> bitset res" where
  "bs_clear b pos =
     (let (major, minor) = bitsetIndex pos
      in rbind (slice_get b (int major))
           (\<lambda>v. slice_set b (int major) (v AND NOT (push_bit minor 1))))"

definition bs_get :: "bitset \<Rightarrow> nat \<Rightarrow> bool res" where
  "bs_get b pos =
     (let (major, minor) = bitsetIndex pos
      in rbind (slice_get b (int major))
           (\<lambda>v. Inr (v AND push_bit minor 1 \<noteq> 0)))"

text \<open>\<open>bits.OnesCount64\<close> of the standard library.\<close>

definition OnesCount64 :: "64 word \<Rightarrow> nat" where
  "OnesCount64 v = length (filter (bit v) [0..<64])"

definition popcnt :: "bitset \<Rightarrow> nat" where
  "popcnt b = fold (\<lambda>v total. total + OnesCount64 v) b 0"

definition bs_hash :: "bitset \<Rightarrow> 64 word" where
  "bs_hash b = fold (\<lambda>v h. h XOR v) b (of_nat (popcnt b))"

fun equals_from :: "bitset \<Rightarrow> bitset \<Rightarrow> bool" where
  "equals_from [] _ = True"
| "equals_from (x # xs) (y # ys) = (if x \<noteq> y then False else equals_from xs ys)"
| "equals_from (x # xs) [] = True"

definition bs_equals :: "bitset \<Rightarrow> bitset \<Rightarrow> bool" where
  "bs_equals b b2 = (if length b \<noteq> length b2 then False else equals_from b b2)"

section \<open>The abstraction: a set of positions\<close>

definition capacity :: "bitset \<Rightarrow> nat" where
  "capacity b = 64 * length b"

definition bits_of :: "bitset \<Rightarrow> nat set" where
  "bits_of b = {p. p < capacity b \<and> bit (b ! (p div 64)) (p mod 64)}"

lemmas bitset_defs = bs_set_def bs_clear_def bs_get_def bitsetIndex_def

lemma chunk_in_range: "p < capacity b \<longleftrightarrow> p div 64 < length b"
  by (auto simp: capacity_def)

lemma bit_one_mask: "n < 64 \<Longrightarrow> bit (2 ^ m :: 64 word) n \<longleftrightarrow> m = n"
  by (auto simp: bit_simps)

lemma and_mask_nonzero:
  fixes v :: "64 word"
  assumes "m < 64"
  shows "v AND 2 ^ m \<noteq> 0 \<longleftrightarrow> bit v m"
proof -
  have "v AND 2 ^ m \<noteq> 0 \<longleftrightarrow> (\<exists>n<64. bit v n \<and> bit (2 ^ m :: 64 word) n)"
    by (simp add: bit_eq_iff bit_and_iff)
  also have "\<dots> \<longleftrightarrow> (\<exists>n<64. bit v n \<and> m = n)"
    using bit_one_mask by blast
  finally show ?thesis using assms by simp
qed

lemma newBitset_length: "n \<le> 64 * length (newBitset n)"
proof -
  have "n = 64 * (n div 64) + n mod 64" by simp
  moreover have "n mod 64 < 64" by simp
  ultimately show ?thesis by (auto simp: newBitset_def Let_def)
qed

lemma newBitset_capacity: "n \<le> capacity (newBitset n)"
  using newBitset_length by (simp add: capacity_def)

lemma newBitset_bits: "bits_of (newBitset n) = {}"
  by (auto simp: bits_of_def newBitset_def Let_def chunk_in_range)

lemma clone_id [simp]: "clone b = b"
  by (simp add: clone_def)

lemma bs_set_in_range:
  assumes "p < capacity b"
  shows "bs_set b p = Inr (b[p div 64 := b ! (p div 64) OR push_bit (p mod 64) 1])"
  using assms by (simp add: bitset_defs chunk_in_range)

lemma bs_clear_in_range:
  assumes "p < capacity b"
  shows "bs_clear b p = Inr (b[p div 64 := b ! (p div 64) AND NOT (push_bit (p mod 64) 1)])"
  using assms by (simp add: bitset_defs chunk_in_range)

lemma bs_get_in_range:
  assumes "p < capacity b"
  shows "bs_get b p = Inr (bit (b ! (p div 64)) (p mod 64))"
  using assms by (simp add: bitset_defs chunk_in_range and_mask_nonzero)

lemma bs_out_of_range:
  assumes "\<not> p < capacity b"
  shows "bs_set b p = Inl IndexOutOfRange" and "bs_clear b p = Inl IndexOutOfRange"
    and "bs_get b p = Inl IndexOutOfRange"
  using assms by (simp_all add: bitset_defs chunk_in_range slice_get_def)

lemma position_eq: "(p :: nat) div 64 = q div 64 \<Longrightarrow> p mod 64 = q mod 64 \<Longrightarrow> p = q"
  by (metis mult_div_mod_eq)

lemma bits_of_update:
  assumes "p < capacity b"
    and upd: "\<And>n. n < 64 \<Longrightarrow> bit w n \<longleftrightarrow> (if n = p mod 64 then v else bit (b ! (p div 64)) n)"
  shows "q \<in> bits_of (b[p div 64 := w]) \<longleftrightarrow> (if q = p then v else q \<in> bits_of b)"
proof (cases "q div 64 = p div 64")
  case True
  then have eq: "q = p \<longleftrightarrow> q mod 64 = p mod 64" using position_eq by blast
  have "bit w (q mod 64) \<longleftrightarrow> (if q mod 64 = p mod 64 then v else bit (b ! (p div 64)) (q mod 64))"
    by (rule upd) simp
  with True eq assms(1) show ?thesis by (simp add: bits_of_def chunk_in_range)
next
  case False
  then show ?thesis by (auto simp: bits_of_def chunk_in_range)
qed

lemma bs_set_bits:
  assumes "p < capacity b"
  shows "\<exists>b'. bs_set b p = Inr b' \<and> length b' = length b \<and> bits_of b' = insert p (bits_of b)"
proof -
  let ?w = "b ! (p div 64) OR push_bit (p mod 64) 1"
  have "q \<in> bits_of (b[p div 64 := ?w]) \<longleftrightarrow> (if q = p then True else q \<in> bits_of b)" for q
    by (rule bits_of_update [OF assms]) (simp add: bit_or_iff bit_one_mask)
  then have "bits_of (b[p div 64 := ?w]) = insert p (bits_of b)"
    by (simp add: set_eq_iff)
  then show ?thesis using assms by (simp add: bs_set_in_range)
qed

lemma bs_clear_bits:
  assumes "p < capacity b"
  shows "\<exists>b'. bs_clear b p = Inr b' \<and> length b' = length b \<and> bits_of b' = bits_of b - {p}"
proof -
  let ?w = "b ! (p div 64) AND NOT (push_bit (p mod 64) 1)"
  have "q \<in> bits_of (b[p div 64 := ?w]) \<longleftrightarrow> (if q = p then False else q \<in> bits_of b)" for q
    by (rule bits_of_update [OF assms]) (simp add: bit_and_iff bit_not_iff bit_one_mask)
  then have "bits_of (b[p div 64 := ?w]) = bits_of b - {p}"
    by (simp add: set_eq_iff)
  then show ?thesis using assms by (simp add: bs_clear_in_range)
qed

lemma equals_from_eq: "length xs = length ys \<Longrightarrow> equals_from xs ys \<longleftrightarrow> xs = ys"
  by (induction xs ys rule: list_induct2) auto

lemma bs_equals_eq: "bs_equals b b2 \<longleftrightarrow> b = b2"
  using equals_from_eq by (auto simp: bs_equals_def)

lemma bits_of_inject:
  assumes "length b = length b2"
  shows "bits_of b = bits_of b2 \<longleftrightarrow> b = b2"
proof
  assume eq: "bits_of b = bits_of b2"
  show "b = b2"
  proof (rule nth_equalityI [OF assms])
    fix i assume i: "i < length b"
    show "b ! i = b2 ! i"
    proof (rule bit_eqI)
      fix n assume "possible_bit TYPE(64 word) n"
      then have n: "n < 64" by (simp add: possible_bit_def)
      have "64 * i + n \<in> bits_of b \<longleftrightarrow> 64 * i + n \<in> bits_of b2" using eq by simp
      then show "bit (b ! i) n \<longleftrightarrow> bit (b2 ! i) n"
        using i n assms by (auto simp: bits_of_def capacity_def)
    qed
  qed
qed simp

section \<open>Counting and hashing\<close>

lemma OnesCount64_card: "OnesCount64 v = card {n. n < 64 \<and> bit v n}"
proof -
  have "set (filter (bit v) [0..<64]) = {n. n < 64 \<and> bit v n}" by auto
  then show ?thesis
    by (metis OnesCount64_def distinct_card distinct_filter distinct_upt)
qed

lemma popcnt_snoc: "popcnt (b @ [v]) = popcnt b + OnesCount64 v"
  by (simp add: popcnt_def)

lemma bits_of_snoc:
  "bits_of (b @ [v]) = bits_of b \<union> (+) (capacity b) ` {n. n < 64 \<and> bit v n}" (is "?l = ?r")
proof -
  have "q \<in> ?l \<longleftrightarrow> q \<in> ?r" for q
  proof (cases "q < capacity b")
    case True
    then have "q \<notin> (+) (capacity b) ` {n. n < 64 \<and> bit v n}" by auto
    with True show ?thesis by (simp add: bits_of_def chunk_in_range nth_append)
  next
    case False
    then obtain n where q: "q = capacity b + n" by (metis le_iff_add not_less)
    have "q < capacity (b @ [v]) \<longleftrightarrow> n < 64" by (simp add: q capacity_def)
    moreover have "n < 64 \<Longrightarrow> q div 64 = length b \<and> q mod 64 = n" by (simp add: q capacity_def)
    ultimately show ?thesis using False q by (auto simp: bits_of_def)
  qed
  then show ?thesis by blast
qed

lemma finite_bits_of [simp]: "finite (bits_of b)"
  by (rule finite_subset [of _ "{..<capacity b}"]) (auto simp: bits_of_def)

lemma popcnt_card: "popcnt b = card (bits_of b)"
proof (induction b rule: rev_induct)
  case Nil
  show ?case by (simp add: popcnt_def bits_of_def capacity_def)
next
  case (snoc v b)
  let ?new = "{n. n < 64 \<and> bit v n}"
  have "card (bits_of b \<union> (+) (capacity b) ` ?new) = card (bits_of b) + card ((+) (capacity b) ` ?new)"
    by (rule card_Un_disjoint) (auto simp: bits_of_def)
  moreover have "card ((+) (capacity b) ` ?new) = card ?new"
    by (rule card_image) simp
  ultimately show ?case
    by (simp add: popcnt_snoc bits_of_snoc snoc.IH OnesCount64_card)
qed

section \<open>The interface of a position set\<close>

text \<open>
  What the checker needs of its \<open>linearized\<close> sets: positions below a capacity can be added and
  removed without a panic, equality decides equality of the sets, and equal sets have equal hash
  keys, so that a lookup by key never misses an equal set.
\<close>

locale position_set =
  fixes fresh :: "nat \<Rightarrow> 'b"
    and ins :: "'b \<Rightarrow> nat \<Rightarrow> 'b res"
    and del :: "'b \<Rightarrow> nat \<Rightarrow> 'b res"
    and same :: "'b \<Rightarrow> 'b \<Rightarrow> bool"
    and key :: "'b \<Rightarrow> 'k"
    and elems :: "'b \<Rightarrow> nat set"
    and cap :: "'b \<Rightarrow> nat"
  assumes fresh_cap: "n \<le> cap (fresh n)"
    and fresh_elems: "elems (fresh n) = {}"
    and ins_ok: "p < cap b \<Longrightarrow> \<exists>b'. ins b p = Inr b' \<and> cap b' = cap b \<and> elems b' = insert p (elems b)"
    and del_ok: "p < cap b \<Longrightarrow> \<exists>b'. del b p = Inr b' \<and> cap b' = cap b \<and> elems b' = elems b - {p}"
    and same_iff: "cap b = cap c \<Longrightarrow> same b c \<longleftrightarrow> elems b = elems c"
    and same_key: "same b c \<Longrightarrow> key b = key c"
begin

lemma ins_del_restores:
  assumes "p < cap b" and "p \<notin> elems b"
  shows "\<exists>b' b''. ins b p = Inr b' \<and> del b' p = Inr b'' \<and> same b'' b \<and> cap b'' = cap b"
proof -
  from ins_ok [OF assms(1)] obtain b' where b': "ins b p = Inr b'" "cap b' = cap b"
      "elems b' = insert p (elems b)" by blast
  with assms(1) del_ok [of p b'] obtain b'' where b'': "del b' p = Inr b''" "cap b'' = cap b"
      "elems b'' = insert p (elems b) - {p}" by auto
  with assms(2) have "elems b'' = elems b" by auto
  with b' b'' show ?thesis using same_iff by auto
qed

lemma ins_commute:
  assumes "p < cap b" and "q < cap b"
  shows "\<exists>c d. rbind (ins b p) (\<lambda>b. ins b q) = Inr c \<and> rbind (ins b q) (\<lambda>b. ins b p) = Inr d
           \<and> same c d \<and> key c = key d"
proof -
  from ins_ok [OF assms(1)] obtain bp where bp: "ins b p = Inr bp" "cap bp = cap b"
      "elems bp = insert p (elems b)" by blast
  from ins_ok [OF assms(2)] obtain bq where bq: "ins b q = Inr bq" "cap bq = cap b"
      "elems bq = insert q (elems b)" by blast
  from ins_ok [of q bp] bp assms obtain c where c: "ins bp q = Inr c" "cap c = cap b"
      "elems c = insert q (insert p (elems b))" by auto
  from ins_ok [of p bq] bq assms obtain d where d: "ins bq p = Inr d" "cap d = cap b"
      "elems d = insert p (insert q (elems b))" by auto
  have "same c d" using c d same_iff by (simp add: insert_commute)
  with bp bq c d show ?thesis by (auto dest: same_key)
qed

end

interpretation bs: position_set newBitset bs_set bs_clear bs_equals bs_hash bits_of capacity
proof
  show "n \<le> capacity (newBitset n)" for n by (rule newBitset_capacity)
  show "bits_of (newBitset n) = {}" for n by (rule newBitset_bits)
  show "\<exists>b'. bs_set b p = Inr b' \<and> capacity b' = capacity b \<and> bits_of b' = insert p (bits_of b)"
    if "p < capacity b" for p b using bs_set_bits [OF that] by (auto simp: capacity_def)
  show "\<exists>b'. bs_clear b p = Inr b' \<and> capacity b' = capacity b \<and> bits_of b' = bits_of b - {p}"
    if "p < capacity b" for p b using bs_clear_bits [OF that] by (auto simp: capacity_def)
  show "bs_equals b c \<longleftrightarrow> bits_of b = bits_of c" if "capacity b = capacity c" for b c
    using that bits_of_inject [of b c] by (auto simp: bs_equals_eq capacity_def)
  show "bs_hash b = bs_hash c" if "bs_equals b c" for b c using that by (simp add: bs_equals_eq)
qed

end
