(* ===== verification/NodeList.thy ===== *)
theory NodeList
  imports Prelude
begin

text \<open>
  The doubly linked list of \<^verbatim>\<open>porcupine/checker.go\<close>: \<open>entry\<close>, \<open>node\<close>, \<open>insertBefore\<close>, \<open>length\<close>,
  \<open>makeLinkedEntries\<close>, \<open>lift\<close> and \<open>unlift\<close>.

  The Go code mutates nodes through pointers, and \<open>unlift\<close> relies on a removed node keeping its own
  \<open>next\<close> and \<open>prev\<close>, so the nodes live in an explicit store: a heap is the list of allocated nodes,
  a pointer is \<open>None\<close> (nil) or the index of a node.  Every dereference is checked; a nil dereference
  is the Go panic.  \<open>links\<close> says that a list of addresses is linked in both directions; \<open>lift\<close>
  takes a call and its matching return out of such a list and \<open>unlift\<close> puts back exactly the heap
  from before.
\<close>

section \<open>Entries and nodes\<close>

datatype entryKind = callEntry | returnEntry

record 'v entry =
  ekind :: entryKind
  evalue :: "'v iface"
  eid :: int
  etime :: int
  eclientId :: int

type_synonym ptr = "nat option"

record 'v node =
  nvalue :: "'v iface"
  nmatch :: ptr
  nid :: int
  nnext :: ptr
  nprev :: ptr

type_synonym 'v heap = "'v node list"

definition deref :: "'v heap \<Rightarrow> ptr \<Rightarrow> 'v node res" where
  "deref h p =
     (case p of None \<Rightarrow> Inl NilDeref | Some a \<Rightarrow> if a < length h then Inr (h ! a) else Inl NilDeref)"

definition set_next :: "'v heap \<Rightarrow> ptr \<Rightarrow> ptr \<Rightarrow> 'v heap res" where
  "set_next h p q =
     (case p of None \<Rightarrow> Inl NilDeref
      | Some a \<Rightarrow> if a < length h then Inr (h[a := (h ! a)\<lparr>nnext := q\<rparr>]) else Inl NilDeref)"

definition set_prev :: "'v heap \<Rightarrow> ptr \<Rightarrow> ptr \<Rightarrow> 'v heap res" where
  "set_prev h p q =
     (case p of None \<Rightarrow> Inl NilDeref
      | Some a \<Rightarrow> if a < length h then Inr (h[a := (h ! a)\<lparr>nprev := q\<rparr>]) else Inl NilDeref)"

text \<open>\<open>&node{...}\<close>: the new node is appended to the store and its address is returned.\<close>

definition new_node :: "'v heap \<Rightarrow> 'v iface \<Rightarrow> ptr \<Rightarrow> int \<Rightarrow> 'v heap \<times> ptr" where
  "new_node h v m i =
     (h @ [\<lparr>nvalue = v, nmatch = m, nid = i, nnext = None, nprev = None\<rparr>], Some (length h))"

definition insertBefore :: "'v heap \<Rightarrow> ptr \<Rightarrow> ptr \<Rightarrow> ('v heap \<times> ptr) res" where
  "insertBefore h n mark =
     (if mark \<noteq> None then
        rbind (deref h mark) (\<lambda>mk.
        let beforeMark = nprev mk in
        rbind (set_prev h mark n) (\<lambda>h1.
        rbind (set_next h1 n mark) (\<lambda>h2.
        if beforeMark \<noteq> None then
          rbind (set_prev h2 n beforeMark) (\<lambda>h3.
          rbind (set_next h3 beforeMark n) (\<lambda>h4. Inr (h4, n)))
        else Inr (h2, n))))
      else Inr (h, n))"

text \<open>\<open>length\<close>: a loop over \<open>next\<close>, which would not return on a cyclic list.\<close>

partial_function (option) node_length :: "'v heap \<Rightarrow> ptr \<Rightarrow> int \<Rightarrow> int res option" where
  "node_length h n l =
     (if n \<noteq> None then
        (case deref h n of
           Inl e \<Rightarrow> Some (Inl e)
         | Inr nd \<Rightarrow> node_length h (nnext nd) (l + 1))
      else Some (Inr l))"

declare node_length.simps [code]

text \<open>
  The loop of \<open>makeLinkedEntries\<close>, which visits the entries from the last to the first; \<open>mat\<close> is the
  Go map \<open>match\<close> (a missing key reads as the nil pointer).
\<close>

fun link_loop :: "'v heap \<Rightarrow> ptr \<Rightarrow> (int \<Rightarrow> ptr) \<Rightarrow> 'v entry list \<Rightarrow> ('v heap \<times> ptr) res" where
  "link_loop h root mat [] = Inr (h, root)"
| "link_loop h root mat (elem # rest) =
     (if ekind elem = returnEntry then
        (let (h1, ent) = new_node h (evalue elem) None (eid elem);
             mat1 = mat(eid elem := ent)
         in rbind (insertBefore h1 ent root) (\<lambda>(h2, _). link_loop h2 ent mat1 rest))
      else
        (let (h1, ent) = new_node h (evalue elem) (mat (eid elem)) (eid elem)
         in rbind (insertBefore h1 ent root) (\<lambda>(h2, _). link_loop h2 ent mat rest)))"

definition makeLinkedEntries :: "'v entry list \<Rightarrow> ('v heap \<times> ptr) res" where
  "makeLinkedEntries entries = link_loop [] None (\<lambda>_. None) (rev entries)"

definition lift :: "'v heap \<Rightarrow> ptr \<Rightarrow> 'v heap res" where
  "lift h ent =
     rbind (deref h ent) (\<lambda>e.
     rbind (set_next h (nprev e) (nnext e)) (\<lambda>h1.
     rbind (deref h1 ent) (\<lambda>e1.
     rbind (set_prev h1 (nnext e1) (nprev e1)) (\<lambda>h2.
     rbind (deref h2 ent) (\<lambda>e2.
     let mat = nmatch e2 in
     rbind (deref h2 mat) (\<lambda>m.
     rbind (set_next h2 (nprev m) (nnext m)) (\<lambda>h3.
     rbind (deref h3 mat) (\<lambda>m1.
     if nnext m1 \<noteq> None then set_prev h3 (nnext m1) (nprev m1) else Inr h3))))))))"

definition unlift :: "'v heap \<Rightarrow> ptr \<Rightarrow> 'v heap res" where
  "unlift h ent =
     rbind (deref h ent) (\<lambda>e.
     let mat = nmatch e in
     rbind (deref h mat) (\<lambda>m.
     rbind (set_next h (nprev m) mat) (\<lambda>h1.
     rbind (deref h1 mat) (\<lambda>m1.
     rbind (if nnext m1 \<noteq> None then set_prev h1 (nnext m1) mat else Inr h1) (\<lambda>h2.
     rbind (deref h2 ent) (\<lambda>e2.
     rbind (set_next h2 (nprev e2) ent) (\<lambda>h3.
     rbind (deref h3 ent) (\<lambda>e3. set_prev h3 (nnext e3) ent))))))))"

section \<open>Linked address lists\<close>

definition hdp :: "nat list \<Rightarrow> ptr" where
  "hdp xs = (case xs of [] \<Rightarrow> None | a # _ \<Rightarrow> Some a)"

lemma hdp_simps [simp]: "hdp [] = None" "hdp (a # xs) = Some a" "hdp xs = None \<longleftrightarrow> xs = []"
  by (auto simp: hdp_def split: list.splits)

fun links :: "'v heap \<Rightarrow> ptr \<Rightarrow> nat list \<Rightarrow> bool" where
  "links h pr [] = True"
| "links h pr (a # as) =
     (a < length h \<and> nprev (h ! a) = pr \<and> nnext (h ! a) = hdp as \<and> links h (Some a) as)"

definition payload_eq :: "'v node \<Rightarrow> 'v node \<Rightarrow> bool" where
  "payload_eq nd nd' \<longleftrightarrow> nvalue nd = nvalue nd' \<and> nmatch nd = nmatch nd' \<and> nid nd = nid nd'"

lemma payload_eq_simps [simp]:
  "payload_eq nd nd" "payload_eq nd (nd'\<lparr>nnext := p\<rparr>) = payload_eq nd nd'"
  "payload_eq nd (nd'\<lparr>nprev := p\<rparr>) = payload_eq nd nd'"
  by (simp_all add: payload_eq_def)

lemma payload_eq_trans: "payload_eq a b \<Longrightarrow> payload_eq b c \<Longrightarrow> payload_eq a c"
  by (simp add: payload_eq_def)

definition same_payload :: "'v heap \<Rightarrow> 'v heap \<Rightarrow> bool" where
  "same_payload h h' \<longleftrightarrow> length h = length h' \<and> (\<forall>a<length h. payload_eq (h ! a) (h' ! a))"

lemma same_payloadD: "same_payload h h' \<Longrightarrow> a < length h \<Longrightarrow> payload_eq (h ! a) (h' ! a)"
  by (simp add: same_payload_def)

lemma same_payload_length: "same_payload h h' \<Longrightarrow> length h' = length h"
  by (simp add: same_payload_def)

lemma same_payload_refl [simp]: "same_payload h h"
  by (simp add: same_payload_def)

lemma same_payload_trans: "same_payload h h' \<Longrightarrow> same_payload h' h'' \<Longrightarrow> same_payload h h''"
  by (simp add: same_payload_def) (metis payload_eq_trans)

lemma deref_Some [simp]: "a < length h \<Longrightarrow> deref h (Some a) = Inr (h ! a)"
  by (simp add: deref_def)

lemma deref_None [simp]: "deref h None = Inl NilDeref"
  by (simp add: deref_def)

lemma set_next_Some [simp]: "a < length h \<Longrightarrow> set_next h (Some a) q = Inr (h[a := (h ! a)\<lparr>nnext := q\<rparr>])"
  and set_prev_Some [simp]: "a < length h \<Longrightarrow> set_prev h (Some a) q = Inr (h[a := (h ! a)\<lparr>nprev := q\<rparr>])"
  by (simp_all add: set_next_def set_prev_def)

lemma links_bound: "links h pr xs \<Longrightarrow> a \<in> set xs \<Longrightarrow> a < length h"
  by (induction xs arbitrary: pr) auto

lemma links_cong:
  assumes "length h = length h'"
    and "\<And>a. a \<in> set xs \<Longrightarrow> nnext (h ! a) = nnext (h' ! a) \<and> nprev (h ! a) = nprev (h' ! a)"
  shows "links h pr xs \<longleftrightarrow> links h' pr xs"
  using assms(2)
proof (induction xs arbitrary: pr)
  case Nil
  then show ?case by simp
next
  case (Cons a xs)
  from Cons.prems [of a] Cons.IH [of "Some a"] Cons.prems show ?case by (simp add: assms(1))
qed

lemma links_mid:
  assumes "links h pr (us @ a # vs)"
  shows "a < length h \<and> nnext (h ! a) = hdp vs \<and> nprev (h ! a) = (if us = [] then pr else Some (last us))"
  using assms
proof (induction us arbitrary: pr)
  case Nil
  then show ?case by simp
next
  case (Cons c us)
  then have "links h (Some c) (us @ a # vs)" by simp
  from Cons.IH [OF this] show ?case by simp
qed

lemma links_suffix: "links h pr (us @ a # vs) \<Longrightarrow> links h (Some a) vs"
  by (induction us arbitrary: pr) auto

lemma links_prefix_next: "links h pr (us @ u # a # vs) \<Longrightarrow> nnext (h ! u) = Some a"
  using links_mid [of h pr us u "a # vs"] by simp

subsection \<open>Removing and restoring one node\<close>

text \<open>\<open>unlink\<close> and \<open>relink\<close> are the two halves of \<open>lift\<close> and \<open>unlift\<close> for one node.\<close>

definition unlink :: "'v heap \<Rightarrow> nat \<Rightarrow> 'v heap" where
  "unlink h a =
     (let h1 = (case nprev (h ! a) of None \<Rightarrow> h | Some u \<Rightarrow> h[u := (h ! u)\<lparr>nnext := nnext (h ! a)\<rparr>])
      in case nnext (h ! a) of None \<Rightarrow> h1 | Some b \<Rightarrow> h1[b := (h1 ! b)\<lparr>nprev := nprev (h ! a)\<rparr>])"

definition relink :: "'v heap \<Rightarrow> nat \<Rightarrow> 'v heap" where
  "relink h a =
     (let h1 = (case nprev (h ! a) of None \<Rightarrow> h | Some u \<Rightarrow> h[u := (h ! u)\<lparr>nnext := Some a\<rparr>])
      in case nnext (h ! a) of None \<Rightarrow> h1 | Some b \<Rightarrow> h1[b := (h1 ! b)\<lparr>nprev := Some a\<rparr>])"

lemma unlink_length [simp]: "length (unlink h a) = length h"
  and relink_length [simp]: "length (relink h a) = length h"
  by (simp_all add: unlink_def relink_def Let_def split: option.splits)

lemma unlink_payload: "same_payload h (unlink h a)"
  by (auto simp: unlink_def same_payload_def Let_def nth_update_if split: option.splits)

lemma unlink_self: "nprev (h ! a) \<noteq> Some a \<Longrightarrow> nnext (h ! a) \<noteq> Some a \<Longrightarrow> unlink h a ! a = h ! a"
  by (auto simp: unlink_def Let_def nth_update_if split: option.splits)

text \<open>Taking one inner node out keeps the rest linked and is undone by \<open>relink\<close>.\<close>

lemma links_last_next:
  assumes "links h pr (us @ [u])"
  shows "nnext (h ! u) = None"
  using links_mid [of h pr us u "[]"] assms by simp

lemma links_unlink:
  assumes "links h pr (us @ u # a # vs)" and "distinct (us @ u # a # vs)" and "pr \<notin> Some ` set (a # vs)"
  shows "links (unlink h a) pr (us @ u # vs)"
  using assms
proof (induction us arbitrary: pr)
  case Nil
  then have a: "nprev (h ! a) = Some u" "nnext (h ! a) = hdp vs" "u < length h" "u \<noteq> a" "u \<notin> set vs"
    and vs: "links h (Some a) vs" and pr: "nprev (h ! u) = pr" by auto
  show ?case
  proof (cases vs)
    case Nil
    with a pr show ?thesis by (simp add: unlink_def nth_update_if)
  next
    case (Cons b ws)
    with vs Nil.prems have ws: "links h (Some b) ws" "b < length h" "nnext (h ! b) = hdp ws" "b \<notin> set ws"
      by auto
    have "links (unlink h a) (Some b) ws \<longleftrightarrow> links h (Some b) ws"
      using a Cons ws by (intro links_cong) (auto simp: unlink_def Let_def nth_update_if)
    with a pr ws Cons show ?thesis by (auto simp: unlink_def Let_def nth_update_if)
  qed
next
  case (Cons c us)
  then have IH: "links (unlink h a) (Some c) (us @ u # vs)" by auto
  have "nprev (h ! a) = Some u" "nnext (h ! a) = hdp vs"
    using links_mid [of h pr "c # us @ [u]" a vs] Cons.prems by auto
  moreover have "c \<noteq> u" "c \<notin> set vs" "c \<noteq> a" using Cons.prems by auto
  ultimately have "unlink h a ! c = h ! c"
    by (auto simp: unlink_def Let_def nth_update_if split: option.splits) (auto simp: hdp_def split: list.splits)
  moreover have "hdp (us @ u # a # vs) = hdp (us @ u # vs)" by (cases us) auto
  ultimately show ?case using Cons.prems IH by simp
qed

text \<open>\<open>inner h a\<close>: node \<open>a\<close> sits inside a linked list, its neighbours point at it.\<close>

definition inner :: "'v heap \<Rightarrow> nat \<Rightarrow> bool" where
  "inner h a \<longleftrightarrow> a < length h \<and>
     (\<exists>u<length h. u \<noteq> a \<and> nprev (h ! a) = Some u \<and> nnext (h ! u) = Some a \<and>
        (case nnext (h ! a) of None \<Rightarrow> True
         | Some b \<Rightarrow> b < length h \<and> b \<noteq> a \<and> b \<noteq> u \<and> nprev (h ! b) = Some a))"

lemma links_inner:
  assumes "links h pr (us @ u # a # vs)" and "distinct (us @ u # a # vs)"
  shows "inner h a"
proof -
  have a: "a < length h" "nnext (h ! a) = hdp vs" "nprev (h ! a) = Some u"
    using links_mid [of h pr "us @ [u]" a vs] assms(1) by auto
  have u: "u < length h" "nnext (h ! u) = Some a"
    using links_mid [of h pr us u "a # vs"] assms(1) by auto
  have "b < length h \<and> nprev (h ! b) = Some a" if "vs = b # ws" for b ws
    using links_mid [of h pr "us @ [u, a]" b ws] assms(1) that by auto
  then show ?thesis
    using a u assms(2) by (cases vs) (auto simp: inner_def)
qed

lemma relink_unlink:
  assumes "inner h a"
  shows "relink (unlink h a) a = h"
proof (rule nth_equalityI)
  show "length (relink (unlink h a) a) = length h" by simp
next
  fix i
  from assms obtain u where u: "a < length h" "u < length h" "u \<noteq> a" "nprev (h ! a) = Some u"
      "nnext (h ! u) = Some a"
    and b: "\<And>b. nnext (h ! a) = Some b \<Longrightarrow> b < length h \<and> b \<noteq> a \<and> b \<noteq> u \<and> nprev (h ! b) = Some a"
    by (auto simp: inner_def split: option.splits)
  have "unlink h a ! a = h ! a"
    using u b by (intro unlink_self) auto
  then have "relink (unlink h a) a ! i =
      (case nnext (h ! a) of
         None \<Rightarrow> (if i = u then (h ! u)\<lparr>nnext := Some a\<rparr> else h ! i)
       | Some b \<Rightarrow> (if i = b then (h ! b)\<lparr>nprev := Some a\<rparr>
                    else if i = u then (h ! u)\<lparr>nnext := Some a\<rparr> else h ! i))"
    using u b by (simp add: relink_def unlink_def Let_def nth_update_if split: option.splits)
  also have "\<dots> = h ! i"
    using u b by (auto split: option.splits)
  finally show "relink (unlink h a) a ! i = h ! i" .
qed

lemma lift_unlink:
  assumes "inner h e" and "nnext (h ! e) \<noteq> None" and "nmatch (h ! e) = Some r" and "inner (unlink h e) r"
  shows "lift h (Some e) = Inr (unlink (unlink h e) r)"
proof -
  from assms(1,2) obtain u b where e: "e < length h" "u < length h" "u \<noteq> e" "nprev (h ! e) = Some u"
      "b < length h" "b \<noteq> e" "nnext (h ! e) = Some b"
    by (auto simp: inner_def split: option.splits)
  from assms(4) obtain u' where r: "r < length h" "u' < length h" "u' \<noteq> r" "nprev (unlink h e ! r) = Some u'"
    and b': "\<And>b. nnext (unlink h e ! r) = Some b \<Longrightarrow> b < length h \<and> b \<noteq> r"
    by (auto simp: inner_def split: option.splits)
  have self: "unlink h e ! e = h ! e" using e by (intro unlink_self) auto
  have h2: "h[u := (h ! u)\<lparr>nnext := Some b\<rparr>, b := (h[u := (h ! u)\<lparr>nnext := Some b\<rparr>] ! b)\<lparr>nprev := Some u\<rparr>]
       = unlink h e"
    using e by (simp add: unlink_def Let_def)
  have "lift h (Some e) =
     (let h2 = unlink h e; h3 = h2[u' := (h2 ! u')\<lparr>nnext := nnext (h2 ! r)\<rparr>] in
       if nnext (h3 ! r) \<noteq> None then set_prev h3 (nnext (h3 ! r)) (nprev (h3 ! r)) else Inr h3)"
    using e r assms(3) self by (simp add: lift_def Let_def h2)
  also have "\<dots> = Inr (unlink (unlink h e) r)"
    using r b' by (cases "nnext (unlink h e ! r)") (auto simp: Let_def nth_update_if unlink_def [of "unlink h e" r])
  finally show ?thesis .
qed

lemma unlift_relink:
  assumes "nprev (h ! r) = Some u" and "u < length h" and "r < length h" and "e < length h" and "u \<noteq> r"
    and "\<And>b. nnext (h ! r) = Some b \<Longrightarrow> b < length h"
    and "nmatch (h ! e) = Some r"
    and "nprev (relink h r ! e) = Some u'" and "u' < length h" and "u' \<noteq> e"
    and "nnext (relink h r ! e) = Some b'" and "b' < length h"
  shows "unlift h (Some e) = Inr (relink (relink h r) e)"
proof -
  let ?h1 = "h[u := (h ! u)\<lparr>nnext := Some r\<rparr>]"
  have h2: "(if nnext (?h1 ! r) \<noteq> None then set_prev ?h1 (nnext (?h1 ! r)) (Some r) else Inr ?h1) = Inr (relink h r)"
    using assms(1-6) by (cases "nnext (h ! r)") (auto simp: relink_def nth_update_if)
  have "unlift h (Some e) = rbind (Inr (relink h r)) (\<lambda>h2.
     rbind (deref h2 (Some e)) (\<lambda>e2. rbind (set_next h2 (nprev e2) (Some e)) (\<lambda>h3.
     rbind (deref h3 (Some e)) (\<lambda>e3. set_prev h3 (nnext e3) (Some e)))))"
    using assms(1-7) unfolding h2 [symmetric] by (simp add: unlift_def Let_def del: not_None_eq)
  also have "\<dots> = Inr (relink (relink h r) e)"
    using assms(3,4,8-12) by (simp add: relink_def [of "relink h r" e] Let_def nth_update_if)
  finally show ?thesis .
qed

lemma innerE:
  assumes "inner h a"
  obtains u where "a < length h" "u < length h" "u \<noteq> a" "nprev (h ! a) = Some u" "nnext (h ! u) = Some a"
    "\<And>b. nnext (h ! a) = Some b \<Longrightarrow> b < length h \<and> b \<noteq> a \<and> b \<noteq> u \<and> nprev (h ! b) = Some a"
  using assms by (auto simp: inner_def split: option.splits)

lemma inner_unlink_self: "inner h a \<Longrightarrow> unlink h a ! a = h ! a"
  by (rule unlink_self) (auto elim: innerE)

theorem lift_links:
  assumes "links h None (us @ e # vs @ r # ws)" and "distinct (us @ e # vs @ r # ws)" and "us \<noteq> []"
    and "nmatch (h ! e) = Some r"
  shows "\<exists>h'. lift h (Some e) = Inr h' \<and> links h' None (us @ vs @ ws) \<and> same_payload h h'
              \<and> unlift h' (Some e) = Inr h"
proof -
  obtain us' u where us: "us = us' @ [u]" using assms(3) by (cases us rule: rev_exhaust) auto
  let ?h1 = "unlink h e" and ?h2 = "unlink (unlink h e) r"
  have e: "inner h e" using links_inner [of h None us' u e "vs @ r # ws"] assms(1,2) us by simp
  have L1: "links ?h1 None (us' @ u # vs @ r # ws)"
    using links_unlink [of h None us' u e "vs @ r # ws"] assms(1,2) us by auto
  obtain us'' u'' where us'': "us' @ u # vs = us'' @ [u'']"
    by (metis append_is_Nil_conv list.distinct(1) rev_exhaust)
  then have split: "us' @ u # vs @ r # ws = us'' @ u'' # r # ws"
    by (metis append.assoc append_Cons append_Nil)
  have d: "distinct (us'' @ u'' # r # ws)"
    using assms(2) us unfolding split [symmetric] by auto
  have r: "inner ?h1 r" using links_inner [of ?h1 None us'' u'' r ws] L1 d unfolding split by simp
  have L2: "links ?h2 None (us'' @ u'' # ws)"
    using links_unlink [of ?h1 None us'' u'' r ws] L1 d unfolding split by auto
  moreover have "us'' @ u'' # ws = us @ vs @ ws"
    using us us'' by (metis append.assoc append_Cons append_Nil)
  ultimately have L: "links ?h2 None (us @ vs @ ws)" by simp
  have nn: "nnext (h ! e) \<noteq> None" using links_mid [of h None us e "vs @ r # ws"] assms(1) by simp
  have lft: "lift h (Some e) = Inr ?h2" by (rule lift_unlink [OF e nn assms(4) r])
  have undo: "relink ?h2 r = ?h1" by (rule relink_unlink [OF r])
  have pay: "same_payload h ?h2" using unlink_payload same_payload_trans by blast
  from e obtain u1 b1 where e1: "e < length h" "nprev (h ! e) = Some u1" "u1 < length h" "u1 \<noteq> e"
      "nnext (h ! e) = Some b1" "b1 < length h"
    using nn by (metis innerE not_None_eq)
  from r have r1: "?h2 ! r = ?h1 ! r" by (rule inner_unlink_self)
  have "unlift ?h2 (Some e) = Inr (relink (relink ?h2 r) e)"
  proof (rule innerE [OF r], rule unlift_relink)
    show "nmatch (?h2 ! e) = Some r" using same_payloadD [OF pay e1(1)] assms(4) by (simp add: payload_eq_def)
    show "nprev (relink ?h2 r ! e) = Some u1" "nnext (relink ?h2 r ! e) = Some b1"
      unfolding undo using e1 e by (simp_all add: inner_unlink_self)
  qed (use e1 r1 in auto)
  also have "relink (relink ?h2 r) e = h" unfolding undo by (rule relink_unlink [OF e])
  finally show ?thesis using lft L pay by blast
qed

section \<open>Building the list\<close>

lemma links_mono:
  assumes "links h pr xs"
    and "\<And>a. a \<in> set xs \<Longrightarrow> a < length h' \<and> nnext (h' ! a) = nnext (h ! a) \<and> nprev (h' ! a) = nprev (h ! a)"
  shows "links h' pr xs"
  using assms
proof (induction xs arbitrary: pr)
  case Nil
  then show ?case by simp
next
  case (Cons a xs)
  from Cons.prems Cons.IH [of "Some a"] show ?case by simp
qed

text \<open>Allocation is sequential, so the list built so far is always \<open>rev [0..<length h]\<close>.\<close>

abbreviation all_nodes :: "'v heap \<Rightarrow> nat list" where
  "all_nodes h \<equiv> rev [0..<length h]"

lemma insert_front:
  assumes L: "links h None (all_nodes h)" and nd: "nnext nd = None" "nprev nd = None"
  shows "\<exists>h'. insertBefore (h @ [nd]) (Some (length h)) (hdp (all_nodes h)) = Inr (h', Some (length h))
           \<and> length h' = Suc (length h) \<and> links h' None (all_nodes h') \<and> same_payload (h @ [nd]) h'"
proof (cases "length h")
  case 0
  then show ?thesis using nd by (simp add: insertBefore_def)
next
  case (Suc k)
  let ?h1 = "(h @ [nd])[k := (h ! k)\<lparr>nprev := Some (length h)\<rparr>]"
  let ?h2 = "?h1[length h := nd\<lparr>nnext := Some k\<rparr>]"
  have k: "k < length h" "nprev (h ! k) = None" "nnext (h ! k) = hdp (rev [0..<k])"
    and rest: "links h (Some k) (rev [0..<k])"
    using L Suc by auto
  have "insertBefore (h @ [nd]) (Some (length h)) (hdp (all_nodes h)) = Inr (?h2, Some (length h))"
    using k Suc by (simp add: insertBefore_def nth_append)
  moreover have "links ?h2 (Some k) (rev [0..<k])"
    using rest k by (rule_tac links_mono) (auto simp: nth_append nth_update_if)
  then have "links ?h2 None (all_nodes ?h2)"
    using k Suc nd by (auto simp: nth_update_if nth_append)
  moreover have "same_payload (h @ [nd]) ?h2"
    using k by (auto simp: same_payload_def nth_update_if nth_append)
  ultimately show ?thesis by auto
qed

text \<open>The match pointers \<open>link_loop\<close> stores, entry by entry.\<close>

fun match_ptrs :: "nat \<Rightarrow> (int \<Rightarrow> ptr) \<Rightarrow> 'v entry list \<Rightarrow> ptr list" where
  "match_ptrs n mat [] = []"
| "match_ptrs n mat (e # es) =
     (if ekind e = returnEntry then None # match_ptrs (Suc n) (mat(eid e := Some n)) es
      else mat (eid e) # match_ptrs (Suc n) mat es)"

lemma match_ptrs_length [simp]: "length (match_ptrs n mat es) = length es"
  by (induction es arbitrary: n mat) auto

definition payload_of :: "'v entry \<Rightarrow> ptr \<Rightarrow> 'v node \<Rightarrow> bool" where
  "payload_of e m nd \<longleftrightarrow> nvalue nd = evalue e \<and> nmatch nd = m \<and> nid nd = eid e"

lemma link_loop_result:
  assumes "links h None (all_nodes h)"
  shows "\<exists>h'. link_loop h (hdp (all_nodes h)) mat es = Inr (h', hdp (all_nodes h'))
           \<and> length h' = length h + length es \<and> links h' None (all_nodes h')
           \<and> (\<forall>a<length h. payload_eq (h ! a) (h' ! a))
           \<and> (\<forall>k<length es. payload_of (es ! k) (match_ptrs (length h) mat es ! k) (h' ! (length h + k)))"
  using assms
proof (induction es arbitrary: h mat)
  case Nil
  then show ?case by (auto simp: payload_of_def)
next
  case (Cons e es)
  let ?m = "if ekind e = returnEntry then None else mat (eid e)"
  let ?mat = "if ekind e = returnEntry then mat(eid e := Some (length h)) else mat"
  let ?nd = "\<lparr>nvalue = evalue e, nmatch = ?m, nid = eid e, nnext = None, nprev = None\<rparr>"
  from insert_front [OF Cons.prems, of ?nd] obtain h1 where
    ins: "insertBefore (h @ [?nd]) (Some (length h)) (hdp (all_nodes h)) = Inr (h1, Some (length h))"
    and len: "length h1 = Suc (length h)" and L1: "links h1 None (all_nodes h1)"
    and pay: "same_payload (h @ [?nd]) h1" by auto
  from len have root: "hdp (all_nodes h1) = Some (length h)" by simp
  from Cons.IH [OF L1, of ?mat] obtain h' where
    loop: "link_loop h1 (Some (length h)) ?mat es = Inr (h', hdp (all_nodes h'))"
    and len': "length h' = length h1 + length es" and L': "links h' None (all_nodes h')"
    and old: "\<forall>a<length h1. payload_eq (h1 ! a) (h' ! a)"
    and new: "\<forall>k<length es. payload_of (es ! k) (match_ptrs (length h1) ?mat es ! k) (h' ! (length h1 + k))"
    unfolding root by blast
  have "link_loop h (hdp (all_nodes h)) mat (e # es) = Inr (h', hdp (all_nodes h'))"
    using ins loop by (cases "ekind e = returnEntry") (simp_all add: new_node_def)
  moreover have old': "payload_eq ((h @ [?nd]) ! a) (h' ! a)" if "a < Suc (length h)" for a
    using old same_payloadD [OF pay, of a] that len by (auto intro: payload_eq_trans [of _ "h1 ! a"])
  then have "payload_eq (h ! a) (h' ! a)" if "a < length h" for a
    using that by (metis less_SucI nth_append)
  moreover have "payload_of ((e # es) ! k) (match_ptrs (length h) mat (e # es) ! k) (h' ! (length h + k))"
    if "k < length (e # es)" for k
  proof (cases k)
    case 0
    have "payload_of e ?m (h' ! length h)"
      using old' [of "length h"] by (simp add: payload_of_def payload_eq_def)
    with 0 show ?thesis by (simp split: if_splits)
  next
    case (Suc k')
    then have "payload_of (es ! k') (match_ptrs (length h1) ?mat es ! k') (h' ! (length h1 + k'))"
      using new that by simp
    with Suc len show ?thesis by (simp split: if_splits)
  qed
  ultimately show ?case using len len' L' by auto
qed

lemma match_ptrs_keep:
  assumes "k < length es" and "ekind (es ! k) = callEntry"
    and "\<And>j. j < k \<Longrightarrow> ekind (es ! j) = returnEntry \<Longrightarrow> eid (es ! j) \<noteq> eid (es ! k)"
  shows "match_ptrs n mat es ! k = mat (eid (es ! k))"
  using assms
proof (induction es arbitrary: n mat k)
  case Nil
  then show ?case by simp
next
  case (Cons e es)
  show ?case
  proof (cases k)
    case 0
    with Cons.prems show ?thesis by simp
  next
    case (Suc k')
    have IH: "match_ptrs n' mat' es ! k' = mat' (eid (es ! k'))" for n' mat'
    proof (rule Cons.IH)
      show "k' < length es" "ekind (es ! k') = callEntry" using Cons.prems Suc by auto
      show "eid (es ! j) \<noteq> eid (es ! k')" if "j < k'" "ekind (es ! j) = returnEntry" for j
        using Cons.prems(3) [of "Suc j"] that Suc by simp
    qed
    from Cons.prems(3) [of 0] Suc IH show ?thesis by auto
  qed
qed

lemma match_ptrs_found:
  assumes "k < length es" and "ekind (es ! k) = callEntry" and "j < k" and "ekind (es ! j) = returnEntry"
    and "eid (es ! j) = eid (es ! k)"
    and "\<And>i. i < k \<Longrightarrow> ekind (es ! i) = returnEntry \<Longrightarrow> eid (es ! i) = eid (es ! k) \<Longrightarrow> i = j"
  shows "match_ptrs n mat es ! k = Some (n + j)"
  using assms
proof (induction es arbitrary: n mat k j)
  case Nil
  from Nil.prems(1) show ?case by simp
next
  case (Cons e es)
  from Cons.prems(3) obtain k' where k: "k = Suc k'" by (cases k) auto
  show ?case
  proof (cases j)
    case 0
    have "match_ptrs (Suc n) (mat(eid e := Some n)) es ! k' = (mat(eid e := Some n)) (eid (es ! k'))"
    proof (rule match_ptrs_keep)
      show "k' < length es" "ekind (es ! k') = callEntry" using Cons.prems(1,2) k by auto
      show "eid (es ! i) \<noteq> eid (es ! k')" if "i < k'" "ekind (es ! i) = returnEntry" for i
        using Cons.prems(6) [of "Suc i"] that k 0 by auto
    qed
    with Cons.prems(1-5) k 0 show ?thesis by simp
  next
    case (Suc j')
    have "match_ptrs n' mat' es ! k' = Some (n' + j')" for n' mat'
    proof (rule Cons.IH)
      show "k' < length es" "ekind (es ! k') = callEntry" "j' < k'" "ekind (es ! j') = returnEntry"
        "eid (es ! j') = eid (es ! k')" using Cons.prems(1-5) k Suc by auto
      show "i = j'" if "i < k'" "ekind (es ! i) = returnEntry" "eid (es ! i) = eid (es ! k')" for i
        using Cons.prems(6) [of "Suc i"] that k Suc by simp
    qed
    with k Suc show ?thesis by simp
  qed
qed

lemma node_length_links:
  "links h pr xs \<Longrightarrow> node_length h (hdp xs) l = Some (Inr (l + int (length xs)))"
proof (induction xs arbitrary: pr l)
  case Nil
  show ?case by (subst node_length.simps) simp
next
  case (Cons a xs)
  from Cons.prems Cons.IH [of "Some a" "l + 1"]
  have "node_length h (hdp xs) (l + 1) = Some (Inr (l + 1 + int (length xs)))" by simp
  with Cons.prems show ?case by (subst node_length.simps) simp
qed

end
