(* ===== verification/History.thy ===== *)
theory History
  imports NodeList
begin

text \<open>
  Histories and models: \<^verbatim>\<open>porcupine/model.go\<close> and the history conversions of
  \<^verbatim>\<open>porcupine/checker.go\<close> (\<open>makeEntries\<close>, \<open>renumber\<close>, \<open>convertEntries\<close>, \<open>fillDefault\<close>), with the
  specification the checker is verified against: \<open>linearizable\<close>.

  A model is a record of the Go function fields; a nil function field is \<open>None\<close>.  \<open>Step\<close>,
  \<open>Partition\<close> and the describe functions are user code that may panic (a failed type assertion),
  so they return \<open>res\<close>.  The time stamps are \<open>int64\<close> and the identifiers \<open>int\<close>: both are \<open>int\<close>
  here, no arithmetic that could overflow is done on them.
\<close>

section \<open>Operations, events and models\<close>

record 'v Operation =
  ClientId :: int
  Input :: "'v iface"
  Call :: int
  Output :: "'v iface"
  Return :: int

datatype EventKind = CallEvent | ReturnEvent

record 'v Event =
  EvClientId :: int
  Kind :: EventKind
  Value :: "'v iface"
  Id :: int

record ('v, 's) Model =
  Partition :: "('v Operation list \<Rightarrow> 'v Operation list list res) option"
  PartitionEvent :: "('v Event list \<Rightarrow> 'v Event list list res) option"
  Init :: 's
  Step :: "'s \<Rightarrow> 'v iface \<Rightarrow> 'v iface \<Rightarrow> (bool \<times> 's) res"
  Equal :: "('s \<Rightarrow> 's \<Rightarrow> bool) option"
  DescribeOperation :: "('v iface \<Rightarrow> 'v iface \<Rightarrow> string res) option"
  DescribeState :: "('s \<Rightarrow> string) option"

definition NoPartition :: "'v Operation list \<Rightarrow> 'v Operation list list res" where
  "NoPartition history = Inr [history]"

definition NoPartitionEvent :: "'v Event list \<Rightarrow> 'v Event list list res" where
  "NoPartitionEvent history = Inr [history]"

definition ShallowEqual :: "'s \<Rightarrow> 's \<Rightarrow> bool" where
  "ShallowEqual state1 state2 = (state1 = state2)"

text \<open>
  The default descriptions print with the verb \<open>%v\<close> of \<open>fmt\<close>, whose text depends on the dynamic type
  of the value: the printers are parameters.
\<close>

definition DefaultDescribeOperation :: "('v iface \<Rightarrow> string) \<Rightarrow> 'v iface \<Rightarrow> 'v iface \<Rightarrow> string res" where
  "DefaultDescribeOperation fmtv inp out = Inr (fmtv inp @ '' -> '' @ fmtv out)"

definition DefaultDescribeState :: "('s \<Rightarrow> string) \<Rightarrow> 's \<Rightarrow> string" where
  "DefaultDescribeState fmts state = fmts state"

definition fillDefault :: "('v iface \<Rightarrow> string) \<Rightarrow> ('s \<Rightarrow> string) \<Rightarrow> ('v, 's) Model \<Rightarrow> ('v, 's) Model" where
  "fillDefault fmtv fmts model =
     (let m1 = (if Partition model = None then model\<lparr>Partition := Some NoPartition\<rparr> else model);
          m2 = (if PartitionEvent m1 = None then m1\<lparr>PartitionEvent := Some NoPartitionEvent\<rparr> else m1);
          m3 = (if Equal m2 = None then m2\<lparr>Equal := Some ShallowEqual\<rparr> else m2);
          m4 = (if DescribeOperation m3 = None
                then m3\<lparr>DescribeOperation := Some (DefaultDescribeOperation fmtv)\<rparr> else m3);
          m5 = (if DescribeState m4 = None
                then m4\<lparr>DescribeState := Some (DefaultDescribeState fmts)\<rparr> else m4)
      in m5)"

datatype CheckResult = Unknown | Ok | Illegal

section \<open>From histories to entries\<close>

text \<open>The \<open>Less\<close> of \<open>byTime\<close>, and \<open>sort.Sort\<close> with it as the parameter \<open>srt\<close>.\<close>

definition by_time_less :: "'v entry \<Rightarrow> 'v entry \<Rightarrow> bool" where
  "by_time_less a b = (etime a < etime b)"

fun entries_loop :: "int \<Rightarrow> 'v Operation list \<Rightarrow> 'v entry list" where
  "entries_loop idn [] = []"
| "entries_loop idn (elem # rest) =
     \<lparr>ekind = callEntry, evalue = Input elem, eid = idn, etime = Call elem, eclientId = ClientId elem\<rparr> #
     \<lparr>ekind = returnEntry, evalue = Output elem, eid = idn, etime = Return elem, eclientId = ClientId elem\<rparr> #
     entries_loop (idn + 1) rest"

definition makeEntries :: "('v entry list \<Rightarrow> 'v entry list) \<Rightarrow> 'v Operation list \<Rightarrow> 'v entry list" where
  "makeEntries srt history = srt (entries_loop 0 history)"

fun renumber_loop :: "(int \<Rightarrow> int option) \<Rightarrow> int \<Rightarrow> 'v Event list \<Rightarrow> 'v Event list" where
  "renumber_loop m idn [] = []"
| "renumber_loop m idn (v # rest) =
     (case m (Id v) of
        Some r \<Rightarrow> v\<lparr>Id := r\<rparr> # renumber_loop m idn rest
      | None \<Rightarrow> v\<lparr>Id := idn\<rparr> # renumber_loop (m(Id v \<mapsto> idn)) (idn + 1) rest)"

definition renumber :: "'v Event list \<Rightarrow> 'v Event list" where
  "renumber events = renumber_loop Map.empty 0 events"

definition convert_entry :: "int \<Rightarrow> 'v Event \<Rightarrow> 'v entry" where
  "convert_entry i elem =
     \<lparr>ekind = (if Kind elem = ReturnEvent then returnEntry else callEntry), evalue = Value elem,
      eid = Id elem, etime = i, eclientId = EvClientId elem\<rparr>"

fun convert_loop :: "int \<Rightarrow> 'v Event list \<Rightarrow> 'v entry list" where
  "convert_loop i [] = []"
| "convert_loop i (elem # rest) = convert_entry i elem # convert_loop (i + 1) rest"

definition convertEntries :: "'v Event list \<Rightarrow> 'v entry list" where
  "convertEntries events = convert_loop 0 events"

section \<open>Specification: well-formed histories and linearizability\<close>

definition positions :: "entryKind \<Rightarrow> int \<Rightarrow> 'v entry list \<Rightarrow> nat list" where
  "positions k i es = filter (\<lambda>p. ekind (es ! p) = k \<and> eid (es ! p) = i) [0..<length es]"

definition n_ops :: "'v entry list \<Rightarrow> int" where
  "n_ops es = int (length es) div 2"

text \<open>Every identifier below \<open>n_ops\<close> has one call and, after it, one return, and nothing else occurs.\<close>

definition wf_entries :: "'v entry list \<Rightarrow> bool" where
  "wf_entries es \<longleftrightarrow>
     list_all (\<lambda>e. 0 \<le> eid e \<and> eid e < n_ops es) es \<and>
     list_all (\<lambda>i. case (positions callEntry i es, positions returnEntry i es) of
                     ([c], [r]) \<Rightarrow> c < r | _ \<Rightarrow> False) [0..n_ops es - 1] \<and>
     even (length es)"

fun legal :: "('v, 's) Model \<Rightarrow> 's \<Rightarrow> ('v iface \<times> 'v iface) list \<Rightarrow> bool" where
  "legal M s [] = True"
| "legal M s ((i, out) # rest) =
     (case Step M s i out of Inr (True, s') \<Rightarrow> legal M s' rest | _ \<Rightarrow> False)"

definition value_at :: "entryKind \<Rightarrow> 'v entry list \<Rightarrow> int \<Rightarrow> 'v iface" where
  "value_at k es i = (case positions k i es of p # _ \<Rightarrow> evalue (es ! p) | [] \<Rightarrow> None)"

definition op_io :: "'v entry list \<Rightarrow> int \<Rightarrow> 'v iface \<times> 'v iface" where
  "op_io es i = (value_at callEntry es i, value_at returnEntry es i)"

text \<open>The real-time order: operation \<open>i\<close> returns before operation \<open>j\<close> is called.\<close>

definition precedes :: "'v entry list \<Rightarrow> int \<Rightarrow> int \<Rightarrow> bool" where
  "precedes es i j \<longleftrightarrow>
     (\<exists>x y. x < y \<and> y < length es \<and> ekind (es ! x) = returnEntry \<and> eid (es ! x) = i
            \<and> ekind (es ! y) = callEntry \<and> eid (es ! y) = j)"

definition rt_respects :: "'v entry list \<Rightarrow> int list \<Rightarrow> bool" where
  "rt_respects es p \<longleftrightarrow> (\<forall>x y. x < y \<and> y < length p \<longrightarrow> \<not> precedes es (p ! y) (p ! x))"

definition is_linearization :: "('v, 's) Model \<Rightarrow> 'v entry list \<Rightarrow> int list \<Rightarrow> bool" where
  "is_linearization M es p \<longleftrightarrow>
     distinct p \<and> set p = {0..<n_ops es} \<and> rt_respects es p \<and> legal M (Init M) (map (op_io es) p)"

definition linearizable :: "('v, 's) Model \<Rightarrow> 'v entry list \<Rightarrow> bool" where
  "linearizable M es \<longleftrightarrow> (\<exists>p. is_linearization M es p)"

text \<open>
  A partial linearization orders some of the operations, with every operation that precedes one of
  them, legally and in real-time order.
\<close>

definition is_partial_linearization :: "('v, 's) Model \<Rightarrow> 'v entry list \<Rightarrow> int list \<Rightarrow> bool" where
  "is_partial_linearization M es p \<longleftrightarrow>
     distinct p \<and> set p \<subseteq> {0..<n_ops es} \<and> rt_respects es p \<and>
     (\<forall>i\<in>set p. \<forall>j. precedes es j i \<longrightarrow> j \<in> set p) \<and> legal M (Init M) (map (op_io es) p)"

section \<open>Well-formed histories\<close>

lemma positions_iff: "p \<in> set (positions k i es) \<longleftrightarrow> p < length es \<and> ekind (es ! p) = k \<and> eid (es ! p) = i"
  by (auto simp: positions_def)

lemma wf_entriesE:
  assumes "wf_entries es" and "0 \<le> i" and "i < n_ops es"
  obtains c r where "positions callEntry i es = [c]" and "positions returnEntry i es = [r]" and "c < r"
proof -
  have "i \<in> set [0..n_ops es - 1]" using assms by simp
  with assms(1) have "case (positions callEntry i es, positions returnEntry i es) of
                     ([c], [r]) \<Rightarrow> c < r | _ \<Rightarrow> False"
    by (auto simp: wf_entries_def list_all_iff)
  then show ?thesis using that by (auto split: list.splits)
qed

lemma positions_single:
  assumes "positions k i es = [p]"
  shows "p < length es" "ekind (es ! p) = k" "eid (es ! p) = i"
    "\<And>q. q < length es \<Longrightarrow> ekind (es ! q) = k \<Longrightarrow> eid (es ! q) = i \<Longrightarrow> q = p"
proof -
  have "q \<in> set (positions k i es) \<longleftrightarrow> q = p" for q using assms by simp
  then show "p < length es" "ekind (es ! p) = k" "eid (es ! p) = i"
    "\<And>q. q < length es \<Longrightarrow> ekind (es ! q) = k \<Longrightarrow> eid (es ! q) = i \<Longrightarrow> q = p"
    unfolding positions_iff by blast+
qed

lemma wf_entries_eid: "wf_entries es \<Longrightarrow> p < length es \<Longrightarrow> 0 \<le> eid (es ! p) \<and> eid (es ! p) < n_ops es"
  by (auto simp: wf_entries_def list_all_length)

lemma wf_entries_unique:
  assumes "wf_entries es" and "p < length es" and "q < length es" and "ekind (es ! p) = ekind (es ! q)"
    and "eid (es ! p) = eid (es ! q)"
  shows "p = q"
proof -
  from wf_entries_eid [OF assms(1,2)] have "0 \<le> eid (es ! p)" "eid (es ! p) < n_ops es" by auto
  then show ?thesis
    using assms
    by (cases "ekind (es ! p)") (metis positions_single(4) wf_entriesE)+
qed

lemma wf_entries_length: "wf_entries es \<Longrightarrow> int (length es) = 2 * n_ops es"
  by (auto simp: wf_entries_def n_ops_def)

end
