(* ===== verification/Search.thy ===== *)
theory Search
  imports History "HOL-Library.Sublist"
begin

text \<open>
  The mathematics of the search behind \<open>checkSingle\<close>, over the node lists of \<^verbatim>\<open>NodeList\<close>.

  \<open>lin M h L s p\<close>: starting from model state \<open>s\<close>, the operations whose call and return nodes are in
  the list \<open>L\<close> can be linearized in the order \<open>p\<close>, each operation being chosen among the calls that
  stand before the first return of what is left.  This is the order in which the checker tries
  them; \<open>lin_iff_node_linearization\<close> shows that these orders are exactly the permutations of the
  operations that respect the real-time order and are legal for the model.
\<close>

section \<open>Well-formed node lists\<close>

definition nodes_in_range :: "int \<Rightarrow> 'v heap \<Rightarrow> nat list \<Rightarrow> bool" where
  "nodes_in_range N h L \<longleftrightarrow> (\<forall>a\<in>set L. a < length h \<and> 0 \<le> nid (h ! a) \<and> nid (h ! a) < N)"

definition nodes_paired :: "'v heap \<Rightarrow> nat list \<Rightarrow> bool" where
  "nodes_paired h L \<longleftrightarrow>
     (\<forall>a\<in>set L. \<forall>r. nmatch (h ! a) = Some r \<longrightarrow>
        nmatch (h ! r) = None \<and> nid (h ! r) = nid (h ! a) \<and> (\<exists>us vs ws. L = us @ a # vs @ r # ws))"

definition nodes_unique :: "'v heap \<Rightarrow> nat list \<Rightarrow> bool" where
  "nodes_unique h L \<longleftrightarrow>
     (\<forall>a\<in>set L. \<forall>b\<in>set L. nid (h ! a) = nid (h ! b) \<longrightarrow>
        (nmatch (h ! a) = None \<longleftrightarrow> nmatch (h ! b) = None) \<longrightarrow> a = b)"

definition nodes_called :: "'v heap \<Rightarrow> nat list \<Rightarrow> bool" where
  "nodes_called h L \<longleftrightarrow> (\<forall>r\<in>set L. nmatch (h ! r) = None \<longrightarrow> (\<exists>a\<in>set L. nmatch (h ! a) = Some r))"

definition wf_nodes :: "int \<Rightarrow> 'v heap \<Rightarrow> nat list \<Rightarrow> bool" where
  "wf_nodes N h L \<longleftrightarrow>
     distinct L \<and> nodes_in_range N h L \<and> nodes_paired h L \<and> nodes_unique h L \<and> nodes_called h L"

lemma wf_nodesD:
  assumes "wf_nodes N h L"
  shows "distinct L" "nodes_in_range N h L" "nodes_paired h L" "nodes_unique h L" "nodes_called h L"
  using assms by (simp_all add: wf_nodes_def)

lemma wf_nodes_distinct: "wf_nodes N h L \<Longrightarrow> distinct L"
  by (rule wf_nodesD)

lemma wf_nodes_bound: "wf_nodes N h L \<Longrightarrow> a \<in> set L \<Longrightarrow> a < length h \<and> 0 \<le> nid (h ! a) \<and> nid (h ! a) < N"
  using wf_nodesD(2) [of N h L] unfolding nodes_in_range_def by blast

lemma wf_nodes_unique:
  "wf_nodes N h L \<Longrightarrow> a \<in> set L \<Longrightarrow> b \<in> set L \<Longrightarrow> nid (h ! a) = nid (h ! b) \<Longrightarrow>
   (nmatch (h ! a) = None \<longleftrightarrow> nmatch (h ! b) = None) \<Longrightarrow> a = b"
  using wf_nodesD(4) [of N h L] unfolding nodes_unique_def by simp

lemma wf_nodes_call_of:
  "wf_nodes N h L \<Longrightarrow> r \<in> set L \<Longrightarrow> nmatch (h ! r) = None \<Longrightarrow> \<exists>a\<in>set L. nmatch (h ! a) = Some r"
  using wf_nodesD(5) [of N h L] unfolding nodes_called_def by blast

lemma wf_nodes_pair:
  "wf_nodes N h L \<Longrightarrow> a \<in> set L \<Longrightarrow> nmatch (h ! a) = Some r \<Longrightarrow>
   nmatch (h ! r) = None \<and> nid (h ! r) = nid (h ! a) \<and> (\<exists>us vs ws. L = us @ a # vs @ r # ws)"
  using wf_nodesD(3) [of N h L] unfolding nodes_paired_def by blast

lemmas wf_nodes_defs = wf_nodes_def nodes_in_range_def nodes_paired_def nodes_unique_def nodes_called_def

lemma wf_nodes_match_in: "wf_nodes N h L \<Longrightarrow> a \<in> set L \<Longrightarrow> nmatch (h ! a) = Some r \<Longrightarrow> r \<in> set L"
  using wf_nodes_pair [of N h L a r] by force

lemma wf_nodes_match:
  assumes "wf_nodes N h L" and "L = us @ a # ts" and "nmatch (h ! a) = Some r"
  obtains vs ws where "ts = vs @ r # ws" and "nmatch (h ! r) = None" and "nid (h ! r) = nid (h ! a)"
proof -
  have "a \<in> set L" using assms(2) by simp
  with wf_nodes_pair [OF assms(1) _ assms(3)] obtain us' vs ws where
    r: "nmatch (h ! r) = None" "nid (h ! r) = nid (h ! a)" "L = us' @ a # vs @ r # ws" by blast
  then have "ts = vs @ r # ws"
    using split_at_distinct [OF wf_nodes_distinct [OF assms(1)] assms(2)] by blast
  with r show ?thesis using that by blast
qed

lemma wf_nodes_payload:
  assumes "wf_nodes N h L" and "same_payload h h'"
  shows "wf_nodes N h' L"
proof -
  have eq: "nid (h' ! a) = nid (h ! a)" "nmatch (h' ! a) = nmatch (h ! a)" if "a \<in> set L" for a
    using same_payloadD [OF assms(2), of a] wf_nodes_bound [OF assms(1) that]
    by (simp_all add: payload_eq_def)
  show ?thesis
    unfolding wf_nodes_defs
  proof (intro conjI ballI allI impI)
    show "distinct L" by (rule wf_nodes_distinct [OF assms(1)])
    fix a assume a: "a \<in> set L"
    show "a < length h'" "0 \<le> nid (h' ! a)" "nid (h' ! a) < N"
      using wf_nodes_bound [OF assms(1) a] eq a same_payload_length [OF assms(2)] by auto
    show "nmatch (h' ! r) = None" "nid (h' ! r) = nid (h' ! a)" "\<exists>us vs ws. L = us @ a # vs @ r # ws"
      if "nmatch (h' ! a) = Some r" for r
      using wf_nodes_pair [OF assms(1) a] wf_nodes_match_in [OF assms(1) a] that eq a by auto
    show "\<exists>b\<in>set L. nmatch (h' ! b) = Some a" if "nmatch (h' ! a) = None"
      using wf_nodes_call_of [OF assms(1) a] that eq a by auto
    show "a = b" if "b \<in> set L" "nid (h' ! a) = nid (h' ! b)" "(nmatch (h' ! a) = None) = (nmatch (h' ! b) = None)"
      for b using wf_nodes_unique [OF assms(1) a that(1)] that eq a by auto
  qed
qed

text \<open>Leaving out whole operations keeps a list well formed.\<close>

lemma wf_nodes_filter:
  assumes "wf_nodes N h L" and P: "\<And>a. P a \<longleftrightarrow> Q (nid (h ! a))"
  shows "wf_nodes N h (filter P L)"
  unfolding wf_nodes_defs
proof (intro conjI ballI allI impI)
  show "distinct (filter P L)" using wf_nodes_distinct [OF assms(1)] by simp
  fix a assume a: "a \<in> set (filter P L)"
  then have aL: "a \<in> set L" and Pa: "P a" by auto
  show "a < length h" "0 \<le> nid (h ! a)" "nid (h ! a) < N" using wf_nodes_bound [OF assms(1) aL] by auto
  show "nmatch (h ! r) = None" "nid (h ! r) = nid (h ! a)" "\<exists>us vs ws. filter P L = us @ a # vs @ r # ws"
    if m: "nmatch (h ! a) = Some r" for r
  proof -
    from assms(1) aL m have "nmatch (h ! r) = None" and nid: "nid (h ! r) = nid (h ! a)"
      and "\<exists>us vs ws. L = us @ a # vs @ r # ws" using wf_nodes_pair by blast+
    moreover from nid Pa have "P r" by (simp add: P)
    ultimately show "nmatch (h ! r) = None" "nid (h ! r) = nid (h ! a)"
        "\<exists>us vs ws. filter P L = us @ a # vs @ r # ws"
      using Pa by (auto) blast
  qed
  show "\<exists>b\<in>set (filter P L). nmatch (h ! b) = Some a" if "nmatch (h ! a) = None"
  proof -
    from wf_nodes_call_of [OF assms(1) aL that] obtain b where b: "b \<in> set L" "nmatch (h ! b) = Some a" by blast
    with wf_nodes_pair [OF assms(1)] have "nid (h ! a) = nid (h ! b)" by blast
    with b Pa show ?thesis by (auto simp: P)
  qed
  show "a = b" if "b \<in> set (filter P L)" "nid (h ! a) = nid (h ! b)" "(nmatch (h ! a) = None) = (nmatch (h ! b) = None)"
    for b using wf_nodes_unique [OF assms(1) aL, of b] that by auto
qed

definition without :: "'v heap \<Rightarrow> int \<Rightarrow> nat list \<Rightarrow> nat list" where
  "without h i L = filter (\<lambda>a. nid (h ! a) \<noteq> i) L"

lemma wf_nodes_without: "wf_nodes N h L \<Longrightarrow> wf_nodes N h (without h i L)"
  unfolding without_def by (rule wf_nodes_filter [where Q = "\<lambda>j. j \<noteq> i"]) auto

lemma without_split:
  assumes "wf_nodes N h L" and "L = us @ e # vs @ r # ws" and "nmatch (h ! e) = Some r"
  shows "without h (nid (h ! e)) L = us @ vs @ ws"
proof -
  have r: "nmatch (h ! r) = None" "nid (h ! r) = nid (h ! e)" using wf_nodes_pair [OF assms(1) _ assms(3)] assms(2) by auto
  have "nid (h ! a) \<noteq> nid (h ! e)" if "a \<in> set (us @ vs @ ws)" for a
  proof
    assume eq: "nid (h ! a) = nid (h ! e)"
    have "a \<in> set L" "a \<noteq> e" "a \<noteq> r" "e \<in> set L" "r \<in> set L"
      using that wf_nodes_distinct [OF assms(1)] assms(2) by auto
    moreover have "a = e \<or> a = r"
      using wf_nodes_unique [OF assms(1) \<open>a \<in> set L\<close> \<open>e \<in> set L\<close>] wf_nodes_unique [OF assms(1) \<open>a \<in> set L\<close> \<open>r \<in> set L\<close>]
        eq r assms(3) by auto
    ultimately show False by blast
  qed
  then have keep: "filter (\<lambda>a. nid (h ! a) \<noteq> nid (h ! e)) xs = xs" if "set xs \<subseteq> set (us @ vs @ ws)" for xs
    using that by (intro filter_True) blast
  have "filter (\<lambda>a. nid (h ! a) \<noteq> nid (h ! e)) us = us" "filter (\<lambda>a. nid (h ! a) \<noteq> nid (h ! e)) vs = vs"
    "filter (\<lambda>a. nid (h ! a) \<noteq> nid (h ! e)) ws = ws" by (rule keep; auto)+
  then show ?thesis using assms(2) r by (simp add: without_def)
qed

section \<open>Linearization orders\<close>

inductive lin :: "('v, 's) Model \<Rightarrow> 'v heap \<Rightarrow> nat list \<Rightarrow> 's \<Rightarrow> int list \<Rightarrow> bool" for M h where
  lin_Nil: "lin M h [] s []"
| lin_Cons: "L = us @ e # vs \<Longrightarrow> \<forall>u\<in>set us. nmatch (h ! u) \<noteq> None \<Longrightarrow> nmatch (h ! e) = Some r \<Longrightarrow>
     Step M s (nvalue (h ! e)) (nvalue (h ! r)) = Inr (True, s') \<Longrightarrow>
     lin M h (without h (nid (h ! e)) L) s' p \<Longrightarrow> lin M h L s (nid (h ! e) # p)"

inductive_cases lin_NilE: "lin M h L s []"
inductive_cases lin_ConsE: "lin M h L s (i # p)"

text \<open>The declarative counterpart: a legal permutation that respects the real-time order.\<close>

definition node_prec :: "'v heap \<Rightarrow> nat list \<Rightarrow> int \<Rightarrow> int \<Rightarrow> bool" where
  "node_prec h L i j \<longleftrightarrow> (\<exists>r c. subseq [r, c] L \<and> nmatch (h ! r) = None \<and> nid (h ! r) = i
     \<and> nmatch (h ! c) \<noteq> None \<and> nid (h ! c) = j)"

primrec node_legal :: "('v, 's) Model \<Rightarrow> 'v heap \<Rightarrow> nat list \<Rightarrow> 's \<Rightarrow> int list \<Rightarrow> bool" where
  "node_legal M h L s [] = True"
| "node_legal M h L s (i # p) = (\<exists>e r s'. e \<in> set L \<and> nid (h ! e) = i \<and> nmatch (h ! e) = Some r \<and>
     Step M s (nvalue (h ! e)) (nvalue (h ! r)) = Inr (True, s') \<and> node_legal M h L s' p)"

definition node_linearization :: "('v, 's) Model \<Rightarrow> 'v heap \<Rightarrow> nat list \<Rightarrow> 's \<Rightarrow> int list \<Rightarrow> bool" where
  "node_linearization M h L s p \<longleftrightarrow>
     distinct p \<and> set p = (\<lambda>a. nid (h ! a)) ` set L \<and> sorted_wrt (\<lambda>i j. \<not> node_prec h L j i) p
     \<and> node_legal M h L s p"

lemma subseq_pair_in: "subseq [r, c] L \<Longrightarrow> r \<in> set L \<and> c \<in> set L"
  by (induction L) (auto simp: subseq_Cons2_iff subseq_singleton_left split: if_splits)

lemma subseq_pair_prefix:
  assumes "distinct (us @ e # vs)" and "subseq [r, e] (us @ e # vs)"
  shows "r \<in> set us"
  using assms
proof (induction us)
  case Nil
  then have "subseq [e] vs \<or> subseq [r, e] vs" by (auto simp: subseq_Cons2_iff split: if_splits)
  then have "e \<in> set vs" using subseq_pair_in [of r e vs] by (auto simp: subseq_singleton_left)
  with Nil.prems show ?case by simp
next
  case (Cons u us)
  then show ?case by (auto simp: subseq_Cons2_iff split: if_splits)
qed

lemma prefix_subseq_pair:
  assumes "r \<in> set us"
  shows "subseq [r, e] (us @ e # vs)"
proof -
  have "subseq [r] us" using assms by (simp add: subseq_singleton_left)
  moreover have "subseq [e] (e # vs)" by simp
  ultimately show ?thesis using list_emb_append_mono [of "(=)" "[r]" us "[e]" "e # vs"] by simp
qed

lemma node_prec_without:
  assumes "i \<noteq> k" and "j \<noteq> k"
  shows "node_prec h (without h k L) i j \<longleftrightarrow> node_prec h L i j"
proof
  assume "node_prec h (without h k L) i j"
  then show "node_prec h L i j"
    unfolding node_prec_def without_def using subseq_order.trans subseq_filter_left by blast
next
  assume "node_prec h L i j"
  then obtain r c where rc: "subseq [r, c] L" "nmatch (h ! r) = None" "nid (h ! r) = i"
      "nmatch (h ! c) \<noteq> None" "nid (h ! c) = j" by (auto simp: node_prec_def)
  have "subseq (filter (\<lambda>a. nid (h ! a) \<noteq> k) [r, c]) (filter (\<lambda>a. nid (h ! a) \<noteq> k) L)"
    using rc(1) by (rule subseq_filter)
  with rc assms show "node_prec h (without h k L) i j"
    by (auto simp: node_prec_def without_def)
qed

lemma ids_without: "(\<lambda>a. nid (h ! a)) ` set (without h i L) = (\<lambda>a. nid (h ! a)) ` set L - {i}"
  by (auto simp: without_def)

lemma set_without: "set (without h i L) = {a \<in> set L. nid (h ! a) \<noteq> i}"
  by (simp add: without_def)

lemma node_legal_without:
  assumes "i \<notin> set p"
  shows "node_legal M h (without h i L) s p \<longleftrightarrow> node_legal M h L s p"
  using assms by (induction p arbitrary: s) (auto simp: set_without)

text \<open>A candidate, i.e. a call before the first return, is preceded by no operation.\<close>

lemma candidate_not_preceded:
  assumes "wf_nodes N h L" and "L = us @ e # vs" and "nmatch (h ! e) \<noteq> None"
  shows "(\<forall>u\<in>set us. nmatch (h ! u) \<noteq> None) \<longleftrightarrow> (\<forall>j. \<not> node_prec h L j (nid (h ! e)))"
proof
  assume us: "\<forall>u\<in>set us. nmatch (h ! u) \<noteq> None"
  show "\<forall>j. \<not> node_prec h L j (nid (h ! e))"
  proof (intro allI notI)
    fix j assume "node_prec h L j (nid (h ! e))"
    then obtain r c where rc: "subseq [r, c] L" "nmatch (h ! r) = None" "nmatch (h ! c) \<noteq> None"
        "nid (h ! c) = nid (h ! e)" by (auto simp: node_prec_def)
    have "c \<in> set L" using subseq_pair_in [OF rc(1)] by simp
    with rc assms have "c = e" using wf_nodes_unique [OF assms(1), of c e] by auto
    with rc(1) have "r \<in> set us"
      using subseq_pair_prefix [of us e vs r] wf_nodes_distinct [OF assms(1)] assms(2) by simp
    with us rc(2) show False by blast
  qed
next
  assume none: "\<forall>j. \<not> node_prec h L j (nid (h ! e))"
  show "\<forall>u\<in>set us. nmatch (h ! u) \<noteq> None"
  proof (intro ballI notI)
    fix u assume "u \<in> set us" and "nmatch (h ! u) = None"
    then have "node_prec h L (nid (h ! u)) (nid (h ! e))"
      using prefix_subseq_pair [of u us e vs] assms by (auto simp: node_prec_def)
    with none show False by blast
  qed
qed

lemma lin_linearization:
  assumes "lin M h L s p" and "wf_nodes N h L"
  shows "node_linearization M h L s p"
  using assms
proof (induction rule: lin.induct)
  case (lin_Nil s)
  then show ?case by (simp add: node_linearization_def)
next
  case (lin_Cons L us e vs r s s' p)
  let ?i = "nid (h ! e)"
  from lin_Cons have IH: "node_linearization M h (without h ?i L) s' p"
    by (auto intro: wf_nodes_without)
  then have p: "distinct p" "set p = (\<lambda>a. nid (h ! a)) ` set L - {?i}" "?i \<notin> set p"
    by (auto simp: node_linearization_def ids_without)
  have ids: "set (?i # p) = (\<lambda>a. nid (h ! a)) ` set L" using p(2) lin_Cons.hyps(1) by auto
  have first: "\<not> node_prec h L j ?i" for j
    using candidate_not_preceded [OF lin_Cons.prems lin_Cons.hyps(1)] lin_Cons.hyps(2,3) by simp
  have "sorted_wrt (\<lambda>i j. \<not> node_prec h (without h ?i L) j i) p"
    using IH by (simp add: node_linearization_def)
  then have srt: "sorted_wrt (\<lambda>i j. \<not> node_prec h L j i) p"
    by (rule sorted_wrt_mono_rel [rotated]) (use p(3) node_prec_without in metis)
  have "node_legal M h L s' p"
    using IH unfolding node_linearization_def node_legal_without [OF p(3)] by blast
  with lin_Cons.hyps have "node_legal M h L s (?i # p)" by auto
  with p ids first srt show ?case by (auto simp: node_linearization_def)
qed

lemma linearization_lin:
  assumes "node_linearization M h L s p" and "wf_nodes N h L"
  shows "lin M h L s p"
  using assms
proof (induction p arbitrary: L s)
  case Nil
  then show ?case by (auto simp: node_linearization_def intro: lin_Nil)
next
  case (Cons i p)
  from Cons.prems(1) obtain e r s' where e: "e \<in> set L" "nid (h ! e) = i" "nmatch (h ! e) = Some r"
      "Step M s (nvalue (h ! e)) (nvalue (h ! r)) = Inr (True, s')" "node_legal M h L s' p"
    by (auto simp: node_linearization_def)
  from Cons.prems(1) have p: "distinct p" "i \<notin> set p" "insert i (set p) = (\<lambda>a. nid (h ! a)) ` set L"
      "\<forall>j\<in>set p. \<not> node_prec h L j i" "sorted_wrt (\<lambda>i j. \<not> node_prec h L j i) p"
    by (auto simp: node_linearization_def)
  from e(1) obtain us vs where L: "L = us @ e # vs" by (auto simp: in_set_conv_decomp)
  obtain vs' ws where r: "vs = vs' @ r # ws" "nmatch (h ! r) = None" "nid (h ! r) = i"
    using wf_nodes_match [OF Cons.prems(2) L e(3)] e(2) by metis
  have "\<not> node_prec h L j i" for j
  proof
    assume prec: "node_prec h L j i"
    then obtain r' c where rc: "subseq [r', c] L" "nmatch (h ! r') = None" "nid (h ! r') = j" "nid (h ! c) = i"
        "nmatch (h ! c) \<noteq> None" unfolding node_prec_def by blast
    have in_L: "r' \<in> set L" "c \<in> set L" using subseq_pair_in [OF rc(1)] by simp_all
    have "c = e"
      by (rule wf_nodes_unique [OF Cons.prems(2) in_L(2) e(1)]) (simp_all add: rc(4,5) e(2,3))
    with rc(1) L have "r' \<in> set us"
      using subseq_pair_prefix [of us e vs r'] wf_nodes_distinct [OF Cons.prems(2)] by simp
    then have "r' \<noteq> r" using L r(1) wf_nodes_distinct [OF Cons.prems(2)] by auto
    have "j \<noteq> i"
    proof
      assume "j = i"
      then have "r' = r"
        by (intro wf_nodes_unique [OF Cons.prems(2) in_L(1)]) (simp_all add: rc(2,3) r L)
      with \<open>r' \<noteq> r\<close> show False by blast
    qed
    moreover have "j \<in> insert i (set p)" using rc(3) in_L(1) unfolding p(3) by blast
    ultimately show False using p(4) prec by blast
  qed
  then have us: "\<forall>u\<in>set us. nmatch (h ! u) \<noteq> None"
    using candidate_not_preceded [OF Cons.prems(2) L] e(2,3) by simp
  have srt: "sorted_wrt (\<lambda>k j. \<not> node_prec h (without h i L) j k) p"
    using p(5) by (rule sorted_wrt_mono_rel [rotated]) (use p(2) node_prec_without in metis)
  have "node_linearization M h (without h i L) s' p"
    unfolding node_linearization_def ids_without node_legal_without [OF p(2)]
    using p(1-3) srt e(5) by auto
  then have "lin M h (without h i L) s' p"
    using Cons.IH wf_nodes_without [OF Cons.prems(2)] by blast
  with lin_Cons [OF L us e(3,4)] e(2) show ?case by simp
qed

theorem lin_iff_node_linearization:
  "wf_nodes N h L \<Longrightarrow> lin M h L s p \<longleftrightarrow> node_linearization M h L s p"
  by (metis lin_linearization linearization_lin)

section \<open>Partial linearizations\<close>

text \<open>
  \<open>steps M h L s p L' s'\<close>: linearizing the operations \<open>p\<close> one after the other, as \<open>lin\<close> does, leads
  from the list \<open>L\<close> and state \<open>s\<close> to what is left, \<open>L'\<close>, and state \<open>s'\<close>.
\<close>

inductive steps :: "('v, 's) Model \<Rightarrow> 'v heap \<Rightarrow> nat list \<Rightarrow> 's \<Rightarrow> int list \<Rightarrow> nat list \<Rightarrow> 's \<Rightarrow> bool" for M h where
  steps_Nil: "steps M h L s [] L s"
| steps_Cons: "L = us @ e # vs \<Longrightarrow> \<forall>u\<in>set us. nmatch (h ! u) \<noteq> None \<Longrightarrow> nmatch (h ! e) = Some r \<Longrightarrow>
     Step M s (nvalue (h ! e)) (nvalue (h ! r)) = Inr (True, s1) \<Longrightarrow>
     steps M h (without h (nid (h ! e)) L) s1 p L' s' \<Longrightarrow> steps M h L s (nid (h ! e) # p) L' s'"

lemma steps_append: "steps M h L s p L1 s1 \<Longrightarrow> steps M h L1 s1 q L2 s2 \<Longrightarrow> steps M h L s (p @ q) L2 s2"
  by (induction rule: steps.induct) (auto intro: steps_Cons)

lemma steps_one:
  "L = us @ e # vs \<Longrightarrow> \<forall>u\<in>set us. nmatch (h ! u) \<noteq> None \<Longrightarrow> nmatch (h ! e) = Some r \<Longrightarrow>
   Step M s (nvalue (h ! e)) (nvalue (h ! r)) = Inr (True, s1) \<Longrightarrow>
   steps M h L s [nid (h ! e)] (without h (nid (h ! e)) L) s1"
  by (rule steps_Cons) (auto intro: steps_Nil)

lemma lin_steps: "lin M h L s p \<Longrightarrow> \<exists>s'. steps M h L s p [] s'"
  by (induction rule: lin.induct) (auto intro: steps_Nil steps_Cons)

lemma steps_lin: "steps M h L s p L' s' \<Longrightarrow> L' = [] \<Longrightarrow> lin M h L s p"
  by (induction rule: steps.induct) (auto intro: lin_Nil lin_Cons)

lemma lin_iff_steps: "lin M h L s p \<longleftrightarrow> (\<exists>s'. steps M h L s p [] s')"
  by (metis lin_steps steps_lin)

lemma steps_partial:
  assumes "steps M h L s p L' s'" and "wf_nodes N h L"
  shows "distinct p \<and> set p \<subseteq> (\<lambda>a. nid (h ! a)) ` set L \<and> sorted_wrt (\<lambda>i j. \<not> node_prec h L j i) p
         \<and> (\<forall>i\<in>set p. \<forall>j. node_prec h L j i \<longrightarrow> j \<in> set p) \<and> node_legal M h L s p"
  using assms
proof (induction rule: steps.induct)
  case (steps_Nil L s)
  show ?case by simp
next
  case (steps_Cons L us e vs r s s1 p L' s')
  let ?i = "nid (h ! e)" and ?W = "without h (nid (h ! e)) L"
  from steps_Cons.IH [OF wf_nodes_without [OF steps_Cons.prems]]
  have IH: "distinct p" "set p \<subseteq> (\<lambda>a. nid (h ! a)) ` set L - {?i}" "sorted_wrt (\<lambda>i j. \<not> node_prec h ?W j i) p"
      "\<forall>i\<in>set p. \<forall>j. node_prec h ?W j i \<longrightarrow> j \<in> set p" "node_legal M h ?W s1 p" by (simp_all add: ids_without)
  then have ip: "?i \<notin> set p" by blast
  have first: "\<not> node_prec h L j ?i" for j
    using candidate_not_preceded [OF steps_Cons.prems steps_Cons.hyps(1)] steps_Cons.hyps(2,3) by simp
  have srt: "sorted_wrt (\<lambda>i j. \<not> node_prec h L j i) p"
    using IH(3) by (rule sorted_wrt_mono_rel [rotated]) (use ip node_prec_without in metis)
  have closed: "j \<in> set (?i # p)" if "i \<in> set p" "node_prec h L j i" for i j
    using IH(4) that node_prec_without [of j ?i i h L] ip by (cases "j = ?i") auto
  have "e \<in> set L" using steps_Cons.hyps(1) by simp
  moreover have "node_legal M h L s1 p" using IH(5) unfolding node_legal_without [OF ip] .
  ultimately have "node_legal M h L s (?i # p)" using steps_Cons.hyps(3,4) by auto
  then show ?case using IH(1,2) ip first srt closed \<open>e \<in> set L\<close> by auto
qed

text \<open>
  The contract of \<open>Model.Equal\<close>: states it identifies accept the same steps and lead to states it
  identifies again.  Then they have the same linearizations, which is what makes a cache hit sound.
\<close>

locale state_equality =
  fixes step :: "'s \<Rightarrow> 'v iface \<Rightarrow> 'v iface \<Rightarrow> (bool \<times> 's) res"
    and eq :: "'s \<Rightarrow> 's \<Rightarrow> bool"
  assumes eq_step: "eq s t \<Longrightarrow> step s i out = Inr (True, s') \<Longrightarrow> \<exists>t'. step t i out = Inr (True, t') \<and> eq s' t'"
begin

lemma lin_transfer:
  assumes "lin M h L s p" and "Step M = step" and "eq s t"
  shows "lin M h L t p"
  using assms
proof (induction arbitrary: t rule: lin.induct)
  case (lin_Nil s)
  show ?case by (rule lin.lin_Nil)
next
  case (lin_Cons L us e vs r s s' p)
  from lin_Cons obtain t' where "Step M t (nvalue (h ! e)) (nvalue (h ! r)) = Inr (True, t')" and "eq s' t'"
    using eq_step by metis
  then show ?case using lin_Cons lin.lin_Cons by metis
qed

lemma legal_transfer:
  assumes "legal M s ops" and "Step M = step" and "eq s t"
  shows "legal M t ops"
  using assms
proof (induction ops arbitrary: s t)
  case Nil
  then show ?case by simp
next
  case (Cons io ops)
  obtain i out where io: "io = (i, out)" by (cases io)
  from Cons.prems(1) io obtain s' where s': "Step M s i out = Inr (True, s')" "legal M s' ops"
    by (auto split: sum.splits prod.splits bool.splits)
  with Cons.prems obtain t' where "Step M t i out = Inr (True, t')" and "eq s' t'"
    using eq_step by metis
  with Cons.IH [OF s'(2) Cons.prems(2)] io show ?case by simp
qed

end

interpretation shallow: state_equality "Step M" ShallowEqual for M :: "('v, 's) Model"
  by unfold_locales (auto simp: ShallowEqual_def)

end
