(* ===== verification/Linking.thy ===== *)
theory Linking
  imports Search
begin

text \<open>
  The node list that \<open>makeLinkedEntries\<close> builds for a well-formed history, and the agreement of the
  two views of linearizability: over the entries of a history (\<open>is_linearization\<close>) and over the nodes
  the checker works on (\<open>node_linearization\<close>).  The node of entry \<open>k\<close> has address \<open>adr es k\<close>, because
  the entries are allocated from the last to the first.
\<close>

section \<open>Addresses\<close>

definition adr :: "'v entry list \<Rightarrow> nat \<Rightarrow> nat" where
  "adr es k = length es - 1 - k"

abbreviation entry_nodes :: "'v entry list \<Rightarrow> nat list" where
  "entry_nodes es \<equiv> rev [0..<length es]"

lemma adr_less: "k < length es \<Longrightarrow> adr es k < length es"
  by (auto simp: adr_def)

lemma adr_adr [simp]: "k < length es \<Longrightarrow> adr es (adr es k) = k"
  by (auto simp: adr_def)

lemma adr_inject: "j < length es \<Longrightarrow> k < length es \<Longrightarrow> adr es j = adr es k \<longleftrightarrow> j = k"
  by (metis adr_adr)

lemma adr_less_iff: "j < length es \<Longrightarrow> k < length es \<Longrightarrow> adr es j < adr es k \<longleftrightarrow> k < j"
  by (auto simp: adr_def)

lemma adr_cases:
  assumes "a < length es"
  obtains k where "k < length es" and "a = adr es k"
  using assms adr_adr adr_less by metis

lemma entry_nodes_iff: "a \<in> set (entry_nodes es) \<longleftrightarrow> (\<exists>k<length es. a = adr es k)"
  using adr_less adr_cases by (metis atLeastLessThan_iff le0 set_rev set_upt)

lemma subseq_rev_upt: "subseq [r, c] (rev [0..<m]) \<longleftrightarrow> c < r \<and> r < m"
proof (induction m)
  case 0
  show ?case by simp
next
  case (Suc m)
  have "subseq [c] (rev [0..<m]) \<longleftrightarrow> c < m" by (simp add: subseq_singleton_left)
  with Suc.IH show ?case by (auto simp: subseq_Cons2_iff)
qed

lemma rev_upt_split:
  assumes "r < a" and "a < m"
  shows "\<exists>us vs ws. rev [0..<m] = us @ a # vs @ r # ws"
proof -
  have "[0..<m] = [0..<a] @ a # [Suc a..<m]"
    using assms upt_add_eq_append [of 0 a "m - a"] by (simp add: upt_conv_Cons)
  also have "[0..<a] = [0..<r] @ r # [Suc r..<a]"
    using assms upt_add_eq_append [of 0 r "a - r"] by (simp add: upt_conv_Cons)
  finally have "[0..<m] = [0..<r] @ r # [Suc r..<a] @ a # [Suc a..<m]" by simp
  then have "rev [0..<m] = rev [Suc a..<m] @ a # rev [Suc r..<a] @ r # rev [0..<r]" by simp
  then show ?thesis by blast
qed

section \<open>Nodes that represent entries\<close>

definition represents :: "'v entry list \<Rightarrow> 'v heap \<Rightarrow> bool" where
  "represents es h \<longleftrightarrow> length es \<le> length h \<and>
     (\<forall>k<length es. nvalue (h ! adr es k) = evalue (es ! k) \<and> nid (h ! adr es k) = eid (es ! k)) \<and>
     (\<forall>k<length es. ekind (es ! k) = returnEntry \<longrightarrow> nmatch (h ! adr es k) = None) \<and>
     (\<forall>k<length es. \<forall>j<length es. ekind (es ! k) = callEntry \<longrightarrow> ekind (es ! j) = returnEntry \<longrightarrow>
        eid (es ! j) = eid (es ! k) \<longrightarrow> nmatch (h ! adr es k) = Some (adr es j))"

lemma represents_payload:
  assumes "represents es h" and "k < length es"
  shows "nvalue (h ! adr es k) = evalue (es ! k)" "nid (h ! adr es k) = eid (es ! k)"
  using assms by (simp_all add: represents_def)

lemma represents_return: "represents es h \<Longrightarrow> k < length es \<Longrightarrow> ekind (es ! k) = returnEntry \<Longrightarrow>
    nmatch (h ! adr es k) = None"
  by (simp add: represents_def)

lemma represents_call: "represents es h \<Longrightarrow> k < length es \<Longrightarrow> j < length es \<Longrightarrow> ekind (es ! k) = callEntry \<Longrightarrow>
    ekind (es ! j) = returnEntry \<Longrightarrow> eid (es ! j) = eid (es ! k) \<Longrightarrow> nmatch (h ! adr es k) = Some (adr es j)"
  by (simp add: represents_def)

lemma wf_call_return:
  assumes "wf_entries es" and "k < length es" and "ekind (es ! k) = callEntry"
  obtains j where "k < j" and "j < length es" and "ekind (es ! j) = returnEntry" and "eid (es ! j) = eid (es ! k)"
proof -
  from wf_entries_eid [OF assms(1,2)] obtain c r where "positions callEntry (eid (es ! k)) es = [c]"
      "positions returnEntry (eid (es ! k)) es = [r]" "c < r"
    using wf_entriesE [OF assms(1)] by metis
  then show ?thesis using that [of r] positions_single assms(2,3) by metis
qed

lemma wf_return_call:
  assumes "wf_entries es" and "k < length es" and "ekind (es ! k) = returnEntry"
  obtains j where "j < k" and "j < length es" and "ekind (es ! j) = callEntry" and "eid (es ! j) = eid (es ! k)"
proof -
  from wf_entries_eid [OF assms(1,2)] obtain c r where "positions callEntry (eid (es ! k)) es = [c]"
      "positions returnEntry (eid (es ! k)) es = [r]" "c < r"
    using wf_entriesE [OF assms(1)] by metis
  then show ?thesis using that [of c] positions_single assms(2,3) by metis
qed

lemma represents_match:
  assumes "wf_entries es" and "represents es h" and "k < length es"
  shows "nmatch (h ! adr es k) = None \<longleftrightarrow> ekind (es ! k) = returnEntry"
proof (cases "ekind (es ! k)")
  case callEntry
  then show ?thesis
    using wf_call_return [OF assms(1,3)] represents_call [OF assms(2,3)] by (metis entryKind.distinct(1) option.distinct(1))
next
  case returnEntry
  then show ?thesis using represents_return [OF assms(2,3)] by simp
qed

lemma wf_nodes_represents:
  assumes wf: "wf_entries es" and rep: "represents es h"
  shows "wf_nodes (n_ops es) h (entry_nodes es)"
  unfolding wf_nodes_defs
proof (intro conjI ballI allI impI)
  show "distinct (entry_nodes es)" by simp
  fix a assume a: "a \<in> set (entry_nodes es)"
  then obtain k where k: "k < length es" "a = adr es k" unfolding entry_nodes_iff by blast
  show "a < length h" using a rep by (auto simp: represents_def)
  show "0 \<le> nid (h ! a)" "nid (h ! a) < n_ops es"
    using wf_entries_eid [OF wf k(1)] represents_payload [OF rep k(1)] k(2) by auto
  show "\<exists>b\<in>set (entry_nodes es). nmatch (h ! b) = Some a" if "nmatch (h ! a) = None"
  proof -
    from that have "ekind (es ! k) = returnEntry" using represents_match [OF wf rep k(1)] k(2) by simp
    with wf_return_call [OF wf k(1)] obtain j where
      j: "j < length es" "ekind (es ! j) = callEntry" "eid (es ! j) = eid (es ! k)" by metis
    then have "nmatch (h ! adr es j) = Some a"
      using represents_call [OF rep j(1) k(1)] \<open>ekind (es ! k) = returnEntry\<close> k(2) by simp
    moreover have "adr es j \<in> set (entry_nodes es)" using adr_less [OF j(1)] by simp
    ultimately show ?thesis by blast
  qed
  show "a = b" if b: "b \<in> set (entry_nodes es)" "nid (h ! a) = nid (h ! b)"
    "(nmatch (h ! a) = None) = (nmatch (h ! b) = None)" for b
  proof -
    from b(1) obtain l where l: "l < length es" "b = adr es l" unfolding entry_nodes_iff by blast
    have "ekind (es ! k) = ekind (es ! l)"
      using b(3) represents_match [OF wf rep k(1)] represents_match [OF wf rep l(1)] k(2) l(2)
      by (cases "ekind (es ! k)"; cases "ekind (es ! l)") simp_all
    moreover have "eid (es ! k) = eid (es ! l)"
      using b(2) represents_payload [OF rep k(1)] represents_payload [OF rep l(1)] k(2) l(2) by simp
    ultimately show ?thesis using wf_entries_unique [OF wf k(1) l(1)] k(2) l(2) by simp
  qed
  show "nmatch (h ! r) = None" "nid (h ! r) = nid (h ! a)" "\<exists>us vs ws. entry_nodes es = us @ a # vs @ r # ws"
    if m: "nmatch (h ! a) = Some r" for r
  proof -
    from m have "ekind (es ! k) = callEntry"
      using represents_match [OF wf rep k(1)] k(2) by (cases "ekind (es ! k)") simp_all
    with wf_call_return [OF wf k(1)] obtain j where
      j: "k < j" "j < length es" "ekind (es ! j) = returnEntry" "eid (es ! j) = eid (es ! k)" by metis
    have r: "r = adr es j"
      using represents_call [OF rep k(1) j(2)] j \<open>ekind (es ! k) = callEntry\<close> m k(2) by simp
    show "nmatch (h ! r) = None" using represents_return [OF rep j(2,3)] r by simp
    show "nid (h ! r) = nid (h ! a)"
      using represents_payload [OF rep k(1)] represents_payload [OF rep j(2)] j(4) r k(2) by simp
    show "\<exists>us vs ws. entry_nodes es = us @ a # vs @ r # ws"
      using rev_upt_split [of r a "length es"] r k j adr_less_iff adr_less by metis
  qed
qed

section \<open>The list built by makeLinkedEntries\<close>

lemma makeLinkedEntries_wf:
  assumes wf: "wf_entries es"
  shows "\<exists>h. makeLinkedEntries es = Inr (h, hdp (entry_nodes es)) \<and> length h = length es
             \<and> links h None (entry_nodes es) \<and> represents es h"
proof -
  from link_loop_result [of "[]" "\<lambda>_. None" "rev es"] obtain h where
    run: "link_loop [] None (\<lambda>_. None) (rev es) = Inr (h, hdp (all_nodes h))"
    and len: "length h = length es" and L: "links h None (all_nodes h)"
    and pay: "\<forall>k<length es. payload_of (rev es ! k) (match_ptrs 0 (\<lambda>_. None) (rev es) ! k) (h ! k)"
    by auto
  have pay': "payload_of (es ! k) (match_ptrs 0 (\<lambda>_. None) (rev es) ! adr es k) (h ! adr es k)"
    if "k < length es" for k
    using pay adr_less [OF that] that by (metis adr_adr adr_def diff_Suc_eq_diff_pred rev_nth)
  have at: "rev es ! adr es k = es ! k" if "k < length es" for k
    using that adr_less [OF that] by (metis adr_adr adr_def diff_Suc_eq_diff_pred rev_nth)
  have ret: "nmatch (h ! adr es k) = None" if k: "k < length es" and "ekind (es ! k) = returnEntry" for k
  proof -
    have "match_ptrs n mat xs ! i = None" if "i < length xs" "ekind (xs ! i) = returnEntry"
      for n mat and xs :: "'a entry list" and i
      using that by (induction xs arbitrary: n mat i) (auto simp: nth_Cons split: nat.splits)
    from this [of "adr es k" "rev es"] show ?thesis
      using that pay' [OF k] adr_less [OF k] at [OF k] by (simp add: payload_of_def)
  qed
  have call: "nmatch (h ! adr es k) = Some (adr es j)" if k: "k < length es" and j: "j < length es"
    and kind: "ekind (es ! k) = callEntry" "ekind (es ! j) = returnEntry" and id: "eid (es ! j) = eid (es ! k)" for k j
  proof -
    obtain j' where j': "k < j'" "j' < length es" "ekind (es ! j') = returnEntry" "eid (es ! j') = eid (es ! k)"
      using wf_call_return [OF wf k kind(1)] by metis
    then have "j' = j" using wf_entries_unique [OF wf j'(2) j] kind id by simp
    have "match_ptrs 0 (\<lambda>_. None) (rev es) ! adr es k = Some (0 + adr es j)"
    proof (rule match_ptrs_found)
      show "adr es k < length (rev es)" using adr_less [OF k] by simp
      show "ekind (rev es ! adr es k) = callEntry" using at [OF k] kind by simp
      show "adr es j < adr es k" using j' \<open>j' = j\<close> adr_less_iff [OF j k] by simp
      show "ekind (rev es ! adr es j) = returnEntry" using at [OF j] kind by simp
      show "eid (rev es ! adr es j) = eid (rev es ! adr es k)" using at [OF j] at [OF k] id by simp
      show "i = adr es j" if "i < adr es k" "ekind (rev es ! i) = returnEntry" "eid (rev es ! i) = eid (rev es ! adr es k)" for i
      proof -
        have "i < length es" using that(1) adr_less [OF k] by simp
        then obtain l where l: "l < length es" "i = adr es l" by (rule adr_cases)
        then have "l = j" using wf_entries_unique [OF wf l(1) j] that at [OF l(1)] at [OF k] kind id by simp
        with l show ?thesis by simp
      qed
    qed
    with pay' [OF k] show ?thesis by (simp add: payload_of_def)
  qed
  have "represents es h"
    unfolding represents_def using len pay' ret call by (simp add: payload_of_def)
  with run len L show ?thesis by (auto simp: makeLinkedEntries_def)
qed

section \<open>Agreement of the two notions of linearization\<close>

lemma node_prec_precedes:
  assumes wf: "wf_entries es" and rep: "represents es h"
  shows "node_prec h (entry_nodes es) i j \<longleftrightarrow> precedes es i j"
proof
  assume "node_prec h (entry_nodes es) i j"
  then obtain r c where rc: "c < r" "r < length es" "nmatch (h ! r) = None" "nid (h ! r) = i"
      "nmatch (h ! c) \<noteq> None" "nid (h ! c) = j"
    unfolding node_prec_def subseq_rev_upt by blast
  from rc(2) obtain x where x: "x < length es" "r = adr es x" by (rule adr_cases)
  have "c < length es" using rc(1,2) by simp
  then obtain y where y: "y < length es" "c = adr es y" by (rule adr_cases)
  have "x < y" using rc(1) x y adr_less_iff [OF y(1) x(1)] by simp
  moreover have "ekind (es ! x) = returnEntry" using rc(3) represents_match [OF wf rep x(1)] x(2) by simp
  moreover have "ekind (es ! y) = callEntry"
    using rc(5) represents_match [OF wf rep y(1)] y(2) by (cases "ekind (es ! y)") simp_all
  moreover have "eid (es ! x) = i" "eid (es ! y) = j"
    using rc(4,6) represents_payload [OF rep x(1)] represents_payload [OF rep y(1)] x(2) y(2) by simp_all
  ultimately show "precedes es i j" unfolding precedes_def using y(1) by blast
next
  assume "precedes es i j"
  then obtain x y where xy: "x < y" "y < length es" "ekind (es ! x) = returnEntry" "eid (es ! x) = i"
      "ekind (es ! y) = callEntry" "eid (es ! y) = j"
    by (auto simp: precedes_def)
  then have x: "x < length es" by simp
  have "adr es y < adr es x" using xy(1,2) adr_less_iff [OF xy(2) x] by simp
  moreover have "adr es x < length es" using adr_less [OF x] .
  moreover have "nmatch (h ! adr es x) = None" "nid (h ! adr es x) = i" "nmatch (h ! adr es y) \<noteq> None"
    "nid (h ! adr es y) = j"
    using represents_match [OF wf rep x] represents_match [OF wf rep xy(2)] xy
      represents_payload [OF rep x] represents_payload [OF rep xy(2)] by simp_all
  ultimately show "node_prec h (entry_nodes es) i j"
    unfolding node_prec_def subseq_rev_upt by blast
qed

lemma op_call_return:
  assumes wf: "wf_entries es" and rep: "represents es h" and i: "0 \<le> i" "i < n_ops es"
  obtains c r where "c < length es" "r < length es" "nid (h ! adr es c) = i"
    "nmatch (h ! adr es c) = Some (adr es r)"
    "op_io es i = (nvalue (h ! adr es c), nvalue (h ! adr es r))"
    "\<And>a. a \<in> set (entry_nodes es) \<Longrightarrow> nid (h ! a) = i \<Longrightarrow> nmatch (h ! a) \<noteq> None \<Longrightarrow> a = adr es c"
proof -
  from wf_entriesE [OF wf i] obtain c r where cr: "positions callEntry i es = [c]"
      "positions returnEntry i es = [r]" "c < r" by metis
  note c = positions_single(1-3) [OF cr(1)] and r = positions_single(1-3) [OF cr(2)]
  have mat: "nmatch (h ! adr es c) = Some (adr es r)" using represents_call [OF rep c(1) r(1)] c r by simp
  have io: "op_io es i = (nvalue (h ! adr es c), nvalue (h ! adr es r))"
    using cr represents_payload [OF rep c(1)] represents_payload [OF rep r(1)]
    by (simp add: op_io_def value_at_def)
  have "a = adr es c" if "a \<in> set (entry_nodes es)" "nid (h ! a) = i" "nmatch (h ! a) \<noteq> None" for a
    using wf_nodes_unique [OF wf_nodes_represents [OF wf rep] that(1), of "adr es c"] that mat
      adr_less [OF c(1)] represents_payload [OF rep c(1)] c(3) by simp
  with that [of c r] c r mat io represents_payload [OF rep c(1)] show ?thesis by simp
qed

lemma node_legal_legal:
  assumes wf: "wf_entries es" and rep: "represents es h" and p: "set p \<subseteq> {0..<n_ops es}"
  shows "node_legal M h (entry_nodes es) s p \<longleftrightarrow> legal M s (map (op_io es) p)"
  using p
proof (induction p arbitrary: s)
  case Nil
  show ?case by simp
next
  case (Cons i p)
  then have i: "0 \<le> i" "i < n_ops es" by auto
  obtain c r where c: "c < length es" "nid (h ! adr es c) = i" "nmatch (h ! adr es c) = Some (adr es r)"
    and io: "op_io es i = (nvalue (h ! adr es c), nvalue (h ! adr es r))"
    and uniq: "\<And>a. a \<in> set (entry_nodes es) \<Longrightarrow> nid (h ! a) = i \<Longrightarrow> nmatch (h ! a) \<noteq> None \<Longrightarrow> a = adr es c"
    using op_call_return [OF wf rep i] by metis
  have "node_legal M h (entry_nodes es) s (i # p) \<longleftrightarrow>
      (\<exists>s'. Step M s (nvalue (h ! adr es c)) (nvalue (h ! adr es r)) = Inr (True, s')
            \<and> node_legal M h (entry_nodes es) s' p)" (is "?l \<longleftrightarrow> ?r")
  proof
    assume ?l
    then obtain e r' s' where "e \<in> set (entry_nodes es)" "nid (h ! e) = i" "nmatch (h ! e) = Some r'"
      "Step M s (nvalue (h ! e)) (nvalue (h ! r')) = Inr (True, s')" "node_legal M h (entry_nodes es) s' p"
      unfolding node_legal.simps by blast
    moreover from this have "e = adr es c" by (intro uniq) simp_all
    ultimately show ?r using c(3) by auto
  next
    assume ?r
    moreover have "adr es c \<in> set (entry_nodes es)" using adr_less [OF c(1)] by simp
    ultimately show ?l using c(2,3) unfolding node_legal.simps by blast
  qed
  also have "\<dots> \<longleftrightarrow> legal M s (map (op_io es) (i # p))"
    using Cons by (auto simp: io split: sum.splits bool.splits prod.splits)
  finally show ?case .
qed

lemma ids_of_entry_nodes:
  assumes wf: "wf_entries es" and rep: "represents es h"
  shows "(\<lambda>a. nid (h ! a)) ` set (entry_nodes es) = {0..<n_ops es}"
proof
  show "(\<lambda>a. nid (h ! a)) ` set (entry_nodes es) \<subseteq> {0..<n_ops es}"
    using wf_nodes_bound [OF wf_nodes_represents [OF wf rep]] by auto
  show "{0..<n_ops es} \<subseteq> (\<lambda>a. nid (h ! a)) ` set (entry_nodes es)"
  proof
    fix i assume "i \<in> {0..<n_ops es}"
    then have i: "0 \<le> i" "i < n_ops es" by auto
    obtain c where "c < length es" "nid (h ! adr es c) = i" using op_call_return [OF wf rep i] by metis
    then show "i \<in> (\<lambda>a. nid (h ! a)) ` set (entry_nodes es)"
      using adr_less [of c es] by (auto intro: image_eqI [of _ _ "adr es c"])
  qed
qed

theorem lin_iff_linearization:
  assumes wf: "wf_entries es" and rep: "represents es h"
  shows "lin M h (entry_nodes es) (Init M) p \<longleftrightarrow> is_linearization M es p"
proof -
  have "sorted_wrt (\<lambda>i j. \<not> precedes es j i) p \<longleftrightarrow> rt_respects es p"
    by (auto simp: rt_respects_def sorted_wrt_iff_nth_less)
  then show ?thesis
    unfolding lin_iff_node_linearization [OF wf_nodes_represents [OF wf rep]] node_linearization_def
      is_linearization_def ids_of_entry_nodes [OF wf rep] node_prec_precedes [OF wf rep]
    using node_legal_legal [OF wf rep, of p M "Init M"] by blast
qed


lemma steps_partial_linearization:
  assumes wf: "wf_entries es" and rep: "represents es h" and st: "steps M h (entry_nodes es) (Init M) p L' s'"
  shows "is_partial_linearization M es p"
proof -
  from steps_partial [OF st wf_nodes_represents [OF wf rep]]
  have p: "distinct p" "set p \<subseteq> {0..<n_ops es}" "sorted_wrt (\<lambda>i j. \<not> precedes es j i) p"
    "\<forall>i\<in>set p. \<forall>j. precedes es j i \<longrightarrow> j \<in> set p" "node_legal M h (entry_nodes es) (Init M) p"
    unfolding ids_of_entry_nodes [OF wf rep] node_prec_precedes [OF wf rep] by blast+
  moreover have "rt_respects es p" using p(3) by (auto simp: rt_respects_def sorted_wrt_iff_nth_less)
  moreover have "legal M (Init M) (map (op_io es) p)"
    using p(5) unfolding node_legal_legal [OF wf rep p(2)] .
  ultimately show ?thesis by (simp add: is_partial_linearization_def)
qed

end
