(* ===== verification/Checker.thy ===== *)
theory Checker
  imports Bitset Linking
begin

text \<open>
  \<open>checkSingle\<close> of \<^verbatim>\<open>porcupine/checker.go\<close>: the search for a linearization of one (partition of a)
  history, with its cache of visited (linearized set, state) pairs, its stack of calls and the
  optional record of the longest partial linearizations.

  The loop is \<open>checkLoop\<close>; \<open>checkBody\<close> is one iteration.  The flag \<open>kill\<close> is written by other
  goroutines while the loop runs: it is a function that gives the value loaded in each iteration.
  The entries of \<open>longest\<close> are pointers to slices shared between operations (the visualization later
  tells them apart by address), so the sequences live in the store \<open>s_seqs\<close> and \<open>s_longest\<close> holds
  indices into it.
\<close>

section \<open>Definitions\<close>

record 's cacheEntry =
  linearized :: bitset
  cstate :: 's

type_synonym 's cache = "64 word \<Rightarrow> 's cacheEntry list"

definition call_Equal :: "('v, 's) Model \<Rightarrow> 's \<Rightarrow> 's \<Rightarrow> bool res" where
  "call_Equal M s t = (case Equal M of None \<Rightarrow> Inl NilDeref | Some f \<Rightarrow> Inr (f s t))"

fun contains_loop :: "('v, 's) Model \<Rightarrow> 's cacheEntry \<Rightarrow> 's cacheEntry list \<Rightarrow> bool res" where
  "contains_loop M ent [] = Inr False"
| "contains_loop M ent (elem # rest) =
     (if bs_equals (linearized ent) (linearized elem)
      then rbind (call_Equal M (cstate ent) (cstate elem))
             (\<lambda>eq. if eq then Inr True else contains_loop M ent rest)
      else contains_loop M ent rest)"

definition cacheContains :: "('v, 's) Model \<Rightarrow> 's cache \<Rightarrow> 's cacheEntry \<Rightarrow> bool res" where
  "cacheContains M cache ent = contains_loop M ent (cache (bs_hash (linearized ent)))"

record 's callsEntry =
  centry :: ptr
  cestate :: 's

record ('v, 's) search =
  s_heap :: "'v heap"
  s_entry :: ptr
  s_state :: 's
  s_linearized :: bitset
  s_cache :: "'s cache"
  s_calls :: "'s callsEntry list"
  s_longest :: "nat option list"
  s_seqs :: "int list list"

text \<open>The branch for a call entry (\<open>entry.match != nil\<close>); \<open>e\<close> is the node of the current entry.\<close>

definition tryCall :: "('v, 's) Model \<Rightarrow> ptr \<Rightarrow> 'v node \<Rightarrow> ('v, 's) search \<Rightarrow> ('v, 's) search res" where
  "tryCall M headEntry e s =
     rbind (deref (s_heap s) (nmatch e)) (\<lambda>matching.
     rbind (Step M (s_state s) (nvalue e) (nvalue matching)) (\<lambda>(ok, newState).
     if ok then
       rbind (bs_set (clone (s_linearized s)) (to_uint (nid e))) (\<lambda>newLinearized.
       let newCacheEntry = \<lparr>linearized = newLinearized, cstate = newState\<rparr> in
       rbind (cacheContains M (s_cache s) newCacheEntry) (\<lambda>hit.
       if \<not> hit then
         (let hash = bs_hash newLinearized;
              cache = (s_cache s)(hash := s_cache s hash @ [newCacheEntry]);
              calls = s_calls s @ [\<lparr>centry = s_entry s, cestate = s_state s\<rparr>]
          in rbind (bs_set (s_linearized s) (to_uint (nid e))) (\<lambda>linearized'.
             rbind (lift (s_heap s) (s_entry s)) (\<lambda>h.
             rbind (deref h headEntry) (\<lambda>hdn.
             Inr (s\<lparr>s_heap := h, s_entry := nnext hdn, s_state := newState,
                    s_linearized := linearized', s_cache := cache, s_calls := calls\<rparr>)))))
       else Inr (s\<lparr>s_entry := nnext e\<rparr>)))
     else Inr (s\<lparr>s_entry := nnext e\<rparr>)))"

fun call_ids :: "'v heap \<Rightarrow> 's callsEntry list \<Rightarrow> int list res" where
  "call_ids h [] = Inr []"
| "call_ids h (v # vs) =
     rbind (deref h (centry v)) (\<lambda>nd. rbind (call_ids h vs) (\<lambda>ids. Inr (nid nd # ids)))"

text \<open>
  The loop under \<open>computePartial\<close>; \<open>seq\<close> is the lazily created sequence of this iteration, as an
  index into the store, and \<open>*longest[id]\<close> reads the store.
\<close>

fun longest_loop :: "'v heap \<Rightarrow> 's callsEntry list \<Rightarrow> nat option \<Rightarrow> nat option list \<Rightarrow> int list list
    \<Rightarrow> 's callsEntry list \<Rightarrow> (nat option list \<times> int list list) res" where
  "longest_loop h calls seq longest seqs [] = Inr (longest, seqs)"
| "longest_loop h calls seq longest seqs (v # vs) =
     rbind (deref h (centry v)) (\<lambda>nd.
     rbind (slice_get longest (nid nd)) (\<lambda>old.
     if old = None \<or> length calls > length (seqs ! the old) then
       rbind (if seq = None then rbind (call_ids h calls) (\<lambda>ids. Inr (Some (length seqs), seqs @ [ids]))
              else Inr (seq, seqs)) (\<lambda>(seq', seqs').
       rbind (slice_set longest (nid nd) seq') (\<lambda>longest'.
       longest_loop h calls seq' longest' seqs' vs))
     else longest_loop h calls seq longest seqs vs))"

definition recordLongest :: "bool \<Rightarrow> ('v, 's) search \<Rightarrow> ('v, 's) search res" where
  "recordLongest computePartial s =
     (if computePartial then
        rbind (longest_loop (s_heap s) (s_calls s) None (s_longest s) (s_seqs s) (s_calls s))
          (\<lambda>(longest, seqs). Inr (s\<lparr>s_longest := longest, s_seqs := seqs\<rparr>))
      else Inr s)"

text \<open>The branch for a return entry when the stack is not empty: undo the last call.\<close>

definition undoCall :: "bool \<Rightarrow> ('v, 's) search \<Rightarrow> ('v, 's) search res" where
  "undoCall computePartial s0 =
     rbind (recordLongest computePartial s0) (\<lambda>s.
     rbind (slice_get (s_calls s) (int (length (s_calls s)) - 1)) (\<lambda>callsTop.
     let ent = centry callsTop in
     rbind (deref (s_heap s) ent) (\<lambda>e.
     rbind (bs_clear (s_linearized s) (to_uint (nid e))) (\<lambda>linearized'.
     let calls = take (length (s_calls s) - 1) (s_calls s) in
     rbind (unlift (s_heap s) ent) (\<lambda>h.
     rbind (deref h ent) (\<lambda>e'.
     Inr (s\<lparr>s_heap := h, s_entry := nnext e', s_state := cestate callsTop,
            s_linearized := linearized', s_calls := calls\<rparr>)))))))"

text \<open>One iteration: \<open>Inr None\<close> is \<open>return false, longest\<close>.\<close>

definition checkBody :: "('v, 's) Model \<Rightarrow> bool \<Rightarrow> ptr \<Rightarrow> ('v, 's) search \<Rightarrow> ('v, 's) search option res" where
  "checkBody M computePartial headEntry s =
     rbind (deref (s_heap s) (s_entry s)) (\<lambda>e.
     if nmatch e \<noteq> None then rbind (tryCall M headEntry e s) (\<lambda>s'. Inr (Some s'))
     else if length (s_calls s) = 0 then Inr None
     else rbind (undoCall computePartial s) (\<lambda>s'. Inr (Some s')))"

type_synonym single_result = "bool \<times> nat option list \<times> int list list"

text \<open>After the loop: the complete linearization is the longest one for every operation.\<close>

definition checkDone :: "('v, 's) search \<Rightarrow> single_result res" where
  "checkDone s =
     rbind (call_ids (s_heap s) (s_calls s)) (\<lambda>seq.
     Inr (True, map (\<lambda>_. Some (length (s_seqs s))) (s_longest s), s_seqs s @ [seq]))"

partial_function (option) checkLoop :: "('v, 's) Model \<Rightarrow> bool \<Rightarrow> (nat \<Rightarrow> int) \<Rightarrow> ptr \<Rightarrow> nat \<Rightarrow>
    ('v, 's) search \<Rightarrow> single_result res option" where
  "checkLoop M computePartial kill headEntry i s =
     (case deref (s_heap s) headEntry of
        Inl f \<Rightarrow> Some (Inl f)
      | Inr hdn \<Rightarrow>
          if nnext hdn = None then Some (checkDone s)
          else if kill i \<noteq> 0 then Some (Inr (False, s_longest s, s_seqs s))
          else (case checkBody M computePartial headEntry s of
                  Inl f \<Rightarrow> Some (Inl f)
                | Inr None \<Rightarrow> Some (Inr (False, s_longest s, s_seqs s))
                | Inr (Some s') \<Rightarrow> checkLoop M computePartial kill headEntry (Suc i) s'))"

declare checkLoop.simps [code]

definition checkSingle :: "('v, 's) Model \<Rightarrow> 'v entry list \<Rightarrow> bool \<Rightarrow> (nat \<Rightarrow> int) \<Rightarrow> single_result res option" where
  "checkSingle M history computePartial kill =
     (case makeLinkedEntries history of
        Inl f \<Rightarrow> Some (Inl f)
      | Inr (h, ent) \<Rightarrow>
          (case node_length h ent 0 of
             None \<Rightarrow> None
           | Some (Inl f) \<Rightarrow> Some (Inl f)
           | Some (Inr len) \<Rightarrow>
               (let n = len div 2;
                    (h1, hdn) = new_node h None None (-1)
                in case insertBefore h1 hdn ent of
                     Inl f \<Rightarrow> Some (Inl f)
                   | Inr (h2, headEntry) \<Rightarrow>
                       checkLoop M computePartial kill headEntry 0
                         \<lparr>s_heap = h2, s_entry = ent, s_state = Init M,
                          s_linearized = newBitset (to_uint n), s_cache = (\<lambda>_. []), s_calls = [],
                          s_longest = replicate (nat n) None, s_seqs = []\<rparr>)))"

end
