(* ===== verification/CheckerCorrect.thy ===== *)
theory CheckerCorrect
  imports Checker
begin

text \<open>
  Correctness of \<open>checkSingle\<close>: on a well-formed history the loop ends, never panics and returns
  exactly whether the history is linearizable; with the kill flag raised it still never accepts a
  history that is not linearizable.

  \<open>stk\<close> describes the stack \<open>calls\<close> together with the heap, state and linearized set it belongs to:
  each pushed call was a candidate of the list of that moment, and its heap is the result of \<open>lift\<close>
  on the heap below, which \<open>unlift\<close> restores.  \<open>search_inv\<close> is the loop invariant; its core is that
  every candidate passed over, and every cache entry that is not on the current path, is a dead end.
  The last component of \<open>stk\<close> counts the iterations left for the frames below.
\<close>

section \<open>Frames\<close>

definition rest :: "'v heap \<Rightarrow> nat list \<Rightarrow> nat set \<Rightarrow> nat list" where
  "rest h L B = filter (\<lambda>a. nat (nid (h ! a)) \<notin> B) L"

definition search_setup :: "int \<Rightarrow> 'v heap \<Rightarrow> nat \<Rightarrow> nat list \<Rightarrow> bool" where
  "search_setup N h hdn L \<longleftrightarrow> links h None (hdn # L) \<and> hdn \<notin> set L \<and> wf_nodes N h L"

text \<open>Bounds on the iterations: \<open>work m\<close> for a list of length \<open>m\<close>, \<open>unit_work m\<close> for one of its entries.\<close>

fun work :: "nat \<Rightarrow> nat" where
  "work m = (if m < 2 then Suc m else m * Suc (work (m - 2)) + 1)"

declare work.simps [simp del]

definition unit_work :: "nat \<Rightarrow> nat" where
  "unit_work m = (if m < 2 then 1 else Suc (work (m - 2)))"

lemma work_unit: "work m = m * unit_work m + 1"
  by (subst work.simps) (simp add: unit_work_def)

lemma unit_work_pos: "0 < unit_work m"
  by (simp add: unit_work_def)

text \<open>
  \<open>dead\<close>: with the operations \<open>B\<close> linearized and the model in state \<open>s\<close>, no linearization completes
  the history.  \<open>skipped\<close>: the call \<open>u\<close> cannot be the next operation of a linearization.
\<close>

definition dead :: "('v, 's) Model \<Rightarrow> 'v heap \<Rightarrow> nat list \<Rightarrow> nat set \<Rightarrow> 's \<Rightarrow> bool" where
  "dead M h L B s \<longleftrightarrow> \<not> (\<exists>p. lin M h (rest h L B) s p)"

definition skipped :: "('v, 's) Model \<Rightarrow> 'v heap \<Rightarrow> nat list \<Rightarrow> nat set \<Rightarrow> 's \<Rightarrow> nat \<Rightarrow> bool" where
  "skipped M h L B s u \<longleftrightarrow>
     (\<exists>r. nmatch (h ! u) = Some r \<and>
        (\<forall>s'. Step M s (nvalue (h ! u)) (nvalue (h ! r)) = Inr (True, s') \<longrightarrow>
           dead M h L (insert (nat (nid (h ! u))) B) s'))"

inductive stk :: "('v, 's) Model \<Rightarrow> 'v heap \<Rightarrow> nat list \<Rightarrow> 's callsEntry list \<Rightarrow> 'v heap \<Rightarrow> 's \<Rightarrow> nat set
    \<Rightarrow> (nat set \<times> 's) set \<Rightarrow> nat \<Rightarrow> bool" for M h0 L0 where
  stk_Nil: "stk M h0 L0 [] h0 (Init M) {} {} 0"
| stk_snoc: "stk M h0 L0 cs h s B PS w \<Longrightarrow> rest h0 L0 B = us @ e # vs \<Longrightarrow>
     \<forall>u\<in>set us. skipped M h0 L0 B s u \<Longrightarrow> nmatch (h0 ! e) = Some r \<Longrightarrow>
     Step M s (nvalue (h0 ! e)) (nvalue (h0 ! r)) = Inr (True, s') \<Longrightarrow>
     lift h (Some e) = Inr h' \<Longrightarrow> B' = insert (nat (nid (h0 ! e))) B \<Longrightarrow>
     w' = w + length vs * unit_work (length (rest h0 L0 B)) + 1 \<Longrightarrow>
     stk M h0 L0 (cs @ [\<lparr>centry = Some e, cestate = s\<rparr>]) h' s' B' (insert (B', s') PS) w'"

lemma rest_empty [simp]: "rest h L {} = L"
  by (simp add: rest_def)

lemma wf_nodes_rest: "wf_nodes N h L \<Longrightarrow> wf_nodes N h (rest h L B)"
  unfolding rest_def by (rule wf_nodes_filter [where Q = "\<lambda>j. nat j \<notin> B"]) auto

lemma set_rest: "a \<in> set (rest h L B) \<longleftrightarrow> a \<in> set L \<and> nat (nid (h ! a)) \<notin> B"
  by (auto simp: rest_def)

lemma rest_insert:
  assumes "wf_nodes N h L" and "e \<in> set L"
  shows "rest h L (insert (nat (nid (h ! e))) B) = without h (nid (h ! e)) (rest h L B)"
proof -
  have "nat (nid (h ! a)) = nat (nid (h ! e)) \<longleftrightarrow> nid (h ! a) = nid (h ! e)" if "a \<in> set L" for a
    using wf_nodes_bound [OF assms(1) that] wf_nodes_bound [OF assms] by auto
  then show ?thesis
    unfolding rest_def without_def filter_filter by (intro filter_cong) auto
qed

lemma rest_insert_split:
  assumes "wf_nodes N h L" and "rest h L B = us @ e # vs" and "nmatch (h ! e) = Some r"
  obtains vs' ws where "vs = vs' @ r # ws" and "rest h L (insert (nat (nid (h ! e))) B) = us @ vs' @ ws"
proof -
  note wf = wf_nodes_rest [OF assms(1), of B]
  obtain vs' ws where vs: "vs = vs' @ r # ws" using wf_nodes_match [OF wf assms(2,3)] by metis
  have "e \<in> set L" using assms(2) set_rest [of e h L B] by simp
  then have "rest h L (insert (nat (nid (h ! e))) B) = us @ vs' @ ws"
    using rest_insert [OF assms(1)] without_split [OF wf _ assms(3)] assms(2) vs by simp
  with vs that show ?thesis by blast
qed

text \<open>Pushing a call: the heap step of \<open>lift\<close> and its inverse.\<close>

lemma lift_frame:
  assumes L: "links h None (hdn # rest h0 L0 B)" and "search_setup N h0 hdn L0" and pay: "same_payload h0 h"
    and r: "rest h0 L0 B = us @ e # vs" and m: "nmatch (h0 ! e) = Some r"
  shows "\<exists>h'. lift h (Some e) = Inr h' \<and> links h' None (hdn # rest h0 L0 (insert (nat (nid (h0 ! e))) B))
           \<and> same_payload h0 h' \<and> unlift h' (Some e) = Inr h"
proof -
  from assms(2) have wf: "wf_nodes N h0 L0" and hd: "hdn \<notin> set L0" by (simp_all add: search_setup_def)
  obtain vs' ws where vs: "vs = vs' @ r # ws"
    and rest: "rest h0 L0 (insert (nat (nid (h0 ! e))) B) = us @ vs' @ ws"
    using rest_insert_split [OF wf r m] by metis
  have "distinct (hdn # rest h0 L0 B)"
    using wf_nodes_distinct [OF wf_nodes_rest [OF wf]] hd by (auto simp: set_rest)
  moreover have "e < length h0"
    using wf_nodes_bound [OF wf, of e] set_rest [of e h0 L0 B] r by simp
  then have "nmatch (h ! e) = Some r" using same_payloadD [OF pay] m by (simp add: payload_eq_def)
  ultimately obtain h' where h': "lift h (Some e) = Inr h'" "links h' None ((hdn # us) @ vs' @ ws)"
      "same_payload h h'" "unlift h' (Some e) = Inr h"
    using lift_links [of h "hdn # us" e vs' r ws] L r vs by auto
  with rest same_payload_trans [OF pay] show ?thesis by auto
qed

lemma stk_heap:
  assumes "stk M h0 L0 cs h s B PS w" and "search_setup N h0 hdn L0"
  shows "links h None (hdn # rest h0 L0 B) \<and> same_payload h0 h"
  using assms
proof (induction rule: stk.induct)
  case stk_Nil
  then show ?case by (simp add: search_setup_def)
next
  case (stk_snoc cs h s B PS w us e vs r s' h' B' w')
  then have IH: "links h None (hdn # rest h0 L0 B)" "same_payload h0 h" by auto
  from lift_frame [OF IH(1) stk_snoc.prems IH(2) stk_snoc.hyps(2) stk_snoc.hyps(4)] stk_snoc.hyps(6,7)
  show ?case by auto
qed

lemma stk_size:
  assumes "stk M h0 L0 cs h s B PS w"
  shows "finite B \<and> card B = length cs \<and> B \<subseteq> (\<lambda>a. nat (nid (h0 ! a))) ` set L0
         \<and> (\<forall>(B', s') \<in> PS. finite B' \<and> card B' \<le> length cs)"
  using assms
proof (induction rule: stk.induct)
  case stk_Nil
  then show ?case by simp
next
  case (stk_snoc cs h s B PS w us e vs r s' h' B' w')
  from stk_snoc.hyps(2) have "e \<in> set (rest h0 L0 B)" by simp
  then have "e \<in> set L0" "nat (nid (h0 ! e)) \<notin> B" by (auto simp: set_rest)
  with stk_snoc.IH stk_snoc.hyps(7) show ?case by auto
qed


lemma skipped_call: "skipped M h L B s u \<Longrightarrow> nmatch (h ! u) \<noteq> None"
  by (auto simp: skipped_def)

text \<open>Popping a frame.\<close>

lemma stk_pop:
  assumes "stk M h0 L0 cs' h' s' B' PS' w'" and "cs' \<noteq> []" and "search_setup N h0 hdn L0"
  obtains cs h s B PS w us e vs where "cs' = cs @ [\<lparr>centry = Some e, cestate = s\<rparr>]"
    and "stk M h0 L0 cs h s B PS w" and "rest h0 L0 B = us @ e # vs" and "\<forall>u\<in>set us. skipped M h0 L0 B s u"
    and "B' = insert (nat (nid (h0 ! e))) B" and "nat (nid (h0 ! e)) \<notin> B" and "unlift h' (Some e) = Inr h"
    and "PS' = insert (B', s') PS" and "w' = w + length vs * unit_work (length (rest h0 L0 B)) + 1"
    and "\<exists>r. nmatch (h0 ! e) = Some r \<and> Step M s (nvalue (h0 ! e)) (nvalue (h0 ! r)) = Inr (True, s')"
  using assms(1)
proof (cases rule: stk.cases)
  case stk_Nil
  with assms(2) show ?thesis by simp
next
  case (stk_snoc cs h s B PS w us e vs r)
  from stk_heap [OF stk_snoc(3) assms(3)]
  have "links h None (hdn # rest h0 L0 B)" and "same_payload h0 h" by simp_all
  from lift_frame [OF this(1) assms(3) this(2) stk_snoc(4,6)] stk_snoc(8)
  have "unlift h' (Some e) = Inr h" by auto
  moreover have "nat (nid (h0 ! e)) \<notin> B" using stk_snoc(4) set_rest [of e h0 L0 B] by simp
  ultimately show ?thesis using that [of cs e s h B PS w us vs] stk_snoc by auto
qed

text \<open>The stack spells out a partial linearization.\<close>

definition frame_ids :: "'v heap \<Rightarrow> 's callsEntry list \<Rightarrow> int list" where
  "frame_ids h cs = map (\<lambda>c. nid (h ! the (centry c))) cs"

lemma stk_frames:
  assumes "stk M h0 L0 cs h s B PS w"
  shows "\<forall>c\<in>set cs. \<exists>a\<in>set L0. centry c = Some a"
  using assms
proof (induction rule: stk.induct)
  case (stk_snoc cs h s B PS w us e vs r s' h' B' w')
  from stk_snoc.hyps(2) have "e \<in> set (rest h0 L0 B)" by simp
  then have "e \<in> set L0" by (auto simp: set_rest)
  with stk_snoc.IH show ?case by auto
qed simp

lemma stk_steps:
  assumes "stk M h0 L0 cs h s B PS w" and "wf_nodes N h0 L0"
  shows "steps M h0 L0 (Init M) (frame_ids h0 cs) (rest h0 L0 B) s"
  using assms
proof (induction rule: stk.induct)
  case stk_Nil
  show ?case by (simp add: frame_ids_def steps_Nil)
next
  case (stk_snoc cs h s B PS w us e vs r s' h' B' w')
  have "\<forall>u\<in>set us. nmatch (h0 ! u) \<noteq> None"
    using stk_snoc.hyps(3) by (auto dest: skipped_call)
  from steps_one [OF stk_snoc.hyps(2) this stk_snoc.hyps(4,5)]
  have "steps M h0 (rest h0 L0 B) s [nid (h0 ! e)] (without h0 (nid (h0 ! e)) (rest h0 L0 B)) s'" .
  moreover have "e \<in> set L0" using stk_snoc.hyps(2) set_rest [of e h0 L0 B] by simp
  ultimately have "steps M h0 (rest h0 L0 B) s [nid (h0 ! e)] (rest h0 L0 B') s'"
    using rest_insert [OF stk_snoc.prems] stk_snoc.hyps(7) by metis
  with stk_snoc.IH [OF stk_snoc.prems] show ?case
    by (auto simp: frame_ids_def intro: steps_append)
qed

lemma call_ids_frames:
  assumes "same_payload h0 h" and "\<forall>c\<in>set cs. \<exists>a<length h0. centry c = Some a"
  shows "call_ids h cs = Inr (frame_ids h0 cs)"
  using assms(2)
proof (induction cs)
  case (Cons c cs)
  then obtain a where a: "a < length h0" "centry c = Some a" by auto
  with same_payloadD [OF assms(1)] same_payload_length [OF assms(1)] Cons show ?case
    by (auto simp: frame_ids_def payload_eq_def)
qed (simp add: frame_ids_def)


section \<open>The loop invariant\<close>

definition cache_inv :: "('v, 's) Model \<Rightarrow> 'v heap \<Rightarrow> nat list \<Rightarrow> nat \<Rightarrow> (nat set \<times> 's) set \<Rightarrow> 's cache \<Rightarrow> bool" where
  "cache_inv M h L C PS cache \<longleftrightarrow>
     (\<forall>k. \<forall>x\<in>set (cache k). length (linearized x) = C \<and>
        (dead M h L (bits_of (linearized x)) (cstate x) \<or> (bits_of (linearized x), cstate x) \<in> PS))"

text \<open>
  \<open>longest_inv\<close>: what is recorded for an operation is a partial linearization that contains it.
\<close>

definition longest_inv :: "('v, 's) Model \<Rightarrow> 'v heap \<Rightarrow> nat list \<Rightarrow> int \<Rightarrow> nat option list \<Rightarrow> int list list \<Rightarrow> bool" where
  "longest_inv M h L N longest seqs \<longleftrightarrow>
     int (length longest) = N \<and>
     (\<forall>i<length longest. \<forall>q. longest ! i = Some q \<longrightarrow>
        q < length seqs \<and> int i \<in> set (seqs ! q) \<and> (\<exists>L' s'. steps M h L (Init M) (seqs ! q) L' s'))"

definition search_at :: "('v, 's) Model \<Rightarrow> 'v heap \<Rightarrow> nat list \<Rightarrow> int \<Rightarrow> nat \<Rightarrow> ('v, 's) search \<Rightarrow> nat set
    \<Rightarrow> (nat set \<times> 's) set \<Rightarrow> nat \<Rightarrow> nat list \<Rightarrow> nat list \<Rightarrow> bool" where
  "search_at M h0 L0 N C s B PS w us vs \<longleftrightarrow>
     stk M h0 L0 (s_calls s) (s_heap s) (s_state s) B PS w \<and>
     bits_of (s_linearized s) = B \<and> length (s_linearized s) = C \<and>
     rest h0 L0 B = us @ vs \<and> s_entry s = hdp vs \<and> (\<forall>u\<in>set us. skipped M h0 L0 B (s_state s) u) \<and>
     cache_inv M h0 L0 C PS (s_cache s) \<and> longest_inv M h0 L0 N (s_longest s) (s_seqs s)"

definition search_inv :: "('v, 's) Model \<Rightarrow> 'v heap \<Rightarrow> nat list \<Rightarrow> int \<Rightarrow> nat \<Rightarrow> nat \<Rightarrow> ('v, 's) search \<Rightarrow> bool" where
  "search_inv M h0 L0 N C k s \<longleftrightarrow>
     (\<exists>B PS w us vs. search_at M h0 L0 N C s B PS w us vs \<and>
        k = length vs * unit_work (length (rest h0 L0 B)) + 1 + w)"

text \<open>All candidates before the first return have been passed over: a dead end.\<close>

lemma exhausted_dead:
  assumes "wf_nodes N h L" and "rest h L B = us @ v # vs" and "nmatch (h ! v) = None"
    and "\<forall>u\<in>set us. skipped M h L B s u"
  shows "dead M h L B s"
  unfolding dead_def
proof
  assume "\<exists>p. lin M h (rest h L B) s p"
  then obtain p where "lin M h (rest h L B) s p" ..
  then show False
  proof (cases rule: lin.cases)
    case lin_Nil
    with assms(2) show False by simp
  next
    case (lin_Cons us' e vs' r s' p')
    have "e \<in> set us"
    proof (rule ccontr)
      assume "e \<notin> set us"
      have "us @ v # vs = us' @ e # vs'" using assms(2) lin_Cons by simp
      then have "v \<in> set us' \<or> e = v \<or> e \<in> set us"
        by (auto simp: append_eq_append_conv2 append_eq_Cons_conv Cons_eq_append_conv)
      with lin_Cons assms(3) \<open>e \<notin> set us\<close> show False by auto
    qed
    moreover have "e \<in> set L" using lin_Cons(2) set_rest [of e h L B] by simp
    ultimately show False
      using assms(4) lin_Cons rest_insert [OF assms(1)] by (auto simp: skipped_def dead_def)
  qed
qed

lemma dead_not_lin: "dead M h L {} s \<Longrightarrow> \<not> lin M h L s p"
  by (auto simp: dead_def)

text \<open>The scan never runs past the end of the list.\<close>

lemma scan_not_past_end:
  assumes "wf_nodes N h L" and "rest h L B = us" and "\<forall>u\<in>set us. skipped M h L B s u"
  shows "us = []"
proof (rule ccontr)
  assume "us \<noteq> []"
  then obtain u where u: "u \<in> set us" by (meson list.set_sel(1))
  with assms(3) obtain r where r: "nmatch (h ! u) = Some r" by (auto simp: skipped_def)
  note wf = wf_nodes_rest [OF assms(1), of B]
  have "r \<in> set us" "nmatch (h ! r) = None"
    using wf_nodes_match_in [OF wf, of u r] wf_nodes_pair [OF wf, of u r] u r assms(2) by auto
  with assms(3) show False by (auto dest: skipped_call)
qed


section \<open>The cache\<close>

lemma contains_loop_iff:
  assumes "Equal M = Some eq"
  shows "contains_loop M ent xs = Inr (\<exists>x\<in>set xs. linearized x = linearized ent \<and> eq (cstate ent) (cstate x))"
  using assms by (induction xs) (auto simp: bs_equals_eq call_Equal_def)

lemma cache_hit_dead:
  assumes "cache_inv M h0 L0 C PS cache" and "stk M h0 L0 cs h s B PS w"
    and "Equal M = Some eq" and "state_equality (Step M) eq"
    and "cacheContains M cache \<lparr>linearized = b, cstate = s'\<rparr> = Inr True"
    and "bits_of b = insert i B" and "i \<notin> B"
  shows "dead M h0 L0 (insert i B) s'"
proof -
  from assms(5) obtain x where x: "x \<in> set (cache (bs_hash b))" "linearized x = b" "eq s' (cstate x)"
    by (auto simp: cacheContains_def contains_loop_iff [OF assms(3)])
  note sz = stk_size [OF assms(2)]
  have "card (insert i B) = Suc (length cs)" using sz assms(7) by simp
  with sz have "(bits_of b, cstate x) \<notin> PS" using assms(6) by auto
  moreover have "dead M h0 L0 (bits_of (linearized x)) (cstate x) \<or> (bits_of (linearized x), cstate x) \<in> PS"
    using assms(1) x(1) unfolding cache_inv_def by blast
  ultimately have "dead M h0 L0 (insert i B) (cstate x)" using x(2) assms(6) by simp
  then show ?thesis
    using state_equality.lin_transfer [OF assms(4) _ refl x(3)] unfolding dead_def by metis
qed

lemma cache_inv_add:
  assumes "cache_inv M h L C PS cache" and "length b = C"
  shows "cache_inv M h L C (insert (bits_of b, s') PS) (cache(k := cache k @ [\<lparr>linearized = b, cstate = s'\<rparr>]))"
  using assms by (auto simp: cache_inv_def)

lemma cache_inv_pop:
  assumes "cache_inv M h L C (insert (B, s) PS) cache" and "dead M h L B s"
  shows "cache_inv M h L C PS cache"
  using assms by (auto simp: cache_inv_def)

section \<open>One iteration\<close>

text \<open>The hypotheses on the model: \<open>Step\<close> does not panic on the history, and \<open>Equal\<close> keeps its contract.\<close>

definition model_ok :: "('v, 's) Model \<Rightarrow> 'v heap \<Rightarrow> nat list \<Rightarrow> bool" where
  "model_ok M h L \<longleftrightarrow>
     (\<exists>eq. Equal M = Some eq \<and> state_equality (Step M) eq) \<and>
     (\<forall>e\<in>set L. \<forall>r. nmatch (h ! e) = Some r \<longrightarrow>
        (\<forall>s. \<exists>ok s'. Step M s (nvalue (h ! e)) (nvalue (h ! r)) = Inr (ok, s')))"

definition search_start :: "('v, 's) Model \<Rightarrow> 'v heap \<Rightarrow> nat \<Rightarrow> nat list \<Rightarrow> int \<Rightarrow> nat \<Rightarrow> bool" where
  "search_start M h0 hdn L0 N C \<longleftrightarrow>
     search_setup N h0 hdn L0 \<and> model_ok M h0 L0 \<and> (\<lambda>a. nid (h0 ! a)) ` set L0 = {0..<N} \<and>
     N \<le> 64 * int C \<and> N < 2 ^ 64"

lemma node_in_heap:
  assumes "search_setup N h0 hdn L0" and "same_payload h0 h" and "a \<in> set L0"
  shows "deref h (Some a) = Inr (h ! a)" "nid (h ! a) = nid (h0 ! a)" "nmatch (h ! a) = nmatch (h0 ! a)"
    "nvalue (h ! a) = nvalue (h0 ! a)" "to_uint (nid (h0 ! a)) = nat (nid (h0 ! a)) \<or> \<not> N < 2 ^ 64"
  using assms wf_nodes_bound [of N h0 L0 a] same_payloadD [of h0 h a] same_payload_length [of h0 h]
  by (auto simp: search_setup_def payload_eq_def)

text \<open>Passing over the current candidate keeps the invariant.\<close>

lemma search_skip:
  assumes at: "search_at M h0 L0 N C s B PS w us (e # vs)" and "skipped M h0 L0 B (s_state s) e"
    and "search_setup N h0 hdn L0"
  shows "nnext (s_heap s ! e) = hdp vs \<and> search_at M h0 L0 N C (s\<lparr>s_entry := nnext (s_heap s ! e)\<rparr>) B PS w (us @ [e]) vs"
proof -
  from at have stk: "stk M h0 L0 (s_calls s) (s_heap s) (s_state s) B PS w"
    and r: "rest h0 L0 B = us @ e # vs" by (auto simp: search_at_def)
  from stk_heap [OF stk assms(3)] have "links (s_heap s) None ((hdn # us) @ e # vs)" by (simp add: r)
  from links_mid [OF this] have nx: "nnext (s_heap s ! e) = hdp vs" by simp
  with at assms(2) show ?thesis by (auto simp: search_at_def)
qed

lemma search_inv_skip:
  assumes "search_at M h0 L0 N C s B PS w us (e # vs)" and "skipped M h0 L0 B (s_state s) e"
    and "search_setup N h0 hdn L0" and "k = length (e # vs) * unit_work (length (rest h0 L0 B)) + 1 + w"
  shows "\<exists>k'<k. search_inv M h0 L0 N C k' (s\<lparr>s_entry := nnext (s_heap s ! e)\<rparr>)"
proof (intro exI conjI)
  show "length vs * unit_work (length (rest h0 L0 B)) + 1 + w < k"
    using assms(4) unit_work_pos by simp
  show "search_inv M h0 L0 N C (length vs * unit_work (length (rest h0 L0 B)) + 1 + w)
      (s\<lparr>s_entry := nnext (s_heap s ! e)\<rparr>)"
    using search_skip [OF assms(1-3)] unfolding search_inv_def by blast
qed


text \<open>Linearizing the current candidate.\<close>

definition pushed :: "ptr \<Rightarrow> 'v heap \<Rightarrow> 's \<Rightarrow> bitset \<Rightarrow> ('v, 's) search \<Rightarrow> ('v, 's) search" where
  "pushed first h' s' b' s = s\<lparr>s_heap := h', s_entry := first, s_state := s', s_linearized := b',
     s_cache := (s_cache s)(bs_hash b' := s_cache s (bs_hash b') @ [\<lparr>linearized = b', cstate = s'\<rparr>]),
     s_calls := s_calls s @ [\<lparr>centry = s_entry s, cestate = s_state s\<rparr>]\<rparr>"

lemma search_inv_push:
  assumes at: "search_at M h0 L0 N C s B PS w us (e # vs)" and st: "search_setup N h0 hdn L0"
    and m: "nmatch (h0 ! e) = Some r" and step: "Step M (s_state s) (nvalue (h0 ! e)) (nvalue (h0 ! r)) = Inr (True, s')"
    and lift: "lift (s_heap s) (s_entry s) = Inr h'" and b: "bits_of b' = insert (nat (nid (h0 ! e))) B" "length b' = C"
    and k: "k = length (e # vs) * unit_work (length (rest h0 L0 B)) + 1 + w"
  shows "\<exists>k'<k. search_inv M h0 L0 N C k' (pushed (nnext (h' ! hdn)) h' s' b' s)"
proof -
  let ?B = "insert (nat (nid (h0 ! e))) B"
  let ?w = "w + length vs * unit_work (length (rest h0 L0 B)) + 1"
  from at have stk: "stk M h0 L0 (s_calls s) (s_heap s) (s_state s) B PS w" and r: "rest h0 L0 B = us @ e # vs"
    and us: "\<forall>u\<in>set us. skipped M h0 L0 B (s_state s) u" and ent: "s_entry s = Some e"
    and cache: "cache_inv M h0 L0 C PS (s_cache s)" and long: "longest_inv M h0 L0 N (s_longest s) (s_seqs s)"
    by (auto simp: search_at_def)
  have stk': "stk M h0 L0 (s_calls s @ [\<lparr>centry = s_entry s, cestate = s_state s\<rparr>]) h' s' ?B (insert (?B, s') PS) ?w"
    using stk_snoc [OF stk r us m step _ refl refl] lift unfolding ent by simp
  have "links h' None ([] @ hdn # rest h0 L0 ?B)" using stk_heap [OF stk' st] by simp
  then have "nnext (h' ! hdn) = hdp (rest h0 L0 ?B)" using links_mid by blast
  then have "search_at M h0 L0 N C (pushed (nnext (h' ! hdn)) h' s' b' s) ?B (insert (?B, s') PS) ?w [] (rest h0 L0 ?B)"
    using stk' b cache_inv_add [OF cache b(2), of s'] long by (simp add: search_at_def pushed_def)
  moreover have "length (rest h0 L0 B) = Suc (Suc (length (rest h0 L0 ?B)))"
    using rest_insert_split [OF _ r m] st r unfolding search_setup_def by (metis add_Suc_right length_Cons length_append)
  then have "unit_work (length (rest h0 L0 B)) = Suc (work (length (rest h0 L0 ?B)))" by (simp add: unit_work_def)
  then have "length (rest h0 L0 ?B) * unit_work (length (rest h0 L0 ?B)) + 1 + ?w < k"
    using k work_unit [of "length (rest h0 L0 ?B)"] by simp
  ultimately show ?thesis unfolding search_inv_def by blast
qed

text \<open>The branch of a call entry: no panic, the measure decreases, the invariant is kept.\<close>

lemma tryCall_inv:
  assumes at: "search_at M h0 L0 N C s B PS w us (e # vs)" and st: "search_start M h0 hdn L0 N C"
    and m: "nmatch (h0 ! e) = Some r" and k: "k = length (e # vs) * unit_work (length (rest h0 L0 B)) + 1 + w"
  shows "\<exists>s'. tryCall M (Some hdn) (s_heap s ! e) s = Inr s' \<and> (\<exists>k'<k. search_inv M h0 L0 N C k' s')"
proof -
  let ?h = "s_heap s" and ?i = "nat (nid (h0 ! e))"
  from st obtain eq where su: "search_setup N h0 hdn L0" and eq: "Equal M = Some eq" "state_equality (Step M) eq"
    and N: "N \<le> 64 * int C" "N < 2 ^ 64" by (auto simp: search_start_def model_ok_def)
  from at have stk: "stk M h0 L0 (s_calls s) ?h (s_state s) B PS w" and rest: "rest h0 L0 B = us @ e # vs"
    and lin: "bits_of (s_linearized s) = B" "length (s_linearized s) = C" and ent: "s_entry s = Some e"
    and cache: "cache_inv M h0 L0 C PS (s_cache s)" by (auto simp: search_at_def)
  have wf: "wf_nodes N h0 L0" using su by (simp add: search_setup_def)
  have e: "e \<in> set L0" "?i \<notin> B" using rest set_rest [of e h0 L0 B] by auto
  have r: "r \<in> set L0" by (rule wf_nodes_match_in [OF wf e(1) m])
  note heap = stk_heap [OF stk su]
  note ne = node_in_heap [OF su conjunct2 [OF heap] e(1)] and nr = node_in_heap [OF su conjunct2 [OF heap] r]
  have uint: "to_uint (nid (h0 ! e)) = ?i" using ne(5) N(2) by simp
  obtain ok s' where step: "Step M (s_state s) (nvalue (h0 ! e)) (nvalue (h0 ! r)) = Inr (ok, s')"
    using st e(1) m unfolding search_start_def model_ok_def by blast
  have "?i < capacity (s_linearized s)"
    using wf_nodes_bound [OF wf e(1)] N(1) lin(2) by (simp add: capacity_def nat_less_iff)
  from bs_set_bits [OF this] obtain b' where b': "bs_set (s_linearized s) ?i = Inr b'" "length b' = C"
      "bits_of b' = insert ?i B" using lin by auto
  obtain hit where hit: "cacheContains M (s_cache s) \<lparr>linearized = b', cstate = s'\<rparr> = Inr hit"
    by (simp add: cacheContains_def contains_loop_iff [OF eq(1)])
  show ?thesis
  proof (cases "ok \<and> \<not> hit")
    case False
    have "skipped M h0 L0 B (s_state s) e"
      using False step m cache_hit_dead [OF cache stk eq _ b'(3) e(2)] hit by (auto simp: skipped_def)
    moreover have "tryCall M (Some hdn) (?h ! e) s = Inr (s\<lparr>s_entry := nnext (?h ! e)\<rparr>)"
      using False step b' hit by (auto simp: tryCall_def ne nr m uint)
    ultimately show ?thesis using search_inv_skip [OF at _ su k] by simp
  next
    case True
    from lift_frame [OF conjunct1 [OF heap] su conjunct2 [OF heap] rest m] obtain h' where
      h': "lift ?h (s_entry s) = Inr h'" "links h' None (hdn # rest h0 L0 (insert ?i B))" using ent by auto
    have "tryCall M (Some hdn) (?h ! e) s = Inr (pushed (nnext (h' ! hdn)) h' s' b' s)"
      using True step b' hit h' by (simp add: tryCall_def ne nr m uint pushed_def Let_def)
    with search_inv_push [OF at su m _ h'(1) b'(3,2) k] step True show ?thesis by auto
  qed
qed


text \<open>Recording the longest partial linearizations does not panic and keeps \<open>longest_inv\<close>.\<close>

lemma longest_inv_append:
  "longest_inv M h L N longest seqs \<Longrightarrow> longest_inv M h L N longest (seqs @ [p])"
  by (auto simp: longest_inv_def nth_append)

lemma longest_inv_set:
  assumes "longest_inv M h L N longest seqs" and "q < length seqs" and "steps M h L (Init M) (seqs ! q) L' s'"
    and "i \<in> set (seqs ! q)" and "0 \<le> i" and "i < N"
  shows "\<exists>longest'. slice_set longest i (Some q) = Inr longest' \<and> longest_inv M h L N longest' seqs"
proof -
  have "slice_set longest i (Some q) = Inr (longest[nat i := Some q])"
    using assms(1,5,6) by (auto simp: longest_inv_def slice_set_def)
  moreover have "longest_inv M h L N (longest[nat i := Some q]) seqs"
    using assms by (auto simp: longest_inv_def nth_update_if split: if_splits)
  ultimately show ?thesis by blast
qed

lemma longest_loop_inv:
  assumes ids: "call_ids h cs = Inr p" and p: "steps M h0 L0 (Init M) p L' s'"
    and inv: "longest_inv M h0 L0 N longest seqs"
    and sq: "\<forall>q. sq = Some q \<longrightarrow> q < length seqs \<and> seqs ! q = p"
    and vs: "\<forall>v\<in>set vs. \<exists>nd. deref h (centry v) = Inr nd \<and> 0 \<le> nid nd \<and> nid nd < N \<and> nid nd \<in> set p"
  shows "\<exists>longest' seqs'. longest_loop h cs sq longest seqs vs = Inr (longest', seqs') \<and> longest_inv M h0 L0 N longest' seqs'"
  using inv sq vs
proof (induction vs arbitrary: sq longest seqs)
  case Nil
  then show ?case by simp
next
  case (Cons v vs)
  from Cons.prems(3) obtain nd where nd: "deref h (centry v) = Inr nd" "0 \<le> nid nd" "nid nd < N" "nid nd \<in> set p"
    by auto
  obtain old where old: "slice_get longest (nid nd) = Inr old"
    using nd Cons.prems(1) by (auto simp: slice_get_def longest_inv_def)
  have vs: "\<forall>v\<in>set vs. \<exists>nd. deref h (centry v) = Inr nd \<and> 0 \<le> nid nd \<and> nid nd < N \<and> nid nd \<in> set p"
    using Cons.prems(3) by simp
  define sq' where "sq' = (if sq = None then Some (length seqs) else sq)"
  define seqs' where "seqs' = (if sq = None then seqs @ [p] else seqs)"
  have inv': "longest_inv M h0 L0 N longest seqs'" using Cons.prems(1) longest_inv_append seqs'_def by metis
  obtain q where q: "sq' = Some q" "q < length seqs'" "seqs' ! q = p"
    using Cons.prems(2) by (cases sq) (auto simp: sq'_def seqs'_def)
  obtain longest' where l': "slice_set longest (nid nd) sq' = Inr longest'" "longest_inv M h0 L0 N longest' seqs'"
    using longest_inv_set [OF inv' q(2), of L' s' "nid nd"] nd p q by auto
  have "rbind (if sq = None then rbind (call_ids h cs) (\<lambda>ids. Inr (Some (length seqs), seqs @ [ids]))
              else Inr (sq, seqs)) f = f (sq', seqs')" for f :: "nat option \<times> int list list \<Rightarrow> (nat option list \<times> int list list) res"
    by (simp add: sq'_def seqs'_def ids)
  with nd old l' show ?case
    using Cons.IH [OF Cons.prems(1,2) vs] Cons.IH [OF l'(2) _ vs, of sq'] q by simp
qed

lemma recordLongest_inv:
  assumes "stk M h0 L0 (s_calls s) (s_heap s) (s_state s) B PS w" and su: "search_setup N h0 hdn L0"
    and "longest_inv M h0 L0 N (s_longest s) (s_seqs s)"
  shows "\<exists>longest seqs. recordLongest cp s = Inr (s\<lparr>s_longest := longest, s_seqs := seqs\<rparr>)
           \<and> longest_inv M h0 L0 N longest seqs"
proof (cases cp)
  case False
  with assms(3) show ?thesis by (intro exI [of _ "s_longest s"] exI [of _ "s_seqs s"]) (simp add: recordLongest_def)
next
  case True
  have wf: "wf_nodes N h0 L0" using su by (simp add: search_setup_def)
  note pay = conjunct2 [OF stk_heap [OF assms(1) su]]
  have fr: "\<forall>c\<in>set (s_calls s). \<exists>a\<in>set L0. centry c = Some a" by (rule stk_frames [OF assms(1)])
  then have ids: "call_ids (s_heap s) (s_calls s) = Inr (frame_ids h0 (s_calls s))"
    using wf_nodes_bound [OF wf] by (intro call_ids_frames [OF pay]) blast
  have nodes: "\<exists>nd. deref (s_heap s) (centry c) = Inr nd \<and> 0 \<le> nid nd \<and> nid nd < N \<and> nid nd \<in> set (frame_ids h0 (s_calls s))"
    if c: "c \<in> set (s_calls s)" for c
  proof -
    obtain a where a: "a \<in> set L0" "centry c = Some a" using fr c by blast
    have "nid (h0 ! a) \<in> set (frame_ids h0 (s_calls s))"
      unfolding frame_ids_def set_map by (rule image_eqI [OF _ c]) (simp add: a)
    then show ?thesis using node_in_heap(1,2) [OF su pay a(1)] wf_nodes_bound [OF wf a(1)] a(2) by simp
  qed
  obtain longest seqs where "longest_loop (s_heap s) (s_calls s) None (s_longest s) (s_seqs s) (s_calls s) = Inr (longest, seqs)"
    and "longest_inv M h0 L0 N longest seqs"
    using longest_loop_inv [OF ids stk_steps [OF assms(1) wf] assms(3) _ ballI [OF nodes]] by blast
  with True have "recordLongest cp s = Inr (s\<lparr>s_longest := longest, s_seqs := seqs\<rparr>)
      \<and> longest_inv M h0 L0 N longest seqs" by (simp add: recordLongest_def)
  then show ?thesis by blast
qed


text \<open>The branch of a return entry: the frame below is restored and its call is passed over.\<close>

lemma undoCall_inv:
  assumes at: "search_at M h0 L0 N C s' B' PS' w' us' (v # vs')" and st: "search_start M h0 hdn L0 N C"
    and v: "nmatch (h0 ! v) = None" and ne: "s_calls s' \<noteq> []"
    and k: "k = length (v # vs') * unit_work (length (rest h0 L0 B')) + 1 + w'"
  shows "\<exists>s. undoCall cp s' = Inr s \<and> (\<exists>k'<k. search_inv M h0 L0 N C k' s)"
proof -
  from st have su: "search_setup N h0 hdn L0" and N: "N \<le> 64 * int C" "N < 2 ^ 64" by (auto simp: search_start_def)
  have wf: "wf_nodes N h0 L0" using su by (simp add: search_setup_def)
  from at have stk': "stk M h0 L0 (s_calls s') (s_heap s') (s_state s') B' PS' w'"
    and rest': "rest h0 L0 B' = us' @ v # vs'" and us': "\<forall>u\<in>set us'. skipped M h0 L0 B' (s_state s') u"
    and lin': "bits_of (s_linearized s') = B'" "length (s_linearized s') = C"
    and cache: "cache_inv M h0 L0 C PS' (s_cache s')" and long: "longest_inv M h0 L0 N (s_longest s') (s_seqs s')"
    by (auto simp: search_at_def)
  obtain longest seqs where rec: "recordLongest cp s' = Inr (s'\<lparr>s_longest := longest, s_seqs := seqs\<rparr>)"
    and long': "longest_inv M h0 L0 N longest seqs" using recordLongest_inv [OF stk' su long] by blast
  obtain cs h s B PS w us e vs where cs: "s_calls s' = cs @ [\<lparr>centry = Some e, cestate = s\<rparr>]"
    and stk: "stk M h0 L0 cs h s B PS w" and rest: "rest h0 L0 B = us @ e # vs" and us: "\<forall>u\<in>set us. skipped M h0 L0 B s u"
    and B': "B' = insert (nat (nid (h0 ! e))) B" "nat (nid (h0 ! e)) \<notin> B" and un: "unlift (s_heap s') (Some e) = Inr h"
    and PS: "PS' = insert (B', s_state s') PS" and w: "w' = w + length vs * unit_work (length (rest h0 L0 B)) + 1"
    and step: "\<exists>r. nmatch (h0 ! e) = Some r \<and> Step M s (nvalue (h0 ! e)) (nvalue (h0 ! r)) = Inr (True, s_state s')"
    by (rule stk_pop [OF stk' ne su])
  have dead: "dead M h0 L0 B' (s_state s')" by (rule exhausted_dead [OF wf rest' v us'])
  have e: "e \<in> set L0" using rest set_rest [of e h0 L0 B] by auto
  note ne' = node_in_heap [OF su conjunct2 [OF stk_heap [OF stk' su]] e]
    and ne = node_in_heap [OF su conjunct2 [OF stk_heap [OF stk su]] e]
  have "nat (nid (h0 ! e)) < capacity (s_linearized s')"
    using wf_nodes_bound [OF wf e] N(1) lin'(2) by (simp add: capacity_def nat_less_iff)
  from bs_clear_bits [OF this] obtain b where b: "bs_clear (s_linearized s') (to_uint (nid (h0 ! e))) = Inr b"
      "length b = C" "bits_of b = B" using lin' ne(5) N(2) B' by auto
  let ?s = "s'\<lparr>s_longest := longest, s_seqs := seqs, s_heap := h, s_entry := Some e, s_state := s, s_linearized := b, s_calls := cs\<rparr>"
  have "undoCall cp s' = Inr (?s\<lparr>s_entry := nnext (h ! e)\<rparr>)"
    using rec cs b un by (simp add: undoCall_def ne ne' slice_get_def nth_append Let_def)
  moreover have "search_at M h0 L0 N C ?s B PS w us (e # vs)"
    using stk b rest us long' cache_inv_pop [OF cache [unfolded PS] dead] by (simp add: search_at_def)
  moreover have "skipped M h0 L0 B (s_state ?s) e" using step dead B'(1) by (auto simp: skipped_def)
  ultimately have "undoCall cp s' = Inr (?s\<lparr>s_entry := nnext (h ! e)\<rparr>) \<and>
      search_inv M h0 L0 N C (length vs * unit_work (length (rest h0 L0 B)) + 1 + w) (?s\<lparr>s_entry := nnext (h ! e)\<rparr>)"
    using search_skip [of M h0 L0 N C ?s B PS w us e vs hdn] su unfolding search_inv_def by fastforce
  moreover have "length vs * unit_work (length (rest h0 L0 B)) + 1 + w < k" using k w by simp
  ultimately show ?thesis by blast
qed


section \<open>The loop\<close>

lemma checkBody_inv:
  assumes at: "search_at M h0 L0 N C s B PS w us (v # vs)" and st: "search_start M h0 hdn L0 N C"
    and k: "k = length (v # vs) * unit_work (length (rest h0 L0 B)) + 1 + w"
  shows "(\<exists>s'. checkBody M cp (Some hdn) s = Inr (Some s') \<and> (\<exists>k'<k. search_inv M h0 L0 N C k' s'))
         \<or> checkBody M cp (Some hdn) s = Inr None \<and> \<not> (\<exists>p. lin M h0 L0 (Init M) p)"
proof -
  from st have su: "search_setup N h0 hdn L0" by (simp add: search_start_def)
  then have wf: "wf_nodes N h0 L0" by (simp add: search_setup_def)
  from at have stk: "stk M h0 L0 (s_calls s) (s_heap s) (s_state s) B PS w" and rest: "rest h0 L0 B = us @ v # vs"
    and us: "\<forall>u\<in>set us. skipped M h0 L0 B (s_state s) u" and ent: "s_entry s = Some v" by (auto simp: search_at_def)
  have "v \<in> set L0" using rest set_rest [of v h0 L0 B] by auto
  note nv = node_in_heap [OF su conjunct2 [OF stk_heap [OF stk su]] this]
  consider r where "nmatch (h0 ! v) = Some r" | "nmatch (h0 ! v) = None" "s_calls s = []"
    | "nmatch (h0 ! v) = None" "s_calls s \<noteq> []" by fastforce
  then show ?thesis
  proof cases
    case 1
    then show ?thesis using tryCall_inv [OF at st 1 k] ent nv by (auto simp: checkBody_def)
  next
    case 2
    with stk have "B = {}" "s_state s = Init M" by (auto elim: stk.cases)
    with exhausted_dead [OF wf rest 2(1) us] 2 ent nv show ?thesis
      by (auto simp: checkBody_def dest: dead_not_lin)
  next
    case 3
    then show ?thesis using undoCall_inv [OF at st 3 k, of cp] ent nv by (auto simp: checkBody_def)
  qed
qed

text \<open>
  What the loop returns: \<open>True\<close> with one complete linearization shared by all operations, or
  \<open>False\<close> when there is none or the kill flag was seen; the recorded sequences are partial
  linearizations in both cases.
\<close>

definition loop_result :: "('v, 's) Model \<Rightarrow> 'v heap \<Rightarrow> nat list \<Rightarrow> int \<Rightarrow> (nat \<Rightarrow> int) \<Rightarrow> single_result \<Rightarrow> bool" where
  "loop_result M h L N kill res =
     (case res of (ok, longest, seqs) \<Rightarrow>
        longest_inv M h L N longest seqs \<and>
        (if ok then (\<exists>q. lin M h L (Init M) (seqs ! q) \<and> longest = replicate (nat N) (Some q))
         else (\<exists>j. kill j \<noteq> 0) \<or> \<not> (\<exists>p. lin M h L (Init M) p)))"

lemma checkDone_result:
  assumes at: "search_at M h0 L0 N C s B PS w us vs" and st: "search_start M h0 hdn L0 N C" and "rest h0 L0 B = []"
  shows "\<exists>res. checkDone s = Inr res \<and> loop_result M h0 L0 N kill res"
proof -
  from st have su: "search_setup N h0 hdn L0" and ids: "(\<lambda>a. nid (h0 ! a)) ` set L0 = {0..<N}"
    by (simp_all add: search_start_def)
  then have wf: "wf_nodes N h0 L0" by (simp add: search_setup_def)
  from at have stk: "stk M h0 L0 (s_calls s) (s_heap s) (s_state s) B PS w"
    and long: "longest_inv M h0 L0 N (s_longest s) (s_seqs s)" by (auto simp: search_at_def)
  let ?p = "frame_ids h0 (s_calls s)" and ?q = "length (s_seqs s)"
  have steps: "steps M h0 L0 (Init M) ?p [] (s_state s)" using stk_steps [OF stk wf] assms(3) by simp
  then have lin: "lin M h0 L0 (Init M) ?p" by (rule steps_lin) simp
  then have p: "set ?p = {0..<N}" using lin_linearization [OF lin wf] ids by (simp add: node_linearization_def)
  have "call_ids (s_heap s) (s_calls s) = Inr ?p"
    using stk_frames [OF stk] wf_nodes_bound [OF wf]
    by (intro call_ids_frames [OF conjunct2 [OF stk_heap [OF stk su]]]) blast
  then have "checkDone s = Inr (True, replicate (nat N) (Some ?q), s_seqs s @ [?p])"
    using long by (auto simp: checkDone_def longest_inv_def map_replicate_const)
  moreover have "longest_inv M h0 L0 N (replicate (nat N) (Some ?q)) (s_seqs s @ [?p])"
    using long p steps by (auto simp: longest_inv_def)
  ultimately show ?thesis using lin by (auto simp: loop_result_def intro!: exI [of _ ?q])
qed

lemma checkLoop_result:
  assumes "search_inv M h0 L0 N C k s" and st: "search_start M h0 hdn L0 N C"
  shows "\<exists>res. checkLoop M cp kill (Some hdn) i s = Some (Inr res) \<and> loop_result M h0 L0 N kill res"
  using assms(1)
proof (induction k arbitrary: i s rule: less_induct)
  case (less k)
  from less.prems obtain B PS w us vs where at: "search_at M h0 L0 N C s B PS w us vs"
    and k: "k = length vs * unit_work (length (rest h0 L0 B)) + 1 + w" unfolding search_inv_def by blast
  from st have su: "search_setup N h0 hdn L0" by (simp add: search_start_def)
  from at have rest: "rest h0 L0 B = us @ vs" and us: "\<forall>u\<in>set us. skipped M h0 L0 B (s_state s) u"
    and stk: "stk M h0 L0 (s_calls s) (s_heap s) (s_state s) B PS w"
    and long: "longest_inv M h0 L0 N (s_longest s) (s_seqs s)" by (auto simp: search_at_def)
  from stk_heap [OF stk su] have "links (s_heap s) None ([] @ hdn # rest h0 L0 B)" by simp
  then have hd: "hdn < length (s_heap s)" "nnext (s_heap s ! hdn) = hdp (rest h0 L0 B)"
    using links_mid by blast+
  show ?case
  proof (cases "rest h0 L0 B = [] \<or> kill i \<noteq> 0")
    case True
    then show ?thesis
      using checkDone_result [OF at st, of kill] long hd
      by (subst checkLoop.simps) (auto simp: loop_result_def)
  next
    case False
    have "vs \<noteq> []"
    proof
      assume "vs = []"
      with rest have us_all: "rest h0 L0 B = us" by simp
      have "wf_nodes N h0 L0" using su by (simp add: search_setup_def)
      from scan_not_past_end [OF this us_all us] us_all False show False by simp
    qed
    then obtain v vs' where vs: "vs = v # vs'" by (cases vs) auto
    from False hd have run: "checkLoop M cp kill (Some hdn) i s =
        (case checkBody M cp (Some hdn) s of Inl f \<Rightarrow> Some (Inl f)
         | Inr None \<Rightarrow> Some (Inr (False, s_longest s, s_seqs s))
         | Inr (Some s') \<Rightarrow> checkLoop M cp kill (Some hdn) (Suc i) s')"
      by (subst checkLoop.simps) simp
    consider s' k' where "checkBody M cp (Some hdn) s = Inr (Some s')" "k' < k" "search_inv M h0 L0 N C k' s'"
      | "checkBody M cp (Some hdn) s = Inr None" "\<not> (\<exists>p. lin M h0 L0 (Init M) p)"
      using checkBody_inv [OF at [unfolded vs] st k [unfolded vs], of cp] by blast
    then show ?thesis
    proof cases
      case 1
      with less.IH [OF 1(2,3), of "Suc i"] run show ?thesis by simp
    next
      case 2
      with long run show ?thesis by (simp add: loop_result_def)
    qed
  qed
qed


section \<open>checkSingle\<close>

text \<open>The hypotheses on the model in terms of the history.\<close>

definition step_total :: "('v, 's) Model \<Rightarrow> 'v entry list \<Rightarrow> bool" where
  "step_total M es \<longleftrightarrow>
     (\<forall>i s. 0 \<le> i \<and> i < n_ops es \<longrightarrow> (\<exists>ok s'. Step M s (fst (op_io es i)) (snd (op_io es i)) = Inr (ok, s')))"

definition equal_ok :: "('v, 's) Model \<Rightarrow> bool" where
  "equal_ok M \<longleftrightarrow> (\<exists>eq. Equal M = Some eq \<and> state_equality (Step M) eq)"

definition history_ok :: "('v, 's) Model \<Rightarrow> 'v entry list \<Rightarrow> bool" where
  "history_ok M es \<longleftrightarrow> wf_entries es \<and> step_total M es \<and> equal_ok M \<and> n_ops es < 2 ^ 64"

lemma model_ok_represents:
  assumes wf: "wf_entries es" and rep: "represents es h" and "step_total M es" and "equal_ok M"
  shows "model_ok M h (entry_nodes es)"
  unfolding model_ok_def
proof (intro conjI ballI allI impI)
  show "\<exists>eq. Equal M = Some eq \<and> state_equality (Step M) eq" using assms(4) by (simp add: equal_ok_def)
  fix e r s assume e: "e \<in> set (entry_nodes es)" and m: "nmatch (h ! e) = Some r"
  then have i: "0 \<le> nid (h ! e)" "nid (h ! e) < n_ops es"
    using wf_nodes_bound [OF wf_nodes_represents [OF wf rep]] by auto
  obtain c r' where "nmatch (h ! adr es c) = Some (adr es r')"
    "op_io es (nid (h ! e)) = (nvalue (h ! adr es c), nvalue (h ! adr es r'))" "e = adr es c"
    using op_call_return [OF wf rep i] e m by (metis option.distinct(1))
  with m i assms(3) show "\<exists>ok s'. Step M s (nvalue (h ! e)) (nvalue (h ! r)) = Inr (ok, s')"
    unfolding step_total_def by (metis fst_conv option.inject snd_conv)
qed

lemma represents_extend:
  assumes "represents es h" and "same_payload (h @ xs) h'"
  shows "represents es h'"
proof -
  have len: "length es \<le> length h" and len': "length h' = length h + length xs"
    using assms same_payload_length [OF assms(2)] by (auto simp: represents_def)
  have "payload_eq (h ! adr es k) (h' ! adr es k)" if "k < length es" for k
    using same_payloadD [OF assms(2), of "adr es k"] adr_less [OF that] len by (simp add: nth_append)
  with assms(1) len len' show ?thesis by (simp add: represents_def payload_eq_def)
qed


lemma checkSingle_loop:
  assumes ok: "history_ok M es"
  obtains h s where "checkSingle M es cp kill = checkLoop M cp kill (Some (length es)) 0 s"
    and "represents es h" and "search_start M h (length es) (entry_nodes es) (n_ops es) (length (newBitset (nat (n_ops es))))"
    and "\<exists>k. search_inv M h (entry_nodes es) (n_ops es) (length (newBitset (nat (n_ops es)))) k s"
proof -
  from ok have wf: "wf_entries es" and st: "step_total M es" "equal_ok M" and n: "n_ops es < 2 ^ 64"
    by (simp_all add: history_ok_def)
  obtain h where mk: "makeLinkedEntries es = Inr (h, hdp (entry_nodes es))" "length h = length es"
      "links h None (entry_nodes es)" "represents es h"
    using makeLinkedEntries_wf [OF wf] by blast
  let ?nd = "\<lparr>nvalue = None, nmatch = None, nid = - 1, nnext = None, nprev = None\<rparr>" and ?b = "newBitset (nat (n_ops es))"
  obtain h' where h': "insertBefore (h @ [?nd]) (Some (length es)) (hdp (entry_nodes es)) = Inr (h', Some (length es))"
      "length h' = Suc (length es)" "links h' None (all_nodes h')" "same_payload (h @ [?nd]) h'"
    using insert_front [of h ?nd] mk by auto
  have rep: "represents es h'" by (rule represents_extend [OF mk(4) h'(4)])
  have n0: "0 \<le> n_ops es" "to_uint (n_ops es) = nat (n_ops es)" using n by (simp_all add: n_ops_def)
  let ?s = "\<lparr>s_heap = h', s_entry = hdp (entry_nodes es), s_state = Init M, s_linearized = ?b, s_cache = (\<lambda>_. []),
      s_calls = [], s_longest = replicate (nat (n_ops es)) None, s_seqs = []\<rparr>"
  have run: "checkSingle M es cp kill = checkLoop M cp kill (Some (length es)) 0 ?s"
    using mk h'(1) node_length_links [OF mk(3), of 0] n0
    by (simp add: checkSingle_def new_node_def Let_def n_ops_def)
  have start: "search_start M h' (length es) (entry_nodes es) (n_ops es) (length ?b)"
    using h'(2,3) wf_nodes_represents [OF wf rep] model_ok_represents [OF wf rep st] ids_of_entry_nodes [OF wf rep] n
      newBitset_length [of "nat (n_ops es)"] by (simp add: search_start_def search_setup_def)
  have "search_at M h' (entry_nodes es) (n_ops es) (length ?b) ?s {} {} 0 [] (entry_nodes es)"
    using n0 by (simp add: search_at_def stk_Nil newBitset_bits cache_inv_def longest_inv_def)
  then have "\<exists>k. search_inv M h' (entry_nodes es) (n_ops es) (length ?b) k ?s"
    unfolding search_inv_def by blast
  with run rep start that show ?thesis by blast
qed

text \<open>What \<open>checkSingle\<close> returns, over the specification of \<^verbatim>\<open>History\<close>.\<close>

definition longest_ok :: "('v, 's) Model \<Rightarrow> 'v entry list \<Rightarrow> nat option list \<Rightarrow> int list list \<Rightarrow> bool" where
  "longest_ok M es longest seqs \<longleftrightarrow>
     int (length longest) = n_ops es \<and>
     (\<forall>i<length longest. \<forall>q. longest ! i = Some q \<longrightarrow>
        q < length seqs \<and> int i \<in> set (seqs ! q) \<and> is_partial_linearization M es (seqs ! q))"

lemma longest_inv_ok:
  assumes wf: "wf_entries es" and rep: "represents es h" and "longest_inv M h (entry_nodes es) (n_ops es) longest seqs"
  shows "longest_ok M es longest seqs"
proof -
  have "is_partial_linearization M es p" if "\<exists>L' s'. steps M h (entry_nodes es) (Init M) p L' s'" for p
    using that by (elim exE) (rule steps_partial_linearization [OF wf rep])
  with assms(3) show ?thesis by (simp add: longest_ok_def longest_inv_def)
qed

lemma checkSingle_result:
  assumes "history_ok M es"
  shows "\<exists>ok longest seqs. checkSingle M es cp kill = Some (Inr (ok, longest, seqs)) \<and> longest_ok M es longest seqs \<and>
           (if ok then (\<exists>q. is_linearization M es (seqs ! q) \<and> longest = replicate (nat (n_ops es)) (Some q))
            else (\<exists>j. kill j \<noteq> 0) \<or> \<not> linearizable M es)"
proof -
  have wf: "wf_entries es" using assms by (simp add: history_ok_def)
  obtain h s k where run: "checkSingle M es cp kill = checkLoop M cp kill (Some (length es)) 0 s" and rep: "represents es h"
    and start: "search_start M h (length es) (entry_nodes es) (n_ops es) (length (newBitset (nat (n_ops es))))"
    and inv: "search_inv M h (entry_nodes es) (n_ops es) (length (newBitset (nat (n_ops es)))) k s"
    using checkSingle_loop [OF assms] by metis
  obtain ok longest seqs where res: "checkSingle M es cp kill = Some (Inr (ok, longest, seqs))"
    and lr: "loop_result M h (entry_nodes es) (n_ops es) kill (ok, longest, seqs)"
    using checkLoop_result [OF inv start, of cp kill 0] run by (metis prod_cases3)
  from lr have "longest_ok M es longest seqs"
    by (intro longest_inv_ok [OF wf rep]) (simp add: loop_result_def)
  moreover have "if ok then (\<exists>q. is_linearization M es (seqs ! q) \<and> longest = replicate (nat (n_ops es)) (Some q))
            else (\<exists>j. kill j \<noteq> 0) \<or> \<not> linearizable M es"
    using lr unfolding loop_result_def linearizable_def lin_iff_linearization [OF wf rep] by (auto split: if_splits)
  ultimately show ?thesis using res by blast
qed

end
