(* ===== verification/Entries.thy ===== *)
theory Entries
  imports History
begin

text \<open>
  The conversions that feed the checker: \<open>makeEntries\<close> (operations with time stamps) and
  \<open>convertEntries (renumber _)\<close> (event sequences) of \<^verbatim>\<open>porcupine/checker.go\<close> give well-formed
  histories, keep the values of every operation, and keep the real-time order.
\<close>

section \<open>Positions and filters\<close>

abbreviation is_entry :: "entryKind \<Rightarrow> int \<Rightarrow> 'v entry \<Rightarrow> bool" where
  "is_entry k i e \<equiv> ekind e = k \<and> eid e = i"

lemma filter_positions: "filter (is_entry k i) es = map ((!) es) (positions k i es)"
proof -
  have "filter (is_entry k i) (map ((!) es) [0..<length es]) = map ((!) es) (positions k i es)"
    unfolding positions_def filter_map comp_def ..
  then show ?thesis by (simp add: map_nth)
qed

lemma filter_single_position:
  assumes "filter (is_entry k i) es = [e]"
  obtains p where "positions k i es = [p]" and "es ! p = e" and "p < length es"
proof -
  from assms have "map ((!) es) (positions k i es) = [e]" by (simp only: filter_positions)
  then obtain p where p: "positions k i es = [p]" "es ! p = e" by (auto simp: map_eq_Cons_conv)
  have "p < length es" using positions_iff [of p k i es] p(1) by simp
  with p that show ?thesis by blast
qed

lemma filter_single_perm:
  assumes "mset xs = mset ys" and "filter P ys = [y]"
  shows "filter P xs = [y]"
proof -
  have "mset (filter P xs) = mset (filter P ys)" by (simp add: assms(1))
  with assms(2) have "mset (filter P xs) = {#y#}" by simp
  then show ?thesis by (cases "filter P xs") auto
qed

section \<open>Operations\<close>

definition call_entry_of :: "int \<Rightarrow> 'v Operation \<Rightarrow> 'v entry" where
  "call_entry_of i elem =
     \<lparr>ekind = callEntry, evalue = Input elem, eid = i, etime = Call elem, eclientId = ClientId elem\<rparr>"

definition return_entry_of :: "int \<Rightarrow> 'v Operation \<Rightarrow> 'v entry" where
  "return_entry_of i elem =
     \<lparr>ekind = returnEntry, evalue = Output elem, eid = i, etime = Return elem, eclientId = ClientId elem\<rparr>"

lemma entries_loop_length [simp]: "length (entries_loop n ops) = 2 * length ops"
  by (induction n ops rule: entries_loop.induct) simp_all

lemma entries_loop_call:
  "filter (is_entry callEntry i) (entries_loop n ops) =
     (if n \<le> i \<and> i < n + int (length ops) then [call_entry_of i (ops ! nat (i - n))] else [])"
proof (induction n ops rule: entries_loop.induct)
  case (2 n op ops)
  have "nat (i - (1 + n)) = nat (i - n) - Suc 0" by linarith
  with 2 show ?case by (auto simp: call_entry_of_def nth_Cons' algebra_simps)
qed simp

lemma entries_loop_return:
  "filter (is_entry returnEntry i) (entries_loop n ops) =
     (if n \<le> i \<and> i < n + int (length ops) then [return_entry_of i (ops ! nat (i - n))] else [])"
proof (induction n ops rule: entries_loop.induct)
  case (2 n op ops)
  have "nat (i - (1 + n)) = nat (i - n) - Suc 0" by linarith
  with 2 show ?case by (auto simp: return_entry_of_def nth_Cons' algebra_simps)
qed simp

lemma entries_loop_ids: "e \<in> set (entries_loop n ops) \<Longrightarrow> n \<le> eid e \<and> eid e < n + int (length ops)"
  by (induction n ops rule: entries_loop.induct) auto

text \<open>The contract of \<open>sort.Sort\<close> on \<open>byTime\<close>.\<close>

lemma n_ops_makeEntries:
  assumes "go_sort by_time_less srt"
  shows "n_ops (makeEntries srt ops) = int (length ops)" and "length (makeEntries srt ops) = 2 * length ops"
  using go_sortD(3) [OF assms] by (simp_all add: n_ops_def makeEntries_def)

text \<open>Where an operation's entries are in the sorted history.\<close>

lemma makeEntries_op:
  assumes srt: "go_sort by_time_less srt" and i: "0 \<le> i" "i < int (length ops)"
  obtains c r where "positions callEntry i (makeEntries srt ops) = [c]" "positions returnEntry i (makeEntries srt ops) = [r]"
    "makeEntries srt ops ! c = call_entry_of i (ops ! nat i)" "makeEntries srt ops ! r = return_entry_of i (ops ! nat i)"
    "c < length (makeEntries srt ops)" "r < length (makeEntries srt ops)"
proof -
  note ms = go_sortD(1) [OF srt, of "entries_loop 0 ops", folded makeEntries_def]
  have "filter (is_entry callEntry i) (makeEntries srt ops) = [call_entry_of i (ops ! nat i)]"
    by (rule filter_single_perm [OF ms]) (use i in \<open>simp add: entries_loop_call\<close>)
  then obtain c where c: "positions callEntry i (makeEntries srt ops) = [c]" "c < length (makeEntries srt ops)"
      "makeEntries srt ops ! c = call_entry_of i (ops ! nat i)" by (rule filter_single_position)
  have "filter (is_entry returnEntry i) (makeEntries srt ops) = [return_entry_of i (ops ! nat i)]"
    by (rule filter_single_perm [OF ms]) (use i in \<open>simp add: entries_loop_return\<close>)
  then obtain r where "positions returnEntry i (makeEntries srt ops) = [r]" "r < length (makeEntries srt ops)"
      "makeEntries srt ops ! r = return_entry_of i (ops ! nat i)" by (rule filter_single_position)
  with c that show ?thesis by blast
qed

lemma makeEntries_order:
  assumes "go_sort by_time_less srt" and "x < length (makeEntries srt ops)" and "y < length (makeEntries srt ops)"
    and "etime (makeEntries srt ops ! x) < etime (makeEntries srt ops ! y)"
  shows "x < y"
proof (rule ccontr)
  assume "\<not> x < y"
  then have "y < x" using assms(4) by (cases "x = y") auto
  then have "\<not> by_time_less (makeEntries srt ops ! x) (makeEntries srt ops ! y)"
    using go_sortD(2) [OF assms(1), of y x "entries_loop 0 ops"] assms(2) go_sortD(3) [OF assms(1)]
    by (simp add: makeEntries_def)
  with assms(4) show False by (simp add: by_time_less_def)
qed

lemma makeEntries_wf:
  assumes srt: "go_sort by_time_less srt" and ops: "\<forall>op\<in>set ops. Call op < Return op"
  shows "wf_entries (makeEntries srt ops)"
proof -
  let ?es = "makeEntries srt ops"
  note n = n_ops_makeEntries [OF srt, of ops]
  have "0 \<le> eid e \<and> eid e < n_ops ?es" if "e \<in> set ?es" for e
    using that entries_loop_ids [of e 0 ops] mset_eq_setD [OF go_sortD(1) [OF srt]] n by (auto simp: makeEntries_def)
  moreover have "case (positions callEntry i ?es, positions returnEntry i ?es) of ([c], [r]) \<Rightarrow> c < r | _ \<Rightarrow> False"
    if "i \<in> set [0..n_ops ?es - 1]" for i
  proof -
    from that n have i: "0 \<le> i" "i < int (length ops)" by auto
    obtain c r where cr: "positions callEntry i ?es = [c]" "positions returnEntry i ?es = [r]"
      "?es ! c = call_entry_of i (ops ! nat i)" "?es ! r = return_entry_of i (ops ! nat i)" "c < length ?es" "r < length ?es"
      using makeEntries_op [OF srt i] by metis
    have "Call (ops ! nat i) < Return (ops ! nat i)" using ops i by simp
    then have "c < r"
      using makeEntries_order [OF srt cr(5,6)] cr(3,4) by (simp add: call_entry_of_def return_entry_of_def)
    with cr show ?thesis by simp
  qed
  ultimately show ?thesis using n by (simp add: wf_entries_def list_all_iff)
qed

lemma makeEntries_io:
  assumes "go_sort by_time_less srt" and "0 \<le> i" and "i < int (length ops)"
  shows "op_io (makeEntries srt ops) i = (Input (ops ! nat i), Output (ops ! nat i))"
  using makeEntries_op [OF assms]
  by (metis op_io_def value_at_def call_entry_of_def return_entry_of_def entry.select_convs(2) list.case(2))

text \<open>
  Real-time order: strictly earlier returns are kept, and nothing is ordered that the time stamps
  do not allow.  Equal time stamps may be ordered either way, since \<open>sort.Sort\<close> is not stable.
\<close>

lemma makeEntries_precedes:
  assumes srt: "go_sort by_time_less srt" and i: "0 \<le> i" "i < int (length ops)" and j: "0 \<le> j" "j < int (length ops)"
  shows "Return (ops ! nat i) < Call (ops ! nat j) \<Longrightarrow> precedes (makeEntries srt ops) i j"
    and "precedes (makeEntries srt ops) i j \<Longrightarrow> Return (ops ! nat i) \<le> Call (ops ! nat j)"
proof -
  let ?es = "makeEntries srt ops"
  obtain r where r: "positions returnEntry i ?es = [r]" "?es ! r = return_entry_of i (ops ! nat i)" "r < length ?es"
    using makeEntries_op [OF srt i] by metis
  obtain c where c: "positions callEntry j ?es = [c]" "?es ! c = call_entry_of j (ops ! nat j)" "c < length ?es"
    using makeEntries_op [OF srt j] by metis
  have times: "etime (?es ! r) = Return (ops ! nat i)" "etime (?es ! c) = Call (ops ! nat j)"
    using r c by (simp_all add: call_entry_of_def return_entry_of_def)
  show "Return (ops ! nat i) < Call (ops ! nat j) \<Longrightarrow> precedes ?es i j"
    using makeEntries_order [OF srt r(3) c(3)] times positions_single(2,3) [OF r(1)] positions_single(2,3) [OF c(1)] c(3)
    unfolding precedes_def by metis
  assume "precedes ?es i j"
  then obtain x y where xy: "x < y" "y < length ?es" "ekind (?es ! x) = returnEntry" "eid (?es ! x) = i"
      "ekind (?es ! y) = callEntry" "eid (?es ! y) = j" unfolding precedes_def by blast
  then have "x = r" "y = c" using positions_single(4) [OF r(1), of x] positions_single(4) [OF c(1), of y] by auto
  with xy(1) have "\<not> etime (?es ! c) < etime (?es ! r)" using makeEntries_order [OF srt c(3) r(3)] by auto
  with times show "Return (ops ! nat i) \<le> Call (ops ! nat j)" by simp
qed


section \<open>Events\<close>

text \<open>
  A complete event history: every identifier that occurs has one call event and, after it, one
  return event.
\<close>

definition event_at :: "'v Event list \<Rightarrow> EventKind \<Rightarrow> int \<Rightarrow> nat list" where
  "event_at evs k i = filter (\<lambda>p. Kind (evs ! p) = k \<and> Id (evs ! p) = i) [0..<length evs]"

definition complete_events :: "'v Event list \<Rightarrow> bool" where
  "complete_events evs \<longleftrightarrow>
     list_all (\<lambda>i. case (event_at evs CallEvent i, event_at evs ReturnEvent i) of
                     ([c], [r]) \<Rightarrow> c < r | _ \<Rightarrow> False) (map Id evs)"

text \<open>\<open>renumber\<close> applies one injective map onto an initial segment of the integers.\<close>

definition numbering :: "(int \<Rightarrow> int option) \<Rightarrow> int \<Rightarrow> bool" where
  "numbering m n \<longleftrightarrow> 0 \<le> n \<and> inj_on m (dom m) \<and> ran m = {0..<n} \<and> finite (dom m)"

lemma numbering_extend:
  assumes "numbering m n" and "m i = None"
  shows "numbering (m(i \<mapsto> n)) (n + 1)"
proof -
  have new: "n \<notin> ran m" using assms(1) by (simp add: numbering_def)
  have inj: "inj_on m (dom m)" using assms(1) by (simp add: numbering_def)
  have "inj_on (m(i \<mapsto> n)) (insert i (dom m))"
  proof (rule inj_onI)
    fix x y assume xy: "x \<in> insert i (dom m)" "y \<in> insert i (dom m)" "(m(i \<mapsto> n)) x = (m(i \<mapsto> n)) y"
    have "m z \<noteq> Some n" for z using new by (auto simp: ran_def)
    then show "x = y" using xy inj_onD [OF inj, of x y] by (auto split: if_splits)
  qed
  moreover have "ran (m(i \<mapsto> n)) = insert n (ran m)" using assms(2) by simp
  ultimately show ?thesis using assms(1) by (auto simp: numbering_def)
qed

lemma renumber_loop_map:
  assumes "numbering m n"
  shows "\<exists>m' n'. numbering m' n' \<and> m \<subseteq>\<^sub>m m' \<and> dom m' = dom m \<union> Id ` set evs \<and>
           renumber_loop m n evs = map (\<lambda>e. e\<lparr>Id := the (m' (Id e))\<rparr>) evs"
  using assms
proof (induction evs arbitrary: m n)
  case Nil
  then show ?case by (intro exI [of _ m] exI [of _ n]) simp
next
  case (Cons v evs)
  define m1 where "m1 = (case m (Id v) of Some _ \<Rightarrow> m | None \<Rightarrow> m(Id v \<mapsto> n))"
  define n1 where "n1 = (case m (Id v) of Some _ \<Rightarrow> n | None \<Rightarrow> n + 1)"
  have "numbering m1 n1"
    using Cons.prems numbering_extend by (auto simp: m1_def n1_def split: option.splits)
  from Cons.IH [OF this] obtain m' n' where IH: "numbering m' n'" "m1 \<subseteq>\<^sub>m m'" "dom m' = dom m1 \<union> Id ` set evs"
    "renumber_loop m1 n1 evs = map (\<lambda>e. e\<lparr>Id := the (m' (Id e))\<rparr>) evs" by blast
  have m1: "m \<subseteq>\<^sub>m m1" "dom m1 = insert (Id v) (dom m)" "Id v \<in> dom m1"
    by (auto simp: m1_def map_le_def split: option.splits)
  then have "m' (Id v) = m1 (Id v)" using IH(2) by (metis map_le_def)
  moreover have "renumber_loop m n (v # evs) = v\<lparr>Id := the (m1 (Id v))\<rparr> # renumber_loop m1 n1 evs"
    by (auto simp: m1_def n1_def split: option.splits)
  ultimately have "renumber_loop m n (v # evs) = map (\<lambda>e. e\<lparr>Id := the (m' (Id e))\<rparr>) (v # evs)" using IH(4) by simp
  moreover have "m \<subseteq>\<^sub>m m'" using m1(1) IH(2) map_le_trans by blast
  moreover have "dom m' = dom m \<union> Id ` set (v # evs)" using m1(2) IH(3) by auto
  ultimately show ?case using IH(1) by blast
qed

lemma renumber_map:
  obtains f n where "renumber evs = map (\<lambda>e. e\<lparr>Id := f (Id e)\<rparr>) evs" "inj_on f (Id ` set evs)" "f ` (Id ` set evs) = {0..<n}"
    "0 \<le> n"
proof -
  have "numbering Map.empty 0" by (simp add: numbering_def)
  from renumber_loop_map [OF this, of evs] obtain m n where m: "numbering m n" "dom m = Id ` set evs"
    "renumber evs = map (\<lambda>e. e\<lparr>Id := the (m (Id e))\<rparr>) evs" by (auto simp: renumber_def)
  have "inj_on (\<lambda>i. the (m i)) (dom m)"
    using m(1) unfolding numbering_def inj_on_def by (metis domD option.sel)
  moreover have "(\<lambda>i. the (m i)) ` dom m = ran m" by (force simp: ran_def)
  ultimately show ?thesis using that [of "\<lambda>i. the (m i)" n] m by (simp add: numbering_def)
qed


lemma convert_loop_length [simp]: "length (convert_loop i evs) = length evs"
  by (induction i evs rule: convert_loop.induct) simp_all

lemma convert_loop_nth: "p < length evs \<Longrightarrow> convert_loop i evs ! p = convert_entry (i + int p) (evs ! p)"
proof (induction i evs arbitrary: p rule: convert_loop.induct)
  case (2 i v evs)
  then show ?case by (cases p) (simp_all add: algebra_simps)
qed simp

definition event_kind :: "entryKind \<Rightarrow> EventKind" where
  "event_kind k = (case k of callEntry \<Rightarrow> CallEvent | returnEntry \<Rightarrow> ReturnEvent)"

lemma convert_entry_kind: "ekind (convert_entry i e) = k \<longleftrightarrow> Kind e = event_kind k"
  by (cases k; cases "Kind e") (simp_all add: convert_entry_def event_kind_def)

lemma event_at_length: "length (event_at evs k i) = length (filter (\<lambda>e. Kind e = k \<and> Id e = i) evs)"
proof -
  have "filter (\<lambda>e. Kind e = k \<and> Id e = i) (map ((!) evs) [0..<length evs]) = map ((!) evs) (event_at evs k i)"
    unfolding event_at_def filter_map comp_def ..
  then show ?thesis by (simp add: map_nth)
qed

lemma complete_eventsD:
  assumes "complete_events evs" and "i \<in> Id ` set evs"
  obtains c r where "event_at evs CallEvent i = [c]" "event_at evs ReturnEvent i = [r]" "c < r"
proof -
  have "case (event_at evs CallEvent i, event_at evs ReturnEvent i) of ([c], [r]) \<Rightarrow> c < r | _ \<Rightarrow> False"
    using assms unfolding complete_events_def list_all_iff set_map by blast
  then show ?thesis using that by (auto split: list.splits)
qed

lemma complete_count:
  assumes "complete_events evs" and "i \<in> Id ` set evs"
  shows "count (mset (map Id evs)) i = 2"
proof -
  obtain c r where cr: "event_at evs CallEvent i = [c]" "event_at evs ReturnEvent i = [r]"
    using complete_eventsD [OF assms] by metis
  have "count (mset (map Id evs)) i = length (filter (\<lambda>e. Id e = i) evs)"
    by (induction evs) auto
  also have "\<dots> = length (filter (\<lambda>e. Kind e = CallEvent \<and> Id e = i) evs) + length (filter (\<lambda>e. Kind e = ReturnEvent \<and> Id e = i) evs)"
  proof (induction evs)
    case (Cons e evs)
    then show ?case by (cases "Kind e") auto
  qed simp
  also have "\<dots> = 2" using cr event_at_length [of evs CallEvent i] event_at_length [of evs ReturnEvent i] by simp
  finally show ?thesis .
qed

lemma complete_length:
  assumes "complete_events evs"
  shows "length evs = 2 * card (Id ` set evs)"
proof -
  have "length evs = size (mset (map Id evs))" by simp
  also have "\<dots> = (\<Sum>i\<in>Id ` set evs. count (mset (map Id evs)) i)"
    by (subst size_multiset_overloaded_eq) simp
  also have "\<dots> = (\<Sum>i\<in>Id ` set evs. 2)" using complete_count [OF assms] by (rule sum.cong [OF refl])
  finally show ?thesis by simp
qed

text \<open>The entries of a complete event history, with the map \<open>f\<close> that renumbers the identifiers.\<close>

lemma convert_renumber:
  assumes "complete_events evs"
  shows "\<exists>f. inj_on f (Id ` set evs) \<and> f ` (Id ` set evs) = {0..<n_ops (convertEntries (renumber evs))} \<and>
    length (convertEntries (renumber evs)) = length evs \<and>
    (\<forall>p<length evs. convertEntries (renumber evs) ! p = convert_entry (int p) ((evs ! p)\<lparr>Id := f (Id (evs ! p))\<rparr>)) \<and>
    (\<forall>k. \<forall>j\<in>Id ` set evs. positions k (f j) (convertEntries (renumber evs)) = event_at evs (event_kind k) j)"
proof -
  let ?es = "convertEntries (renumber evs)"
  obtain f n where f: "renumber evs = map (\<lambda>e. e\<lparr>Id := f (Id e)\<rparr>) evs" "inj_on f (Id ` set evs)"
    "f ` (Id ` set evs) = {0..<n}" "0 \<le> n" using renumber_map [of evs] .
  have nth: "?es ! p = convert_entry (int p) ((evs ! p)\<lparr>Id := f (Id (evs ! p))\<rparr>)" if "p < length evs" for p
    using that by (simp add: convertEntries_def f(1) convert_loop_nth)
  have len: "length ?es = length evs" by (simp add: convertEntries_def f(1))
  have "int (card (Id ` set evs)) = n" using card_image [OF f(2)] f(3,4) by simp
  then have n: "n_ops ?es = n" using complete_length [OF assms] len by (simp add: n_ops_def)
  have "positions k (f j) ?es = event_at evs (event_kind k) j" if j: "j \<in> Id ` set evs" for k j
    unfolding positions_def event_at_def len
  proof (rule filter_cong [OF refl])
    fix p assume "p \<in> set [0..<length evs]"
    then have p: "p < length evs" by simp
    then have "f (Id (evs ! p)) = f j \<longleftrightarrow> Id (evs ! p) = j" using inj_on_eq_iff [OF f(2)] j by simp
    moreover have "ekind (?es ! p) = k \<longleftrightarrow> Kind (evs ! p) = event_kind k"
      using nth [OF p] convert_entry_kind [of "int p" "(evs ! p)\<lparr>Id := f (Id (evs ! p))\<rparr>" k] by simp
    ultimately show "(ekind (?es ! p) = k \<and> eid (?es ! p) = f j) = (Kind (evs ! p) = event_kind k \<and> Id (evs ! p) = j)"
      using nth [OF p] by (simp add: convert_entry_def)
  qed
  with f(2,3) n len nth show ?thesis by (intro exI [of _ f]) simp
qed

lemma convertEntries_wf:
  assumes "complete_events evs"
  shows "wf_entries (convertEntries (renumber evs))"
proof -
  let ?es = "convertEntries (renumber evs)"
  obtain f where f: "f ` (Id ` set evs) = {0..<n_ops ?es}" "length ?es = length evs"
    "\<forall>p<length evs. ?es ! p = convert_entry (int p) ((evs ! p)\<lparr>Id := f (Id (evs ! p))\<rparr>)"
    "\<forall>k. \<forall>j\<in>Id ` set evs. positions k (f j) ?es = event_at evs (event_kind k) j"
    using convert_renumber [OF assms] by auto
  have "0 \<le> eid (?es ! p) \<and> eid (?es ! p) < n_ops ?es" if "p < length ?es" for p
  proof -
    have "f (Id (evs ! p)) \<in> f ` (Id ` set evs)" using that f(2) by simp
    then show ?thesis using f(1,3) that f(2) by (simp add: convert_entry_def)
  qed
  moreover have "case (positions callEntry i ?es, positions returnEntry i ?es) of ([c], [r]) \<Rightarrow> c < r | _ \<Rightarrow> False"
    if "i \<in> set [0..n_ops ?es - 1]" for i
  proof -
    have "i \<in> f ` (Id ` set evs)" using that f(1) by simp
    then obtain j where j: "j \<in> Id ` set evs" "i = f j" by blast
    obtain c r where "event_at evs CallEvent j = [c]" "event_at evs ReturnEvent j = [r]" "c < r"
      by (rule complete_eventsD [OF assms j(1)])
    then show ?thesis using f(4) [rule_format, OF j(1)] j(2) by (simp add: event_kind_def)
  qed
  ultimately have "list_all (\<lambda>e. 0 \<le> eid e \<and> eid e < n_ops ?es) ?es"
    and "list_all (\<lambda>i. case (positions callEntry i ?es, positions returnEntry i ?es) of
                     ([c], [r]) \<Rightarrow> c < r | _ \<Rightarrow> False) [0..n_ops ?es - 1]"
    unfolding list_all_length [of _ ?es] by (blast, unfold list_all_iff, blast)
  then show ?thesis using complete_length [OF assms] f(2) by (simp add: wf_entries_def)
qed

end
