(* ===== verification/Parallel.thy ===== *)
theory Parallel
  imports CheckerCorrect Entries
begin

text \<open>
  \<open>checkParallel\<close>, \<open>checkEvents\<close>, \<open>checkOperations\<close> of \<^verbatim>\<open>porcupine/checker.go\<close> and the entry points of
  \<^verbatim>\<open>porcupine/porcupine.go\<close>.

  One goroutine per partition runs \<open>checkSingle\<close> and sends its verdict on the buffered channel
  \<open>results\<close>; the main goroutine selects between that channel and the timer.  An execution is a
  sequence of \<open>sched_event\<close>s, the interleaving chosen by the Go scheduler; \<open>par_step\<close> says what an
  event does and \<open>None\<close> that it is not enabled.  A goroutine interacts with the others only through
  the flag \<open>kill\<close>, which is raised once and never lowered, so its whole run is one event that
  carries the values of the flag it loaded (all 0 if the flag is still 0 at its end).

  \<open>checkParallel\<close> runs a schedule: \<open>None\<close> means that the call has not returned (yet).
\<close>

section \<open>Definitions\<close>

record 'v linearizationInfo =
  lhistory :: "'v entry list list"
  partialLinearizations :: "int list list list"

datatype 'v par_phase =
    SelectLoop
  | AfterLoop
  | Returned CheckResult "'v linearizationInfo"
  | Crashed gofault

record 'v par =
  p_running :: "bool list"
  p_longest :: "(nat option list \<times> int list list) list"
  p_results :: "bool list"
  p_kill :: int
  p_count :: nat
  p_ok :: bool
  p_timedOut :: bool
  p_phase :: "'v par_phase"

datatype sched_event = Finish nat "nat \<Rightarrow> int" | Receive | TimerFires | Drain | ReturnNow

text \<open>The goroutine of partition \<open>i\<close>, from its start to \<open>results <- ok\<close>.\<close>

definition goroutine :: "('v, 's) Model \<Rightarrow> 'v entry list list \<Rightarrow> bool \<Rightarrow> nat \<Rightarrow> (nat \<Rightarrow> int) \<Rightarrow> 'v par \<Rightarrow> 'v par option" where
  "goroutine M history computeInfo i seen st =
     (if i < length history \<and> p_running st ! i \<and> (p_kill st = 0 \<longrightarrow> (\<forall>n. seen n = 0)) then
        (case checkSingle M (history ! i) computeInfo seen of
           None \<Rightarrow> None
         | Some (Inl f) \<Rightarrow> Some (st\<lparr>p_phase := Crashed f\<rparr>)
         | Some (Inr (ok, l, seqs)) \<Rightarrow>
             Some (st\<lparr>p_running := (p_running st)[i := False], p_longest := (p_longest st)[i := (l, seqs)],
                      p_results := p_results st @ [ok]\<rparr>))
      else None)"

text \<open>The \<open>select\<close> loop: one received verdict, or the timer.\<close>

definition select_result :: "'v entry list list \<Rightarrow> bool \<Rightarrow> 'v par \<Rightarrow> 'v par option" where
  "select_result history computeInfo st =
     (case p_results st of
        [] \<Rightarrow> None
      | result # results \<Rightarrow>
          (let count = p_count st + 1;
               ok = (p_ok st \<and> result);
               st1 = st\<lparr>p_results := results, p_count := count, p_ok := ok\<rparr>
           in if \<not> ok \<and> \<not> computeInfo then Some (st1\<lparr>p_kill := 1, p_phase := AfterLoop\<rparr>)
              else if count \<ge> length history then Some (st1\<lparr>p_phase := AfterLoop\<rparr>)
              else Some st1))"

definition select_timeout :: "int \<Rightarrow> 'v par \<Rightarrow> 'v par option" where
  "select_timeout timeout st =
     (if timeout > 0 then Some (st\<lparr>p_timedOut := True, p_kill := 1, p_phase := AfterLoop\<rparr>) else None)"

text \<open>
  The partial linearizations of one partition: the distinct non-nil pointers of \<open>longest[i]\<close>, copied.
  Go iterates over the map in an unspecified order, chosen by \<open>iter\<close>.
\<close>

definition partials_of :: "(nat list \<Rightarrow> nat list) \<Rightarrow> nat option list \<times> int list list \<Rightarrow> int list list" where
  "partials_of iter = (\<lambda>(longest, seqs). map (\<lambda>q. seqs ! q) (iter (remdups (List.map_filter (\<lambda>v. v) longest))))"

definition finish_info :: "(nat list \<Rightarrow> nat list) \<Rightarrow> 'v entry list list \<Rightarrow> bool \<Rightarrow> 'v par \<Rightarrow> 'v linearizationInfo" where
  "finish_info iter history computeInfo st =
     (if computeInfo then \<lparr>lhistory = history, partialLinearizations = map (partials_of iter) (p_longest st)\<rparr>
      else \<lparr>lhistory = [], partialLinearizations = []\<rparr>)"

definition final_result :: "'v par \<Rightarrow> CheckResult" where
  "final_result st = (if \<not> p_ok st then Illegal else if p_timedOut st then Unknown else Ok)"

definition drain_result :: "'v entry list list \<Rightarrow> bool \<Rightarrow> 'v par \<Rightarrow> 'v par option" where
  "drain_result history computeInfo st =
     (if computeInfo \<and> p_count st < length history then
        (case p_results st of [] \<Rightarrow> None
         | _ # results \<Rightarrow> Some (st\<lparr>p_results := results, p_count := p_count st + 1\<rparr>))
      else None)"

definition return_result :: "(nat list \<Rightarrow> nat list) \<Rightarrow> 'v entry list list \<Rightarrow> bool \<Rightarrow> 'v par \<Rightarrow> 'v par option" where
  "return_result iter history computeInfo st =
     (if computeInfo \<and> p_count st < length history then None
      else Some (st\<lparr>p_phase := Returned (final_result st) (finish_info iter history computeInfo st)\<rparr>))"

definition par_step :: "('v, 's) Model \<Rightarrow> 'v entry list list \<Rightarrow> bool \<Rightarrow> int \<Rightarrow> (nat list \<Rightarrow> nat list) \<Rightarrow> sched_event
    \<Rightarrow> 'v par \<Rightarrow> 'v par option" where
  "par_step M history computeInfo timeout iter ev st =
     (case (ev, p_phase st) of
        (Finish i seen, SelectLoop) \<Rightarrow> goroutine M history computeInfo i seen st
      | (Finish i seen, AfterLoop) \<Rightarrow> goroutine M history computeInfo i seen st
      | (Receive, SelectLoop) \<Rightarrow> select_result history computeInfo st
      | (TimerFires, SelectLoop) \<Rightarrow> select_timeout timeout st
      | (Drain, AfterLoop) \<Rightarrow> drain_result history computeInfo st
      | (ReturnNow, AfterLoop) \<Rightarrow> return_result iter history computeInfo st
      | _ \<Rightarrow> None)"

definition par_init :: "'v entry list list \<Rightarrow> 'v par" where
  "par_init history =
     \<lparr>p_running = replicate (length history) True, p_longest = replicate (length history) ([], []), p_results = [],
      p_kill = 0, p_count = 0, p_ok = True, p_timedOut = False, p_phase = SelectLoop\<rparr>"

fun par_run :: "('v, 's) Model \<Rightarrow> 'v entry list list \<Rightarrow> bool \<Rightarrow> int \<Rightarrow> (nat list \<Rightarrow> nat list) \<Rightarrow> sched_event list
    \<Rightarrow> 'v par \<Rightarrow> 'v par option" where
  "par_run M history computeInfo timeout iter [] st = Some st"
| "par_run M history computeInfo timeout iter (ev # evs) st =
     (case par_step M history computeInfo timeout iter ev st of
        None \<Rightarrow> None
      | Some st' \<Rightarrow> par_run M history computeInfo timeout iter evs st')"

type_synonym 'v check_outcome = "(CheckResult \<times> 'v linearizationInfo) res"

definition checkParallel :: "('v, 's) Model \<Rightarrow> 'v entry list list \<Rightarrow> bool \<Rightarrow> int \<Rightarrow> (nat list \<Rightarrow> nat list) \<Rightarrow> sched_event list
    \<Rightarrow> 'v check_outcome option" where
  "checkParallel M history computeInfo timeout iter sched =
     (case par_run M history computeInfo timeout iter sched (par_init history) of
        None \<Rightarrow> None
      | Some st \<Rightarrow> (case p_phase st of
                       Returned r info \<Rightarrow> Some (Inr (r, info))
                     | Crashed f \<Rightarrow> Some (Inl f)
                     | _ \<Rightarrow> None))"

text \<open>
  \<open>env\<close> collects what the program leaves open: the printers behind \<open>%v\<close>, \<open>sort.Sort\<close>, the order of map
  iteration and the schedule.
\<close>

record ('v, 's) env =
  env_fmtv :: "'v iface \<Rightarrow> string"
  env_fmts :: "'s \<Rightarrow> string"
  env_sort :: "'v entry list \<Rightarrow> 'v entry list"
  env_iter :: "nat list \<Rightarrow> nat list"
  env_sched :: "sched_event list"

definition checkEvents :: "('v, 's) env \<Rightarrow> ('v, 's) Model \<Rightarrow> 'v Event list \<Rightarrow> bool \<Rightarrow> int \<Rightarrow> 'v check_outcome option" where
  "checkEvents E model0 history verbose timeout =
     (let model = fillDefault (env_fmtv E) (env_fmts E) model0
      in case PartitionEvent model of
           None \<Rightarrow> Some (Inl NilDeref)
         | Some part \<Rightarrow>
             (case part history of
                Inl f \<Rightarrow> Some (Inl f)
              | Inr partitions \<Rightarrow>
                  checkParallel model (map (\<lambda>subhistory. convertEntries (renumber subhistory)) partitions)
                    verbose timeout (env_iter E) (env_sched E)))"

definition checkOperations :: "('v, 's) env \<Rightarrow> ('v, 's) Model \<Rightarrow> 'v Operation list \<Rightarrow> bool \<Rightarrow> int \<Rightarrow> 'v check_outcome option" where
  "checkOperations E model0 history verbose timeout =
     (let model = fillDefault (env_fmtv E) (env_fmts E) model0
      in case Partition model of
           None \<Rightarrow> Some (Inl NilDeref)
         | Some part \<Rightarrow>
             (case part history of
                Inl f \<Rightarrow> Some (Inl f)
              | Inr partitions \<Rightarrow>
                  checkParallel model (map (makeEntries (env_sort E)) partitions)
                    verbose timeout (env_iter E) (env_sched E)))"

definition map_outcome :: "('a \<Rightarrow> 'b) \<Rightarrow> 'a res option \<Rightarrow> 'b res option" where
  "map_outcome f out = map_option (\<lambda>r. rbind r (\<lambda>x. Inr (f x))) out"

definition CheckOperations :: "('v, 's) env \<Rightarrow> ('v, 's) Model \<Rightarrow> 'v Operation list \<Rightarrow> bool res option" where
  "CheckOperations E model history = map_outcome (\<lambda>(r, _). r = Ok) (checkOperations E model history False 0)"

definition CheckOperationsTimeout :: "('v, 's) env \<Rightarrow> ('v, 's) Model \<Rightarrow> 'v Operation list \<Rightarrow> int \<Rightarrow> CheckResult res option" where
  "CheckOperationsTimeout E model history timeout = map_outcome fst (checkOperations E model history False timeout)"

definition CheckOperationsVerbose :: "('v, 's) env \<Rightarrow> ('v, 's) Model \<Rightarrow> 'v Operation list \<Rightarrow> int \<Rightarrow> 'v check_outcome option" where
  "CheckOperationsVerbose E model history timeout = checkOperations E model history True timeout"

definition CheckEvents :: "('v, 's) env \<Rightarrow> ('v, 's) Model \<Rightarrow> 'v Event list \<Rightarrow> bool res option" where
  "CheckEvents E model history = map_outcome (\<lambda>(r, _). r = Ok) (checkEvents E model history False 0)"

definition CheckEventsTimeout :: "('v, 's) env \<Rightarrow> ('v, 's) Model \<Rightarrow> 'v Event list \<Rightarrow> int \<Rightarrow> CheckResult res option" where
  "CheckEventsTimeout E model history timeout = map_outcome fst (checkEvents E model history False timeout)"

definition CheckEventsVerbose :: "('v, 's) env \<Rightarrow> ('v, 's) Model \<Rightarrow> 'v Event list \<Rightarrow> int \<Rightarrow> 'v check_outcome option" where
  "CheckEventsVerbose E model history timeout = checkEvents E model history True timeout"


section \<open>Invariant of an execution\<close>

definition finished :: "'v entry list list \<Rightarrow> 'v par \<Rightarrow> nat set" where
  "finished history st = {i. i < length history \<and> \<not> p_running st ! i}"

definition running :: "'v entry list list \<Rightarrow> 'v par \<Rightarrow> nat set" where
  "running history st = {i. i < length history \<and> p_running st ! i}"

definition par_counts :: "'v entry list list \<Rightarrow> 'v par \<Rightarrow> bool" where
  "par_counts history st \<longleftrightarrow> length (p_running st) = length history \<and> length (p_longest st) = length history \<and>
     p_count st + length (p_results st) + card (running history st) = length history"

text \<open>Inside the loop no goroutine has seen the flag, so the verdicts received and sent are exact.\<close>

definition loop_exact :: "('v, 's) Model \<Rightarrow> 'v entry list list \<Rightarrow> 'v par \<Rightarrow> bool" where
  "loop_exact M history st \<longleftrightarrow> p_kill st = 0 \<and> \<not> p_timedOut st \<and> (history = [] \<or> p_count st < length history) \<and>
     (p_ok st \<and> False \<notin> set (p_results st) \<longleftrightarrow> (\<forall>i\<in>finished history st. linearizable M (history ! i)))"

definition verdict_exact :: "('v, 's) Model \<Rightarrow> 'v entry list list \<Rightarrow> bool \<Rightarrow> bool \<Rightarrow> bool" where
  "verdict_exact M history ok timedOut \<longleftrightarrow>
     (\<not> ok \<longrightarrow> \<not> (\<forall>es\<in>set history. linearizable M es)) \<and> (ok \<and> \<not> timedOut \<longrightarrow> (\<forall>es\<in>set history. linearizable M es))"

definition par_longest_ok :: "('v, 's) Model \<Rightarrow> 'v entry list list \<Rightarrow> 'v par \<Rightarrow> bool" where
  "par_longest_ok M history st \<longleftrightarrow>
     (\<forall>i\<in>finished history st. longest_ok M (history ! i) (fst (p_longest st ! i)) (snd (p_longest st ! i)))"

definition par_inv :: "('v, 's) Model \<Rightarrow> 'v entry list list \<Rightarrow> bool \<Rightarrow> int \<Rightarrow> (nat list \<Rightarrow> nat list) \<Rightarrow> 'v par \<Rightarrow> bool" where
  "par_inv M history computeInfo timeout iter st \<longleftrightarrow>
     par_counts history st \<and> par_longest_ok M history st \<and> (p_timedOut st \<longrightarrow> timeout > 0) \<and>
     (case p_phase st of
        SelectLoop \<Rightarrow> loop_exact M history st
      | AfterLoop \<Rightarrow> verdict_exact M history (p_ok st) (p_timedOut st)
      | Returned r info \<Rightarrow> verdict_exact M history (p_ok st) (p_timedOut st) \<and> r = final_result st \<and>
          info = finish_info iter history computeInfo st \<and> (computeInfo \<longrightarrow> length history \<le> p_count st)
      | Crashed f \<Rightarrow> False)"

lemma finite_running [simp]: "finite (running history st)"
  by (simp add: running_def)

lemma all_finished:
  assumes "par_counts history st" and "length history \<le> p_count st"
  shows "finished history st = {..<length history}"
proof -
  have "card (running history st) = 0" using assms unfolding par_counts_def by linarith
  then have "running history st = {}" by simp
  then show ?thesis by (auto simp: running_def finished_def)
qed

lemma all_sent:
  assumes "par_counts history st" and "p_results st = []" and "p_count st < length history"
  obtains i where "i \<in> running history st"
  using assms by (force simp: par_counts_def)

text \<open>One goroutine finishing.\<close>

lemma goroutine_enabled:
  assumes "history_ok M (history ! i)" and "i \<in> running history st" and "p_kill st = 0 \<longrightarrow> (\<forall>n. seen n = 0)"
  obtains ok l seqs where "goroutine M history cp i seen st =
      Some (st\<lparr>p_running := (p_running st)[i := False], p_longest := (p_longest st)[i := (l, seqs)], p_results := p_results st @ [ok]\<rparr>)"
    and "longest_ok M (history ! i) l seqs" and "p_kill st = 0 \<Longrightarrow> ok \<longleftrightarrow> linearizable M (history ! i)"
proof -
  from checkSingle_result [OF assms(1), of cp seen] obtain ok l seqs where
    run: "checkSingle M (history ! i) cp seen = Some (Inr (ok, l, seqs))" "longest_ok M (history ! i) l seqs"
    and v: "if ok then (\<exists>q. is_linearization M (history ! i) (seqs ! q) \<and> l = replicate (nat (n_ops (history ! i))) (Some q))
            else (\<exists>j. seen j \<noteq> 0) \<or> \<not> linearizable M (history ! i)" by blast
  have "ok \<longleftrightarrow> linearizable M (history ! i)" if "p_kill st = 0"
    using v that assms(3) unfolding linearizable_def by (auto split: if_splits)
  moreover have "goroutine M history cp i seen st =
      Some (st\<lparr>p_running := (p_running st)[i := False], p_longest := (p_longest st)[i := (l, seqs)], p_results := p_results st @ [ok]\<rparr>)"
    using run(1) assms(2,3) by (simp add: goroutine_def running_def)
  ultimately show ?thesis using that run(2) by blast
qed

lemma goroutineE:
  assumes "goroutine M history cp i seen st = Some st'"
  shows "i \<in> running history st" and "p_kill st = 0 \<longrightarrow> (\<forall>n. seen n = 0)"
  using assms by (auto simp: goroutine_def running_def split: if_splits)

lemma finish_sets:
  assumes "i \<in> running history st" and "par_counts history st"
  shows "running history (st\<lparr>p_running := (p_running st)[i := False], p_longest := x, p_results := y\<rparr>) = running history st - {i}"
    and "finished history (st\<lparr>p_running := (p_running st)[i := False], p_longest := x, p_results := y\<rparr>) = insert i (finished history st)"
  using assms by (auto simp: running_def finished_def par_counts_def nth_list_update)


lemma par_step_finish:
  assumes inv: "par_inv M history cp timeout iter st" and ok: "\<forall>es\<in>set history. history_ok M es"
    and ph: "p_phase st = SelectLoop \<or> p_phase st = AfterLoop" and g: "goroutine M history cp i seen st = Some st'"
  shows "par_inv M history cp timeout iter st'"
proof -
  note i = goroutineE [OF g]
  have hi: "history_ok M (history ! i)" using ok i(1) by (simp add: running_def)
  obtain v l seqs where st': "st' = st\<lparr>p_running := (p_running st)[i := False], p_longest := (p_longest st)[i := (l, seqs)],
      p_results := p_results st @ [v]\<rparr>" and l: "longest_ok M (history ! i) l seqs"
    and v: "p_kill st = 0 \<longrightarrow> v = linearizable M (history ! i)"
    using goroutine_enabled [OF hi i, of cp] g by (metis option.inject)
  from inv have cnt: "par_counts history st" and lo: "par_longest_ok M history st" by (simp_all add: par_inv_def)
  have sets: "running history st' = running history st - {i}" "finished history st' = insert i (finished history st)"
    using finish_sets [OF i(1) cnt] st' by simp_all
  have "i \<notin> finished history st" "i < length history" using i(1) by (auto simp: running_def finished_def)
  then have lo': "par_longest_ok M history st'"
    using lo l cnt unfolding par_longest_ok_def sets(2) by (auto simp: st' par_counts_def nth_list_update)
  have "card (running history st - {i}) = card (running history st) - 1" "0 < card (running history st)"
    using i(1) by (simp_all add: card_gt_0_iff) blast
  then have "Suc (card (running history st')) = card (running history st)" unfolding sets(1) by simp
  then have cnt': "par_counts history st'" using cnt by (simp add: st' par_counts_def)
  have "loop_exact M history st'" if "p_phase st = SelectLoop"
  proof -
    have "loop_exact M history st" using inv that by (simp add: par_inv_def)
    then show ?thesis using v unfolding loop_exact_def sets(2) by (auto simp: st')
  qed
  with cnt' lo' inv ph show ?thesis by (auto simp: par_inv_def st')
qed

lemma par_step_receive:
  assumes inv: "par_inv M history cp timeout iter st" and ph: "p_phase st = SelectLoop"
    and s: "select_result history cp st = Some st'"
  shows "par_inv M history cp timeout iter st'"
proof -
  from s obtain r rs where rs: "p_results st = r # rs" by (auto simp: select_result_def split: list.splits)
  let ?st1 = "st\<lparr>p_results := rs, p_count := p_count st + 1, p_ok := (p_ok st \<and> r)\<rparr>"
  from inv ph have ex: "loop_exact M history st" and cnt: "par_counts history st" by (simp_all add: par_inv_def)
  have cnt1: "par_counts history ?st1" using cnt rs by (simp add: par_counts_def running_def)
  have fin: "finished history ?st1 = finished history st" by (simp add: finished_def)
  have ex1: "p_ok ?st1 \<and> False \<notin> set rs \<longleftrightarrow> (\<forall>i\<in>finished history st. linearizable M (history ! i))"
    using ex rs by (auto simp: loop_exact_def)
  have tt: "\<not> p_timedOut st" "p_kill st = 0" using ex by (simp_all add: loop_exact_def)
  have done1: "verdict_exact M history (p_ok ?st1) False" if "length history \<le> p_count ?st1"
  proof -
    have "finished history st = {..<length history}" using all_finished [OF cnt1 that] fin by simp
    moreover have "p_count st + 1 + length rs \<le> length history" using cnt1 by (simp add: par_counts_def)
    with that have "rs = []" by (cases rs) simp_all
    ultimately show ?thesis using ex1 by (auto simp: verdict_exact_def all_set_conv_all_nth)
  qed
  have bad1: "verdict_exact M history False False" if "\<not> p_ok ?st1"
    using ex1 that by (auto simp: verdict_exact_def finished_def)
  consider "\<not> p_ok ?st1 \<and> \<not> cp" | "p_ok ?st1 \<or> cp" "length history \<le> p_count ?st1"
    | "p_ok ?st1 \<or> cp" "p_count ?st1 < length history" by linarith
  then show ?thesis
  proof cases
    case 1
    with s rs have "st' = ?st1\<lparr>p_kill := 1, p_phase := AfterLoop\<rparr>" by (simp add: select_result_def Let_def)
    with 1 inv cnt1 bad1 tt show ?thesis
      by (auto simp: par_inv_def par_counts_def running_def finished_def par_longest_ok_def)
  next
    case 2
    with s rs have "st' = ?st1\<lparr>p_phase := AfterLoop\<rparr>" by (auto simp: select_result_def Let_def)
    with 2 inv cnt1 done1 tt show ?thesis
      by (auto simp: par_inv_def par_counts_def running_def finished_def par_longest_ok_def)
  next
    case 3
    with s rs have "st' = ?st1" by (auto simp: select_result_def Let_def)
    with 3 inv cnt1 ex1 tt ph show ?thesis
      by (auto simp: par_inv_def par_counts_def running_def finished_def par_longest_ok_def loop_exact_def)
  qed
qed


theorem par_step_inv:
  assumes inv: "par_inv M history cp timeout iter st" and ok: "\<forall>es\<in>set history. history_ok M es"
    and step: "par_step M history cp timeout iter ev st = Some st'"
  shows "par_inv M history cp timeout iter st'"
proof (cases ev)
  case (Finish i seen)
  with step have "p_phase st = SelectLoop \<or> p_phase st = AfterLoop" "goroutine M history cp i seen st = Some st'"
    by (auto simp: par_step_def split: par_phase.splits)
  with par_step_finish [OF inv ok] show ?thesis by blast
next
  case Receive
  with step have "p_phase st = SelectLoop" "select_result history cp st = Some st'"
    by (auto simp: par_step_def split: par_phase.splits)
  with par_step_receive [OF inv] show ?thesis by blast
next
  case TimerFires
  with step have "p_phase st = SelectLoop" and st': "timeout > 0" "st' = st\<lparr>p_timedOut := True, p_kill := 1, p_phase := AfterLoop\<rparr>"
    by (auto simp: par_step_def select_timeout_def split: par_phase.splits if_splits)
  with inv show ?thesis
    by (auto simp: par_inv_def par_counts_def running_def finished_def par_longest_ok_def loop_exact_def verdict_exact_def)
next
  case Drain
  with step have "p_phase st = AfterLoop" and "drain_result history cp st = Some st'"
    by (auto simp: par_step_def split: par_phase.splits)
  with inv show ?thesis
    by (auto simp: drain_result_def par_inv_def par_counts_def running_def finished_def par_longest_ok_def
        split: if_splits list.splits)
next
  case ReturnNow
  with step have "p_phase st = AfterLoop" and "return_result iter history cp st = Some st'"
    by (auto simp: par_step_def split: par_phase.splits)
  with inv show ?thesis
    by (auto simp: return_result_def par_inv_def par_counts_def running_def finished_def par_longest_ok_def
        final_result_def finish_info_def split: if_splits)
qed

lemma par_init_inv: "par_inv M history cp timeout iter (par_init history)"
proof -
  have "running history (par_init history) = {..<length history}" "finished history (par_init history) = {}"
    by (auto simp: running_def finished_def par_init_def)
  then show ?thesis
    by (auto simp: par_inv_def par_counts_def par_longest_ok_def loop_exact_def par_init_def)
qed

lemma par_run_inv:
  assumes "par_run M history cp timeout iter sched st = Some st'" and "par_inv M history cp timeout iter st"
    and "\<forall>es\<in>set history. history_ok M es"
  shows "par_inv M history cp timeout iter st'"
  using assms
proof (induction sched arbitrary: st)
  case (Cons ev evs)
  then show ?case using par_step_inv by (fastforce split: option.splits)
qed simp

section \<open>Progress and termination\<close>

definition par_measure :: "'v entry list list \<Rightarrow> 'v par \<Rightarrow> nat" where
  "par_measure history st = 2 * card (running history st) + length (p_results st) +
     (case p_phase st of SelectLoop \<Rightarrow> 2 | AfterLoop \<Rightarrow> 1 | _ \<Rightarrow> 0)"

lemma par_step_measure:
  assumes inv: "par_inv M history cp timeout iter st" and ok: "\<forall>es\<in>set history. history_ok M es"
    and step: "par_step M history cp timeout iter ev st = Some st'"
  shows "par_measure history st' < par_measure history st"
proof (cases ev)
  case (Finish i seen)
  with step have ph: "p_phase st = SelectLoop \<or> p_phase st = AfterLoop" and g: "goroutine M history cp i seen st = Some st'"
    by (auto simp: par_step_def split: par_phase.splits)
  note i = goroutineE [OF g]
  have hi: "history_ok M (history ! i)" using ok i(1) by (simp add: running_def)
  obtain v l seqs where st': "st' = st\<lparr>p_running := (p_running st)[i := False], p_longest := (p_longest st)[i := (l, seqs)],
      p_results := p_results st @ [v]\<rparr>" using goroutine_enabled [OF hi i, of cp] g by (metis option.inject)
  have "running history st' = running history st - {i}"
    using finish_sets(1) [OF i(1)] inv unfolding par_inv_def st' by blast
  moreover have "card (running history st - {i}) = card (running history st) - 1" "0 < card (running history st)"
    using i(1) by (simp_all add: card_gt_0_iff) blast
  ultimately show ?thesis by (simp add: par_measure_def st')
qed (use step in \<open>auto simp: par_step_def par_measure_def running_def select_result_def select_timeout_def drain_result_def
      return_result_def Let_def split: par_phase.splits if_splits list.splits\<close>)

text \<open>Progress: a result that is missing comes from a goroutine that can finish, and each phase can use or skip it.\<close>

lemma worker_progress:
  assumes "par_counts history st" and ok: "\<forall>es\<in>set history. history_ok M es" and ph: "p_phase st = SelectLoop \<or> p_phase st = AfterLoop"
    and "p_results st = []" "p_count st < length history"
  shows "\<exists>ev st'. par_step M history cp timeout iter ev st = Some st'"
proof -
  from all_sent [OF assms(1,4,5)] obtain i where i: "i \<in> running history st" .
  have "history_ok M (history ! i)" using ok i by (simp add: running_def)
  from goroutine_enabled [OF this i, of "\<lambda>_. 0" cp] obtain st' where "goroutine M history cp i (\<lambda>_. 0) st = Some st'" by auto
  with ph have "par_step M history cp timeout iter (Finish i (\<lambda>_. 0)) st = Some st'" by (auto simp: par_step_def)
  then show ?thesis by blast
qed

lemma event_progress:
  "p_phase st = SelectLoop \<Longrightarrow> p_results st \<noteq> [] \<Longrightarrow> par_step M history cp timeout iter Receive st \<noteq> None"
  "p_phase st = SelectLoop \<Longrightarrow> timeout > 0 \<Longrightarrow> par_step M history cp timeout iter TimerFires st \<noteq> None"
  "p_phase st = AfterLoop \<Longrightarrow> cp \<Longrightarrow> p_count st < length history \<Longrightarrow> p_results st \<noteq> [] \<Longrightarrow> par_step M history cp timeout iter Drain st \<noteq> None"
  "p_phase st = AfterLoop \<Longrightarrow> \<not> (cp \<and> p_count st < length history) \<Longrightarrow> par_step M history cp timeout iter ReturnNow st \<noteq> None"
  by (auto simp: par_step_def select_result_def select_timeout_def drain_result_def return_result_def Let_def split: list.splits)

lemma par_progress:
  assumes inv: "par_inv M history cp timeout iter st" and ok: "\<forall>es\<in>set history. history_ok M es"
    and some: "history \<noteq> [] \<or> timeout > 0" and ph: "p_phase st = SelectLoop \<or> p_phase st = AfterLoop"
  shows "\<exists>ev st'. par_step M history cp timeout iter ev st = Some st'"
proof -
  note worker = worker_progress [OF _ ok ph, of cp timeout iter]
  have cnt: "par_counts history st" using inv by (simp add: par_inv_def)
  from ph show ?thesis
  proof
    assume loop: "p_phase st = SelectLoop"
    consider "p_results st \<noteq> []" | "p_results st = []" "history \<noteq> []" | "timeout > 0" using some by blast
    then show ?thesis
    proof cases
      case 2
      then have "p_count st < length history" using inv loop by (simp add: par_inv_def loop_exact_def)
      then show ?thesis using worker [OF cnt 2(1)] by blast
    qed (use event_progress(1,2) [OF loop] in blast)+
  next
    assume after: "p_phase st = AfterLoop"
    then show ?thesis using worker [OF cnt] event_progress(3,4) [OF after] by blast
  qed
qed


section \<open>What checkParallel returns\<close>

lemma checkParallel_state:
  assumes "checkParallel M history cp timeout iter sched = Some out"
  obtains st where "par_run M history cp timeout iter sched (par_init history) = Some st"
    and "(\<exists>r info. p_phase st = Returned r info \<and> out = Inr (r, info)) \<or> (\<exists>f. p_phase st = Crashed f \<and> out = Inl f)"
  using assms by (auto simp: checkParallel_def split: option.splits par_phase.splits)

lemma partials_ok:
  assumes "longest_ok M es longest seqs" and "\<forall>xs. set (iter xs) = set xs" and "p \<in> set (partials_of iter (longest, seqs))"
  shows "is_partial_linearization M es p"
proof -
  from assms(2,3) obtain q where q: "p = seqs ! q" "Some q \<in> set longest"
    by (force simp: partials_of_def List.map_filter_def)
  then obtain i where "i < length longest" "longest ! i = Some q" by (auto simp: in_set_conv_nth)
  with assms(1) q(1) show ?thesis by (auto simp: longest_ok_def)
qed

definition info_ok :: "('v, 's) Model \<Rightarrow> 'v entry list list \<Rightarrow> bool \<Rightarrow> 'v linearizationInfo \<Rightarrow> bool" where
  "info_ok M history computeInfo info \<longleftrightarrow>
     (if computeInfo then lhistory info = history \<and> length (partialLinearizations info) = length history \<and>
        (\<forall>i<length history. \<forall>p\<in>set (partialLinearizations info ! i). is_partial_linearization M (history ! i) p)
      else lhistory info = [] \<and> partialLinearizations info = [])"

lemma checkParallel_sound:
  assumes ok: "\<forall>es\<in>set history. history_ok M es" and iter: "\<forall>xs. set (iter xs) = set xs"
    and run: "checkParallel M history cp timeout iter sched = Some out"
  shows "\<exists>r info. out = Inr (r, info) \<and> info_ok M history cp info \<and>
           (r = Ok \<longrightarrow> (\<forall>es\<in>set history. linearizable M es)) \<and>
           (r = Illegal \<longrightarrow> \<not> (\<forall>es\<in>set history. linearizable M es)) \<and> (r = Unknown \<longrightarrow> timeout > 0)"
proof -
  obtain st where st: "par_run M history cp timeout iter sched (par_init history) = Some st"
    and out: "(\<exists>r info. p_phase st = Returned r info \<and> out = Inr (r, info)) \<or> (\<exists>f. p_phase st = Crashed f \<and> out = Inl f)"
    using checkParallel_state [OF run] by metis
  have inv: "par_inv M history cp timeout iter st" by (rule par_run_inv [OF st par_init_inv ok])
  with out obtain r info where r: "p_phase st = Returned r info" "out = Inr (r, info)" by (auto simp: par_inv_def)
  with inv have v: "verdict_exact M history (p_ok st) (p_timedOut st)" "r = final_result st" and t: "p_timedOut st \<longrightarrow> timeout > 0"
    and info: "info = finish_info iter history cp st" "cp \<longrightarrow> length history \<le> p_count st"
    and cnt: "par_counts history st" and lo: "par_longest_ok M history st" by (auto simp: par_inv_def)
  have "info_ok M history cp info"
  proof (cases cp)
    case True
    have "longest_ok M (history ! i) (fst (p_longest st ! i)) (snd (p_longest st ! i))" if "i < length history" for i
      using lo all_finished [OF cnt] info(2) True that by (simp add: par_longest_ok_def)
    then have "is_partial_linearization M (history ! i) p"
      if "i < length history" "p \<in> set (partials_of iter (p_longest st ! i))" for i p
      using partials_ok [OF _ iter, of M "history ! i" "fst (p_longest st ! i)" "snd (p_longest st ! i)" p] that by simp
    with True show ?thesis
      using cnt by (auto simp: info_ok_def info(1) finish_info_def par_counts_def)
  qed (simp add: info_ok_def info(1) finish_info_def)
  moreover have "(r = Ok \<longrightarrow> (\<forall>es\<in>set history. linearizable M es)) \<and>
      (r = Illegal \<longrightarrow> \<not> (\<forall>es\<in>set history. linearizable M es)) \<and> (r = Unknown \<longrightarrow> timeout > 0)"
    using v t by (auto simp: final_result_def verdict_exact_def split: if_splits)
  ultimately show ?thesis using r(2) by blast
qed

lemma par_run_append:
  "par_run M history cp timeout iter (xs @ ys) st = Option.bind (par_run M history cp timeout iter xs st)
     (par_run M history cp timeout iter ys)"
  by (induction xs arbitrary: st) (simp_all split: option.splits)

lemma par_run_bound:
  assumes "par_run M history cp timeout iter sched st = Some st'" and "par_inv M history cp timeout iter st"
    and "\<forall>es\<in>set history. history_ok M es"
  shows "length sched + par_measure history st' \<le> par_measure history st"
  using assms
proof (induction sched arbitrary: st)
  case (Cons ev evs)
  then obtain st1 where st1: "par_step M history cp timeout iter ev st = Some st1"
      "par_run M history cp timeout iter evs st1 = Some st'" by (auto split: option.splits)
  from Cons.IH [OF st1(2) par_step_inv [OF Cons.prems(2,3) st1(1)] Cons.prems(3)]
    par_step_measure [OF Cons.prems(2,3) st1(1)] show ?case by simp
qed simp

text \<open>Every execution is short, and every execution that has not returned yet can go on until it returns.\<close>

lemma par_run_completes:
  assumes "par_inv M history cp timeout iter st" and ok: "\<forall>es\<in>set history. history_ok M es"
    and ne: "history \<noteq> [] \<or> timeout > 0"
  shows "\<exists>sched st' r info. par_run M history cp timeout iter sched st = Some st' \<and> p_phase st' = Returned r info"
  using assms(1)
proof (induction "par_measure history st" arbitrary: st rule: less_induct)
  case less
  show ?case
  proof (cases "p_phase st = SelectLoop \<or> p_phase st = AfterLoop")
    case True
    from par_progress [OF less.prems ok ne True] obtain ev st1 where
      s: "par_step M history cp timeout iter ev st = Some st1" by blast
    from less.hyps [OF par_step_measure [OF less.prems ok s] par_step_inv [OF less.prems ok s]]
    obtain sched st' r info where "par_run M history cp timeout iter sched st1 = Some st'" "p_phase st' = Returned r info" by blast
    with s have "par_run M history cp timeout iter (ev # sched) st = Some st'" "p_phase st' = Returned r info" by simp_all
    then show ?thesis by blast
  next
    case False
    with less.prems obtain r info where "p_phase st = Returned r info"
      by (cases "p_phase st") (auto simp: par_inv_def)
    then have "par_run M history cp timeout iter [] st = Some st \<and> p_phase st = Returned r info" by simp
    then show ?thesis by blast
  qed
qed

lemma checkParallel_completes:
  assumes ok: "\<forall>es\<in>set history. history_ok M es" and ne: "history \<noteq> [] \<or> timeout > 0"
    and "par_run M history cp timeout iter sched (par_init history) = Some st"
  shows "length sched \<le> 2 * length history + 2 \<and>
         (\<exists>sched' r info. checkParallel M history cp timeout iter (sched @ sched') = Some (Inr (r, info)))"
proof
  have "running history (par_init history) = {..<length history}" by (auto simp: running_def par_init_def)
  then have "par_measure history (par_init history) = 2 * length history + 2"
    by (simp add: par_measure_def par_init_def)
  with par_run_bound [OF assms(3) par_init_inv ok] show "length sched \<le> 2 * length history + 2" by simp
  from par_run_completes [OF par_run_inv [OF assms(3) par_init_inv ok] ok ne] obtain sched' st' r info where
    "par_run M history cp timeout iter sched' st = Some st'" "p_phase st' = Returned r info" by blast
  with assms(3) have "checkParallel M history cp timeout iter (sched @ sched') = Some (Inr (r, info))"
    by (simp add: checkParallel_def par_run_append)
  then show "\<exists>sched' r info. checkParallel M history cp timeout iter (sched @ sched') = Some (Inr (r, info))" by blast
qed

text \<open>Without partitions and without a timeout the \<open>select\<close> waits on two channels that never deliver.\<close>

lemma par_stuck:
  "timeout \<le> 0 \<Longrightarrow> par_step M [] cp timeout iter ev (par_init []) = None"
  by (cases ev) (simp_all add: par_step_def par_init_def goroutine_def select_result_def select_timeout_def)

lemma checkParallel_stuck:
  "timeout \<le> 0 \<Longrightarrow> checkParallel M [] cp timeout iter sched = None"
  by (cases sched) (simp_all add: checkParallel_def par_stuck par_init_def par_stuck [unfolded par_init_def, simplified])

end
