(* ===== verification/CheckApi.thy ===== *)
theory CheckApi
  imports Parallel
begin

text \<open>
  The entry points of \<^verbatim>\<open>porcupine/porcupine.go\<close> against a specification over the caller's data:
  \<open>ops_linearizable\<close> for operations with time stamps and \<open>events_linearizable\<close> for event sequences.
\<close>

section \<open>Linearizability of operations\<close>

definition ops_io :: "'v Operation list \<Rightarrow> int \<Rightarrow> 'v iface \<times> 'v iface" where
  "ops_io ops i = (Input (ops ! nat i), Output (ops ! nat i))"

definition ops_linearization :: "('v, 's) Model \<Rightarrow> 'v Operation list \<Rightarrow> int list \<Rightarrow> bool" where
  "ops_linearization M ops p \<longleftrightarrow>
     distinct p \<and> set p = {0..<int (length ops)} \<and>
     (\<forall>x y. x < y \<and> y < length p \<longrightarrow> \<not> Return (ops ! nat (p ! y)) < Call (ops ! nat (p ! x))) \<and>
     legal M (Init M) (map (ops_io ops) p)"

definition ops_linearizable :: "('v, 's) Model \<Rightarrow> 'v Operation list \<Rightarrow> bool" where
  "ops_linearizable M ops \<longleftrightarrow> (\<exists>p. ops_linearization M ops p)"

text \<open>No operation returns at the very time another one is called.\<close>

definition no_ties :: "'v Operation list \<Rightarrow> bool" where
  "no_ties ops \<longleftrightarrow> list_all (\<lambda>a. list_all (\<lambda>b. Return a \<noteq> Call b) ops) ops"

lemma no_tiesD: "no_ties ops \<Longrightarrow> a \<in> set ops \<Longrightarrow> b \<in> set ops \<Longrightarrow> Return a \<noteq> Call b"
  by (simp add: no_ties_def list_all_iff)

lemma makeEntries_legal:
  assumes "go_sort by_time_less srt" and "set p \<subseteq> {0..<int (length ops)}"
  shows "map (op_io (makeEntries srt ops)) p = map (ops_io ops) p"
proof (rule map_cong [OF refl])
  fix i assume "i \<in> set p"
  then have "0 \<le> i" "i < int (length ops)" using assms(2) by auto
  with makeEntries_io [OF assms(1)] show "op_io (makeEntries srt ops) i = ops_io ops i" by (simp add: ops_io_def)
qed

lemma is_linearization_ops:
  assumes srt: "go_sort by_time_less srt" and lin: "is_linearization M (makeEntries srt ops) p"
  shows "ops_linearization M ops p"
proof -
  let ?es = "makeEntries srt ops"
  from lin have p: "distinct p" "set p = {0..<int (length ops)}" "rt_respects ?es p" "legal M (Init M) (map (op_io ?es) p)"
    by (simp_all add: is_linearization_def n_ops_makeEntries [OF srt])
  have "\<not> Return (ops ! nat (p ! y)) < Call (ops ! nat (p ! x))" if "x < y" "y < length p" for x y
  proof -
    have "p ! x \<in> set p" "p ! y \<in> set p" using that by auto
    then have "0 \<le> p ! x" "p ! x < int (length ops)" "0 \<le> p ! y" "p ! y < int (length ops)" unfolding p(2) by simp_all
    with makeEntries_precedes(1) [OF srt, of "p ! y" ops "p ! x"] p(3) that show ?thesis
      by (auto simp: rt_respects_def)
  qed
  moreover have "legal M (Init M) (map (ops_io ops) p)"
    using p(4) unfolding makeEntries_legal [OF srt equalityD1 [OF p(2)]] .
  ultimately show ?thesis using p by (simp add: ops_linearization_def)
qed

lemma ops_is_linearization:
  assumes srt: "go_sort by_time_less srt" and lin: "ops_linearization M ops p" and ties: "no_ties ops"
  shows "is_linearization M (makeEntries srt ops) p"
proof -
  let ?es = "makeEntries srt ops"
  from lin have p: "distinct p" "set p = {0..<int (length ops)}" "legal M (Init M) (map (ops_io ops) p)"
    and rt: "\<And>x y. x < y \<Longrightarrow> y < length p \<Longrightarrow> \<not> Return (ops ! nat (p ! y)) < Call (ops ! nat (p ! x))"
    by (simp_all add: ops_linearization_def)
  have "\<not> precedes ?es (p ! y) (p ! x)" if "x < y" "y < length p" for x y
  proof
    assume prec: "precedes ?es (p ! y) (p ! x)"
    have "p ! x \<in> set p" "p ! y \<in> set p" using that by auto
    then have xy: "0 \<le> p ! x" "p ! x < int (length ops)" "0 \<le> p ! y" "p ! y < int (length ops)" unfolding p(2) by simp_all
    from makeEntries_precedes(2) [OF srt xy(3,4,1,2) prec]
    have "Return (ops ! nat (p ! y)) \<le> Call (ops ! nat (p ! x))" .
    moreover have "Return (ops ! nat (p ! y)) \<noteq> Call (ops ! nat (p ! x))"
      using xy by (intro no_tiesD [OF ties]) simp_all
    ultimately show False using rt [OF that] by simp
  qed
  then have "rt_respects ?es p" by (simp add: rt_respects_def)
  moreover have "legal M (Init M) (map (op_io ?es) p)"
    using p(3) unfolding makeEntries_legal [OF srt equalityD1 [OF p(2)]] .
  ultimately show ?thesis using p by (simp add: is_linearization_def n_ops_makeEntries [OF srt])
qed

text \<open>
  The checker never accepts a history that is not linearizable; when no return time equals a call
  time it decides linearizability exactly.
\<close>

lemma linearizable_makeEntries:
  assumes "go_sort by_time_less srt"
  shows "linearizable M (makeEntries srt ops) \<Longrightarrow> ops_linearizable M ops"
    and "no_ties ops \<Longrightarrow> linearizable M (makeEntries srt ops) \<longleftrightarrow> ops_linearizable M ops"
  unfolding linearizable_def ops_linearizable_def
  using is_linearization_ops [OF assms] ops_is_linearization [OF assms] by blast+

text \<open>Linearizability without indices: some arrangement of the operations is legal and respects time.\<close>

abbreviation io_of :: "'v Operation \<Rightarrow> 'v iface \<times> 'v iface" where
  "io_of op \<equiv> (Input op, Output op)"

definition arranged :: "'v Operation list \<Rightarrow> bool" where
  "arranged qs \<longleftrightarrow> sorted_wrt (\<lambda>a b. \<not> Return b < Call a) qs"

lemma ops_linearizable_arranged:
  "ops_linearizable M ops \<longleftrightarrow> (\<exists>qs. mset qs = mset ops \<and> arranged qs \<and> legal M (Init M) (map io_of qs))"
proof
  let ?f = "\<lambda>i. ops ! nat i"
  assume "ops_linearizable M ops"
  then obtain p where p: "distinct p" "set p = {0..<int (length ops)}" "legal M (Init M) (map (ops_io ops) p)"
    and rt: "\<forall>x y. x < y \<and> y < length p \<longrightarrow> \<not> Return (?f (p ! y)) < Call (?f (p ! x))"
    by (auto simp: ops_linearizable_def ops_linearization_def)
  have "mset p = mset (map int [0..<length ops])"
    using p(1,2) by (intro iffD1 [OF set_eq_iff_mset_eq_distinct]) (auto simp: distinct_map image_int_atLeastLessThan)
  then have "mset (map ?f p) = mset (map ?f (map int [0..<length ops]))" by (metis mset_map)
  also have "map ?f (map int [0..<length ops]) = ops" by (simp add: comp_def map_nth)
  finally have "mset (map ?f p) = mset ops" .
  moreover have "arranged (map ?f p)" using rt by (auto simp: arranged_def sorted_wrt_iff_nth_less)
  moreover have "map io_of (map ?f p) = map (ops_io ops) p" by (simp add: ops_io_def)
  ultimately show "\<exists>qs. mset qs = mset ops \<and> arranged qs \<and> legal M (Init M) (map io_of qs)" using p(3) by metis
next
  assume "\<exists>qs. mset qs = mset ops \<and> arranged qs \<and> legal M (Init M) (map io_of qs)"
  then obtain qs where qs: "mset qs = mset ops" "arranged qs" "legal M (Init M) (map io_of qs)" by blast
  from mset_eq_indices [OF qs(1)] obtain p where p: "distinct p" "set p = {..<length ops}" "qs = map ((!) ops) p" by blast
  have "ops_linearization M ops (map int p)"
    unfolding ops_linearization_def
  proof (intro conjI)
    show "distinct (map int p)" using p(1) by (simp add: distinct_map)
    show "set (map int p) = {0..<int (length ops)}" using p(2) by (simp add: lessThan_atLeast0 image_int_atLeastLessThan)
    show "\<forall>x y. x < y \<and> y < length (map int p) \<longrightarrow>
        \<not> Return (ops ! nat (map int p ! y)) < Call (ops ! nat (map int p ! x))"
      using qs(2) p(3) by (auto simp: arranged_def sorted_wrt_iff_nth_less)
    have "map (ops_io ops) (map int p) = map io_of qs" using p(3) by (simp add: ops_io_def)
    then show "legal M (Init M) (map (ops_io ops) (map int p))" using qs(3) by simp
  qed
  then show "ops_linearizable M ops" by (auto simp: ops_linearizable_def)
qed

section \<open>Models and their defaults\<close>

lemma legal_cong: "Step M = Step M' \<Longrightarrow> legal M s ops \<longleftrightarrow> legal M' s ops"
  by (induction ops arbitrary: s) (auto split: sum.splits prod.splits bool.splits)

lemma fillDefault_simps [simp]:
  "Step (fillDefault fv fs M) = Step M" "Init (fillDefault fv fs M) = Init M"
  "Partition (fillDefault fv fs M) = (case Partition M of None \<Rightarrow> Some NoPartition | Some f \<Rightarrow> Some f)"
  "PartitionEvent (fillDefault fv fs M) = (case PartitionEvent M of None \<Rightarrow> Some NoPartitionEvent | Some f \<Rightarrow> Some f)"
  "Equal (fillDefault fv fs M) = (case Equal M of None \<Rightarrow> Some ShallowEqual | Some f \<Rightarrow> Some f)"
  by (simp_all add: fillDefault_def Let_def split: option.splits)

lemma linearizable_fillDefault [simp]: "linearizable (fillDefault fv fs M) es \<longleftrightarrow> linearizable M es"
  using legal_cong [of "fillDefault fv fs M" M] by (simp add: linearizable_def is_linearization_def)

text \<open>What is asked of the user's model: no panic on the history's values, and \<open>Equal\<close> a bisimulation.\<close>

definition equal_contract :: "('v, 's) Model \<Rightarrow> bool" where
  "equal_contract M \<longleftrightarrow> (\<forall>eq. Equal M = Some eq \<longrightarrow> state_equality (Step M) eq)"

definition ops_ok :: "('v, 's) Model \<Rightarrow> 'v Operation list \<Rightarrow> bool" where
  "ops_ok M ops \<longleftrightarrow> (\<forall>op\<in>set ops. Call op < Return op \<and> (\<forall>s. \<exists>ok s'. Step M s (Input op) (Output op) = Inr (ok, s'))) \<and>
     int (length ops) < 2 ^ 64"

lemma equal_ok_fillDefault: "equal_contract M \<Longrightarrow> equal_ok (fillDefault fv fs M)"
  using shallow.state_equality_axioms [of M]
  by (auto simp: equal_ok_def equal_contract_def split: option.splits)

lemma history_ok_makeEntries:
  assumes srt: "go_sort by_time_less srt" and "equal_contract M" and ops: "ops_ok M ops"
  shows "history_ok (fillDefault fv fs M) (makeEntries srt ops)"
proof -
  have "wf_entries (makeEntries srt ops)" using ops by (intro makeEntries_wf [OF srt]) (simp add: ops_ok_def)
  moreover have "step_total (fillDefault fv fs M) (makeEntries srt ops)"
    using ops makeEntries_io [OF srt, of _ ops] by (auto simp: step_total_def ops_ok_def n_ops_makeEntries [OF srt])
  ultimately show ?thesis
    using equal_ok_fillDefault [OF assms(2)] ops by (simp add: history_ok_def n_ops_makeEntries [OF srt] ops_ok_def)
qed


section \<open>Linearizability of events\<close>

definition event_value :: "'v Event list \<Rightarrow> EventKind \<Rightarrow> int \<Rightarrow> 'v iface" where
  "event_value evs k i = (case event_at evs k i of p # _ \<Rightarrow> Value (evs ! p) | [] \<Rightarrow> None)"

definition event_io :: "'v Event list \<Rightarrow> int \<Rightarrow> 'v iface \<times> 'v iface" where
  "event_io evs i = (event_value evs CallEvent i, event_value evs ReturnEvent i)"

definition event_precedes :: "'v Event list \<Rightarrow> int \<Rightarrow> int \<Rightarrow> bool" where
  "event_precedes evs i j \<longleftrightarrow>
     (\<exists>x y. x < y \<and> y < length evs \<and> Kind (evs ! x) = ReturnEvent \<and> Id (evs ! x) = i
            \<and> Kind (evs ! y) = CallEvent \<and> Id (evs ! y) = j)"

definition events_linearization :: "('v, 's) Model \<Rightarrow> 'v Event list \<Rightarrow> int list \<Rightarrow> bool" where
  "events_linearization M evs p \<longleftrightarrow>
     distinct p \<and> set p = Id ` set evs \<and> (\<forall>x y. x < y \<and> y < length p \<longrightarrow> \<not> event_precedes evs (p ! y) (p ! x)) \<and>
     legal M (Init M) (map (event_io evs) p)"

definition events_linearizable :: "('v, 's) Model \<Rightarrow> 'v Event list \<Rightarrow> bool" where
  "events_linearizable M evs \<longleftrightarrow> (\<exists>p. events_linearization M evs p)"

text \<open>The renumbering map carries linearizations of the events to linearizations of the entries.\<close>

lemma convert_io:
  assumes "\<forall>p<length evs. es ! p = convert_entry (int p) ((evs ! p)\<lparr>Id := f (Id (evs ! p))\<rparr>)"
    and "\<forall>k. \<forall>j\<in>Id ` set evs. positions k (f j) es = event_at evs (event_kind k) j" and "j \<in> Id ` set evs"
  shows "op_io es (f j) = event_io evs j"
proof -
  have "value_at k es (f j) = event_value evs (event_kind k) j" for k
  proof -
    have "\<forall>p\<in>set (event_at evs (event_kind k) j). p < length evs" by (auto simp: event_at_def)
    then show ?thesis
      using assms(1) assms(2) [rule_format, OF assms(3), of k]
      by (auto simp: value_at_def event_value_def convert_entry_def split: list.splits)
  qed
  then show ?thesis by (simp add: op_io_def event_io_def event_kind_def)
qed

lemma convert_precedes:
  assumes "inj_on f (Id ` set evs)" and "length es = length evs"
    and nth: "\<forall>p<length evs. es ! p = convert_entry (int p) ((evs ! p)\<lparr>Id := f (Id (evs ! p))\<rparr>)"
    and ij: "i \<in> Id ` set evs" "j \<in> Id ` set evs"
  shows "precedes es (f i) (f j) \<longleftrightarrow> event_precedes evs i j"
proof -
  have conv: "(ekind (es ! x) = k \<and> eid (es ! x) = f l) \<longleftrightarrow> (Kind (evs ! x) = event_kind k \<and> Id (evs ! x) = l)"
    if "x < length evs" "l \<in> Id ` set evs" for x k l
  proof -
    have "f (Id (evs ! x)) = f l \<longleftrightarrow> Id (evs ! x) = l" using inj_on_eq_iff [OF assms(1)] that by simp
    then show ?thesis using nth that convert_entry_kind [of "int x" "(evs ! x)\<lparr>Id := f (Id (evs ! x))\<rparr>" k]
      by (simp add: convert_entry_def)
  qed
  have at: "(ekind (es ! x) = returnEntry \<and> eid (es ! x) = f i) \<longleftrightarrow> (Kind (evs ! x) = ReturnEvent \<and> Id (evs ! x) = i)"
    "(ekind (es ! y) = callEntry \<and> eid (es ! y) = f j) \<longleftrightarrow> (Kind (evs ! y) = CallEvent \<and> Id (evs ! y) = j)"
    if "x < y" "y < length evs" for x y
    using conv [of x i returnEntry] conv [of y j callEntry] that ij by (simp_all add: event_kind_def)
  have "precedes es (f i) (f j) \<longleftrightarrow> (\<exists>x y. x < y \<and> y < length evs \<and>
      (ekind (es ! x) = returnEntry \<and> eid (es ! x) = f i) \<and> (ekind (es ! y) = callEntry \<and> eid (es ! y) = f j))"
    unfolding precedes_def assms(2) by blast
  also have "\<dots> \<longleftrightarrow> (\<exists>x y. x < y \<and> y < length evs \<and>
      (Kind (evs ! x) = ReturnEvent \<and> Id (evs ! x) = i) \<and> (Kind (evs ! y) = CallEvent \<and> Id (evs ! y) = j))"
    using at by blast
  also have "\<dots> \<longleftrightarrow> event_precedes evs i j" unfolding event_precedes_def by blast
  finally show ?thesis .
qed

lemma linearizable_convert:
  assumes "complete_events evs"
  shows "linearizable M (convertEntries (renumber evs)) \<longleftrightarrow> events_linearizable M evs"
proof -
  let ?es = "convertEntries (renumber evs)" and ?I = "Id ` set evs"
  obtain f where f: "inj_on f ?I" "f ` ?I = {0..<n_ops ?es}" "length ?es = length evs"
    and nth: "\<forall>p<length evs. ?es ! p = convert_entry (int p) ((evs ! p)\<lparr>Id := f (Id (evs ! p))\<rparr>)"
    and pos: "\<forall>k. \<forall>j\<in>?I. positions k (f j) ?es = event_at evs (event_kind k) j"
    using convert_renumber [OF assms] by blast
  have key: "is_linearization M ?es (map f p) \<longleftrightarrow> events_linearization M evs p" if p: "set p \<subseteq> ?I" for p
  proof -
    have "distinct (map f p) \<longleftrightarrow> distinct p" using inj_on_subset [OF f(1) p] by (simp add: distinct_map)
    moreover have "set (map f p) = {0..<n_ops ?es} \<longleftrightarrow> set p = ?I"
      using inj_on_image_eq_iff [OF f(1) p order_refl] f(2) by simp
    moreover have "precedes ?es (map f p ! y) (map f p ! x) \<longleftrightarrow> event_precedes evs (p ! y) (p ! x)"
      if "x < y" "y < length p" for x y
      using convert_precedes [OF f(1,3) nth, of "p ! y" "p ! x"] that p by (simp add: subset_iff)
    then have "rt_respects ?es (map f p) \<longleftrightarrow> (\<forall>x y. x < y \<and> y < length p \<longrightarrow> \<not> event_precedes evs (p ! y) (p ! x))"
      by (auto simp: rt_respects_def)
    moreover have "map (op_io ?es) (map f p) = map (event_io evs) p"
      using convert_io [OF nth pos] p by auto
    ultimately show ?thesis unfolding is_linearization_def events_linearization_def by argo
  qed
  show ?thesis
    unfolding linearizable_def events_linearizable_def
  proof
    assume "\<exists>p. is_linearization M ?es p"
    then obtain q where q: "is_linearization M ?es q" ..
    then have sq: "set q = f ` ?I" using f(2) by (simp add: is_linearization_def)
    define p where "p = map (inv_into ?I f) q"
    have "map f p = q" unfolding p_def map_map comp_def
      by (rule map_idI, rule f_inv_into_f) (simp only: sq)
    moreover have "set p \<subseteq> ?I" by (auto simp: p_def sq intro: inv_into_into)
    ultimately have "events_linearization M evs p" using key q by metis
    then show "\<exists>p. events_linearization M evs p" ..
  next
    assume "\<exists>p. events_linearization M evs p"
    then obtain p where p: "events_linearization M evs p" ..
    moreover have "set p \<subseteq> ?I" using p by (simp add: events_linearization_def)
    ultimately show "\<exists>p. is_linearization M ?es p" using key by blast
  qed
qed

definition events_ok :: "('v, 's) Model \<Rightarrow> 'v Event list \<Rightarrow> bool" where
  "events_ok M evs \<longleftrightarrow> complete_events evs \<and> int (length evs) < 2 ^ 64 \<and>
     (\<forall>i\<in>Id ` set evs. \<forall>s. \<exists>ok s'. Step M s (fst (event_io evs i)) (snd (event_io evs i)) = Inr (ok, s'))"

lemma history_ok_convert:
  assumes "equal_contract M" and "events_ok M evs"
  shows "history_ok (fillDefault fv fs M) (convertEntries (renumber evs))"
proof -
  let ?es = "convertEntries (renumber evs)"
  from assms(2) have ce: "complete_events evs" by (simp add: events_ok_def)
  obtain f where f: "f ` (Id ` set evs) = {0..<n_ops ?es}" "length ?es = length evs"
    and nth: "\<forall>p<length evs. ?es ! p = convert_entry (int p) ((evs ! p)\<lparr>Id := f (Id (evs ! p))\<rparr>)"
    and pos: "\<forall>k. \<forall>j\<in>Id ` set evs. positions k (f j) ?es = event_at evs (event_kind k) j"
    using convert_renumber [OF ce] by blast
  have "step_total (fillDefault fv fs M) ?es"
    unfolding step_total_def
  proof (intro allI impI)
    fix i s assume "0 \<le> i \<and> i < n_ops ?es"
    then have "i \<in> f ` (Id ` set evs)" using f(1) by simp
    then obtain j where j: "j \<in> Id ` set evs" "i = f j" by blast
    have "\<exists>ok s'. Step M s (fst (event_io evs j)) (snd (event_io evs j)) = Inr (ok, s')"
      using assms(2) j(1) unfolding events_ok_def by blast
    with convert_io [OF nth pos j(1)] j(2)
    show "\<exists>ok s'. Step (fillDefault fv fs M) s (fst (op_io ?es i)) (snd (op_io ?es i)) = Inr (ok, s')" by simp
  qed
  moreover have "int (length evs) < 2 ^ 64" using assms(2) unfolding events_ok_def by blast
  then have "n_ops ?es < 2 ^ 64" unfolding n_ops_def f(2) by linarith
  ultimately show ?thesis
    using convertEntries_wf [OF ce] equal_ok_fillDefault [OF assms(1)] by (simp add: history_ok_def)
qed


section \<open>The entry points\<close>

text \<open>What the standard library and the run-time system promise: a sort, and maps iterated completely.\<close>

definition env_ok :: "('v, 's) env \<Rightarrow> bool" where
  "env_ok E \<longleftrightarrow> go_sort by_time_less (env_sort E) \<and> (\<forall>xs. set (env_iter E xs) = set xs)"

lemma time_sort_go_sort: "go_sort by_time_less (sort_key etime)"
  unfolding by_time_less_def [abs_def] by (rule sort_key_go_sort)

definition partitions_of :: "('v, 's) Model \<Rightarrow> 'v Operation list \<Rightarrow> 'v Operation list list res" where
  "partitions_of M ops = (case Partition M of None \<Rightarrow> Inr [ops] | Some f \<Rightarrow> f ops)"

definition event_partitions_of :: "('v, 's) Model \<Rightarrow> 'v Event list \<Rightarrow> 'v Event list list res" where
  "event_partitions_of M evs = (case PartitionEvent M of None \<Rightarrow> Inr [evs] | Some f \<Rightarrow> f evs)"

lemma checkOperations_unfold:
  "checkOperations E M ops verbose timeout =
     (case partitions_of M ops of Inl f \<Rightarrow> Some (Inl f)
      | Inr ps \<Rightarrow> checkParallel (fillDefault (env_fmtv E) (env_fmts E) M) (map (makeEntries (env_sort E)) ps) verbose timeout
                   (env_iter E) (env_sched E))"
  by (simp add: checkOperations_def partitions_of_def Let_def NoPartition_def split: option.splits)

lemma checkEvents_unfold:
  "checkEvents E M evs verbose timeout =
     (case event_partitions_of M evs of Inl f \<Rightarrow> Some (Inl f)
      | Inr ps \<Rightarrow> checkParallel (fillDefault (env_fmtv E) (env_fmts E) M) (map (\<lambda>q. convertEntries (renumber q)) ps) verbose timeout
                   (env_iter E) (env_sched E))"
  by (simp add: checkEvents_def event_partitions_of_def Let_def NoPartitionEvent_def split: option.splits)

definition verdict_ok :: "bool \<Rightarrow> int \<Rightarrow> CheckResult \<Rightarrow> bool" where
  "verdict_ok good timeout r \<longleftrightarrow> (r = Ok \<longrightarrow> good) \<and> (r = Illegal \<longrightarrow> \<not> good) \<and> (r = Unknown \<longrightarrow> timeout > 0)"

lemma verdict_ok_no_timeout: "verdict_ok good 0 r \<Longrightarrow> (r = Ok) = good"
  by (cases r) (auto simp: verdict_ok_def)

lemma checkOperations_verdict:
  assumes E: "env_ok E" and eq: "equal_contract M" and ps: "partitions_of M ops = Inr ps"
    and ok: "\<forall>q\<in>set ps. ops_ok M q \<and> no_ties q" and run: "checkOperations E M ops verbose timeout = Some out"
  shows "\<exists>r info. out = Inr (r, info) \<and> verdict_ok (\<forall>q\<in>set ps. ops_linearizable M q) timeout r \<and>
           info_ok (fillDefault (env_fmtv E) (env_fmts E) M) (map (makeEntries (env_sort E)) ps) verbose info"
proof -
  let ?M = "fillDefault (env_fmtv E) (env_fmts E) M"
  have srt: "go_sort by_time_less (env_sort E)" and iter: "\<forall>xs. set (env_iter E xs) = set xs"
    using E by (simp_all add: env_ok_def)
  have "\<forall>es\<in>set (map (makeEntries (env_sort E)) ps). history_ok ?M es"
    using history_ok_makeEntries [OF srt eq] ok by simp
  moreover have "(\<forall>es\<in>set (map (makeEntries (env_sort E)) ps). linearizable ?M es) \<longleftrightarrow> (\<forall>q\<in>set ps. ops_linearizable M q)"
    using linearizable_makeEntries(2) [OF srt] ok by auto
  moreover have "checkParallel ?M (map (makeEntries (env_sort E)) ps) verbose timeout (env_iter E) (env_sched E) = Some out"
    using run ps by (simp add: checkOperations_unfold)
  ultimately show ?thesis
    using checkParallel_sound [OF _ iter, of "map (makeEntries (env_sort E)) ps" ?M verbose timeout "env_sched E" out]
    unfolding verdict_ok_def by auto
qed

lemma checkEvents_verdict:
  assumes E: "env_ok E" and eq: "equal_contract M" and ps: "event_partitions_of M evs = Inr ps"
    and ok: "\<forall>q\<in>set ps. events_ok M q" and run: "checkEvents E M evs verbose timeout = Some out"
  shows "\<exists>r info. out = Inr (r, info) \<and> verdict_ok (\<forall>q\<in>set ps. events_linearizable M q) timeout r \<and>
           info_ok (fillDefault (env_fmtv E) (env_fmts E) M) (map (\<lambda>q. convertEntries (renumber q)) ps) verbose info"
proof -
  let ?M = "fillDefault (env_fmtv E) (env_fmts E) M"
  have iter: "\<forall>xs. set (env_iter E xs) = set xs" using E by (simp add: env_ok_def)
  have "\<forall>es\<in>set (map (\<lambda>q. convertEntries (renumber q)) ps). history_ok ?M es"
    using history_ok_convert [OF eq] ok by simp
  moreover have "(\<forall>es\<in>set (map (\<lambda>q. convertEntries (renumber q)) ps). linearizable ?M es) \<longleftrightarrow> (\<forall>q\<in>set ps. events_linearizable M q)"
  proof -
    have "\<forall>q\<in>set ps. complete_events q" using ok by (simp add: events_ok_def)
    then show ?thesis using linearizable_convert by auto
  qed
  moreover have "checkParallel ?M (map (\<lambda>q. convertEntries (renumber q)) ps) verbose timeout (env_iter E) (env_sched E) = Some out"
    using run ps by (simp add: checkEvents_unfold)
  ultimately show ?thesis
    using checkParallel_sound [OF _ iter, of "map (\<lambda>q. convertEntries (renumber q)) ps" ?M verbose timeout "env_sched E" out]
    unfolding verdict_ok_def by auto
qed

end
