(* ===== verification/KvStore.thy ===== *)
theory KvStore
  imports CheckApi "HOL-Library.List_Lexorder" "HOL-Library.Char_ord"
begin

text \<open>
  The model of \<^verbatim>\<open>models/kv.go\<close>: a history of get, put and append operations is partitioned by key and
  every partition is checked against a single string.

  The contract that \<^verbatim>\<open>porcupine/model.go\<close> asks of \<open>Partition\<close>, that a history is linearizable if and
  only if each partition is, is proved against \<open>StoreModel\<close>, the key-value store with all its keys:
  \<open>kv_partition_linearizable\<close>.  Values of other dynamic types are \<open>Other\<close>; type assertions on them
  panic.
\<close>

section \<open>Definitions\<close>

record KvInput =
  Op :: "8 word"
  Key :: string
  InValue :: string

record KvOutput =
  OutValue :: string

datatype kv_value = IsInput KvInput | IsOutput KvOutput | Other nat

definition as_KvInput :: "kv_value iface \<Rightarrow> KvInput res" where
  "as_KvInput v = (case v of Some (IsInput i) \<Rightarrow> Inr i | _ \<Rightarrow> Inl TypeAssertion)"

definition as_KvOutput :: "kv_value iface \<Rightarrow> KvOutput res" where
  "as_KvOutput v = (case v of Some (IsOutput out) \<Rightarrow> Inr out | _ \<Rightarrow> Inl TypeAssertion)"

text \<open>The map \<open>m\<close> from keys to operations, as an association list in the order of first insertion.\<close>

fun group_add :: "string \<Rightarrow> 'a \<Rightarrow> (string \<times> 'a list) list \<Rightarrow> (string \<times> 'a list) list" where
  "group_add k v [] = [(k, [v])]"
| "group_add k v ((k', vs) # m) = (if k = k' then (k', vs @ [v]) # m else (k', vs) # group_add k v m)"

fun kv_group :: "(string \<times> kv_value Operation list) list \<Rightarrow> kv_value Operation list
    \<Rightarrow> (string \<times> kv_value Operation list) list res" where
  "kv_group m [] = Inr m"
| "kv_group m (v # history) = rbind (as_KvInput (Input v)) (\<lambda>inp. kv_group (group_add (Key inp) v m) history)"

definition kv_partition :: "kv_value Operation list \<Rightarrow> kv_value Operation list list res" where
  "kv_partition history =
     rbind (kv_group [] history) (\<lambda>m.
     let keys = sort (map fst m)
     in Inr (map (\<lambda>k. case map_of m k of Some ops \<Rightarrow> ops | None \<Rightarrow> []) keys))"

definition kv_step :: "string \<Rightarrow> kv_value iface \<Rightarrow> kv_value iface \<Rightarrow> (bool \<times> string) res" where
  "kv_step st inp0 out0 =
     rbind (as_KvInput inp0) (\<lambda>inp.
     rbind (as_KvOutput out0) (\<lambda>out.
     if Op inp = 0 then Inr (OutValue out = st, st)
     else if Op inp = 1 then Inr (True, InValue inp)
     else Inr (True, st @ InValue inp)))"

definition kv_describe :: "kv_value iface \<Rightarrow> kv_value iface \<Rightarrow> string res" where
  "kv_describe inp0 out0 =
     rbind (as_KvInput inp0) (\<lambda>inp.
     rbind (as_KvOutput out0) (\<lambda>out.
     Inr (if Op inp = 0 then ''get('' @ [CHR 0x27] @ Key inp @ [CHR 0x27] @ '') -> '' @ [CHR 0x27] @ OutValue out @ [CHR 0x27]
          else if Op inp = 1 then ''put('' @ [CHR 0x27] @ Key inp @ [CHR 0x27] @ '', '' @ [CHR 0x27] @ InValue inp @ [CHR 0x27] @ '')''
          else if Op inp = 2 then ''append('' @ [CHR 0x27] @ Key inp @ [CHR 0x27] @ '', '' @ [CHR 0x27] @ InValue inp @ [CHR 0x27] @ '')''
          else ''<invalid>'')))"

definition KvModel :: "(kv_value, string) Model" where
  "KvModel = \<lparr>Partition = Some kv_partition, PartitionEvent = None, Init = [], Step = kv_step, Equal = None,
     DescribeOperation = Some kv_describe, DescribeState = None\<rparr>"

section \<open>Specification: the store with all keys\<close>

text \<open>
  What the operations do to a store: a get shows the key's value, a put replaces it, an append (every other
  code) extends it.
\<close>

definition store_step :: "(string \<Rightarrow> string) \<Rightarrow> kv_value iface \<Rightarrow> kv_value iface \<Rightarrow> (bool \<times> (string \<Rightarrow> string)) res" where
  "store_step st inp0 out0 =
     rbind (as_KvInput inp0) (\<lambda>inp.
     rbind (as_KvOutput out0) (\<lambda>out.
     Inr (if Op inp = 0
          then (OutValue out = st (Key inp), st)
          else (True, st(Key inp := (if Op inp = 1 then InValue inp else st (Key inp) @ InValue inp))))))"

definition StoreModel :: "(kv_value, string \<Rightarrow> string) Model" where
  "StoreModel = \<lparr>Partition = None, PartitionEvent = None, Init = (\<lambda>_. []), Step = store_step, Equal = None,
     DescribeOperation = Some kv_describe, DescribeState = None\<rparr>"

text \<open>Operations the test clients record: inputs and outputs of the right types, call before return.\<close>

definition kv_op :: "kv_value Operation \<Rightarrow> bool" where
  "kv_op op \<longleftrightarrow> (case (Input op, Output op) of (Some (IsInput _), Some (IsOutput _)) \<Rightarrow> Call op < Return op | _ \<Rightarrow> False)"

definition op_key :: "kv_value Operation \<Rightarrow> string" where
  "op_key op = (case Input op of Some (IsInput i) \<Rightarrow> Key i | _ \<Rightarrow> [])"

lemma kv_opE:
  assumes "kv_op op"
  obtains i out where "Input op = Some (IsInput i)" "Output op = Some (IsOutput out)" "op_key op = Key i" "Call op < Return op"
  using assms by (auto simp: kv_op_def op_key_def split: option.splits kv_value.splits)

section \<open>Partitioning\<close>

lemma group_add_keys: "fst ` set (group_add k v m) = insert k (fst ` set m)"
proof (induction k v m rule: group_add.induct)
  case (2 k v k' vs m)
  then show ?case by (cases "k = k'") (simp_all add: insert_commute)
qed simp

lemma group_add_distinct: "distinct (map fst m) \<Longrightarrow> distinct (map fst (group_add k v m))"
  by (induction k v m rule: group_add.induct) (simp_all add: group_add_keys)

lemma group_add_lookup:
  "map_of (group_add k v m) k' = (if k' = k then Some ((case map_of m k of Some vs \<Rightarrow> vs | None \<Rightarrow> []) @ [v]) else map_of m k')"
  by (induction m) auto

lemma kv_group_result:
  assumes "\<forall>op\<in>set ops. kv_op op" and "distinct (map fst m)"
  shows "\<exists>m'. kv_group m ops = Inr m' \<and> distinct (map fst m') \<and> set (map fst m') = set (map fst m) \<union> op_key ` set ops \<and>
     (\<forall>k. (case map_of m' k of Some vs \<Rightarrow> vs | None \<Rightarrow> []) = (case map_of m k of Some vs \<Rightarrow> vs | None \<Rightarrow> []) @ filter (\<lambda>op. op_key op = k) ops)"
  using assms
proof (induction ops arbitrary: m)
  case Nil
  then show ?case by simp
next
  case (Cons op ops)
  then obtain i where i: "Input op = Some (IsInput i)" "op_key op = Key i" by (auto elim: kv_opE)
  from Cons.IH [of "group_add (Key i) op m"] Cons.prems group_add_distinct obtain m' where
    IH: "kv_group (group_add (Key i) op m) ops = Inr m'" "distinct (map fst m')"
      "set (map fst m') = set (map fst (group_add (Key i) op m)) \<union> op_key ` set ops"
      "\<forall>k. (case map_of m' k of Some vs \<Rightarrow> vs | None \<Rightarrow> []) =
         (case map_of (group_add (Key i) op m) k of Some vs \<Rightarrow> vs | None \<Rightarrow> []) @ filter (\<lambda>op. op_key op = k) ops"
    by fastforce
  have "set (map fst m') = set (map fst m) \<union> op_key ` set (op # ops)"
    using IH(3) group_add_keys [of "Key i" op m] i(2) by simp
  moreover have "\<forall>k. (case map_of m' k of Some vs \<Rightarrow> vs | None \<Rightarrow> []) =
      (case map_of m k of Some vs \<Rightarrow> vs | None \<Rightarrow> []) @ filter (\<lambda>op. op_key op = k) (op # ops)"
    unfolding IH(4) [rule_format] group_add_lookup using i(2) by (auto split: option.splits)
  ultimately show ?case using IH(1,2) i(1) by (simp add: as_KvInput_def)
qed

text \<open>One partition per key, in ascending key order, each with the operations of its key in their order.\<close>

lemma kv_partition_result:
  assumes "\<forall>op\<in>set ops. kv_op op"
  shows "kv_partition ops = Inr (map (\<lambda>k. filter (\<lambda>op. op_key op = k) ops) (sorted_list_of_set (op_key ` set ops)))"
proof -
  from kv_group_result [OF assms, of "[]"] obtain m where m: "kv_group [] ops = Inr m" "distinct (map fst m)"
      "set (map fst m) = op_key ` set ops"
      "\<And>k. (case map_of m k of Some vs \<Rightarrow> vs | None \<Rightarrow> []) = filter (\<lambda>op. op_key op = k) ops" by auto
  have "sort (map fst m) = sorted_list_of_set (set (map fst m))"
    using m(2) by (metis sorted_list_of_set_sort_remdups distinct_remdups_id)
  then show ?thesis unfolding kv_partition_def m(1) m(3) rbind_Inr Let_def m(4) by simp
qed


section \<open>Legal sequences, key by key\<close>

lemma store_step_kv:
  assumes "kv_op op"
  shows "store_step st (Input op) (Output op) =
     rbind (kv_step (st (op_key op)) (Input op) (Output op)) (\<lambda>(ok, v). Inr (ok, st(op_key op := v)))"
  using assms by (auto simp: store_step_def kv_step_def as_KvInput_def as_KvOutput_def elim!: kv_opE)

lemma kv_step_total:
  assumes "kv_op op"
  shows "\<exists>ok v. kv_step s (Input op) (Output op) = Inr (ok, v)"
  using assms by (auto simp: kv_step_def as_KvInput_def as_KvOutput_def elim!: kv_opE)

lemma legal_StoreModel:
  assumes "\<forall>op\<in>set qs. kv_op op"
  shows "legal StoreModel st (map io_of qs) \<longleftrightarrow>
     (\<forall>k. legal KvModel (st k) (map io_of (filter (\<lambda>op. op_key op = k) qs)))"
  using assms
proof (induction qs arbitrary: st)
  case Nil
  then show ?case by simp
next
  case (Cons op qs)
  let ?k = "op_key op"
  let ?rest = "\<lambda>k. map io_of (filter (\<lambda>op. op_key op = k) qs)"
  obtain ok v where s: "kv_step (st ?k) (Input op) (Output op) = Inr (ok, v)" using kv_step_total Cons.prems by (meson list.set_intros(1))
  have "Step StoreModel st (Input op) (Output op) = Inr (ok, st(?k := v))"
    using store_step_kv [of op st] s Cons.prems by (simp add: StoreModel_def)
  then have l: "legal StoreModel st (map io_of (op # qs)) \<longleftrightarrow> ok \<and> legal StoreModel (st(?k := v)) (map io_of qs)"
    by (cases ok) simp_all
  have r: "legal KvModel (st ?k) (map io_of (filter (\<lambda>x. op_key x = ?k) (op # qs))) \<longleftrightarrow> ok \<and> legal KvModel v (?rest ?k)"
    using s by (cases ok) (simp_all add: KvModel_def)
  have "legal StoreModel st (map io_of (op # qs)) \<longleftrightarrow> ok \<and> (\<forall>k. legal KvModel ((st(?k := v)) k) (?rest k))"
    using l Cons.IH [of "st(?k := v)"] Cons.prems by simp
  also have "\<dots> \<longleftrightarrow> (ok \<and> legal KvModel v (?rest ?k)) \<and> (\<forall>k. k \<noteq> ?k \<longrightarrow> legal KvModel (st k) (?rest k))"
    by (auto split: if_splits)
  also have "\<dots> \<longleftrightarrow> (\<forall>k. legal KvModel (st k) (map io_of (filter (\<lambda>x. op_key x = k) (op # qs))))"
    using r by auto
  finally show ?case .
qed

lemma kv_inits: "Init StoreModel = (\<lambda>_. [])" "Init KvModel = []" "Step KvModel = kv_step" "Equal KvModel = None"
  "Partition KvModel = Some kv_partition"
  by (simp_all add: StoreModel_def KvModel_def)

section \<open>Locality\<close>

text \<open>
  Linearization points: along an arranged sequence, the running maximum of the call times lies
  between the call and the return of every operation.  Sorting all operations by their points merges
  arrangements of the keys into an arrangement of the whole history.
\<close>

fun points :: "int \<Rightarrow> 'v Operation list \<Rightarrow> (int \<times> 'v Operation) list" where
  "points c [] = []"
| "points c (op # ops) = (max c (Call op), op) # points (max c (Call op)) ops"

lemma points_snd [simp]: "map snd (points c qs) = qs"
  by (induction c qs rule: points.induct) simp_all

lemma points_mono: "sorted (map fst (points c qs)) \<and> (\<forall>(x, op)\<in>set (points c qs). c \<le> x \<and> Call op \<le> x)"
proof (induction c qs rule: points.induct)
  case (2 c op ops)
  then show ?case by (fastforce simp: split_beta)
qed simp

lemma points_return:
  assumes "arranged qs" and "\<forall>op\<in>set qs. Call op < Return op" and "\<forall>op\<in>set qs. c \<le> Return op"
  shows "\<forall>(x, op)\<in>set (points c qs). x \<le> Return op"
  using assms
proof (induction c qs rule: points.induct)
  case (2 c op ops)
  then have "\<forall>(x, y)\<in>set (points (max c (Call op)) ops). x \<le> Return y"
    by (auto simp: arranged_def not_less)
  with 2 show ?case by auto
qed simp

lemma arranged_filter: "arranged qs \<Longrightarrow> arranged (filter P qs)"
  by (simp add: arranged_def sorted_wrt_filter)

lemma arranged_points:
  assumes "sorted (map fst xs)" and "\<forall>(x, op)\<in>set xs. Call op \<le> x \<and> x \<le> Return op"
  shows "arranged (map snd xs)"
  using assms
proof (induction xs)
  case (Cons a xs)
  obtain x op where a: "a = (x, op)" by (cases a)
  from Cons.IH Cons.prems have IH: "arranged (map snd xs)" by auto
  have "\<not> Return op' < Call op" if "op' \<in> set (map snd xs)" for op'
  proof -
    from that obtain x' where "(x', op') \<in> set xs" by auto
    moreover from this Cons.prems a have "x \<le> x'" by force
    ultimately show ?thesis using Cons.prems(2) a by fastforce
  qed
  with IH a show ?case by (simp add: arranged_def)
qed (simp add: arranged_def)


lemma mset_concat_keys:
  assumes "distinct K" and "\<forall>x\<in>set xs. g x \<in> set K"
  shows "mset (concat (map (\<lambda>k. filter (\<lambda>x. g x = k) xs) K)) = mset xs"
  using assms
proof (induction K arbitrary: xs)
  case (Cons k K)
  let ?ys = "filter (\<lambda>x. g x \<noteq> k) xs"
  have eq: "map (\<lambda>k. filter (\<lambda>x. g x = k) xs) K = map (\<lambda>k. filter (\<lambda>x. g x = k) ?ys) K"
    using Cons.prems(1) by (auto simp: filter_filter intro!: filter_cong)
  have IH: "mset (concat (map (\<lambda>k. filter (\<lambda>x. g x = k) ?ys) K)) = mset ?ys"
    using Cons.prems by (intro Cons.IH) auto
  show ?case
    unfolding list.map concat.simps eq mset_append IH mset_filter by (rule multiset_partition [symmetric])
qed simp

lemma filter_concat_keys:
  assumes "distinct K" and "\<And>k. k \<in> set K \<Longrightarrow> \<forall>x\<in>set (f k). g x = k"
  shows "filter (\<lambda>x. g x = k) (concat (map f K)) = (if k \<in> set K then f k else [])"
  using assms
proof (induction K)
  case (Cons k' K)
  then have IH: "filter (\<lambda>x. g x = k) (concat (map f K)) = (if k \<in> set K then f k else [])" by simp
  have "\<forall>x\<in>set (f k'). g x = k'" using Cons.prems(2) by simp
  then have "filter (\<lambda>x. g x = k) (f k') = (if k = k' then f k' else [])"
    by (auto simp: filter_id_conv filter_empty_conv)
  with IH Cons.prems(1) show ?case by auto
qed simp

text \<open>Arrangements of all keys merge into one arrangement that restricts to each of them.\<close>

lemma merge_arrangements:
  assumes ops: "\<forall>op\<in>set ops. Call op < Return op" and K: "distinct K" "\<forall>op\<in>set ops. g op \<in> set K"
    and q: "\<And>k. k \<in> set K \<Longrightarrow> mset (q k) = mset (filter (\<lambda>op. g op = k) ops) \<and> arranged (q k)"
  shows "\<exists>qs. mset qs = mset ops \<and> arranged qs \<and>
           (\<forall>k. filter (\<lambda>op. g op = k) qs = (if k \<in> set K then q k else []))"
proof -
  define c where "c = Min (insert 0 (Return ` set ops))"
  have c: "c \<le> Return op" if "op \<in> set ops" for op using that by (simp add: c_def)
  have set_q: "set (q k) \<subseteq> {op \<in> set ops. g op = k}" if "k \<in> set K" for k
  proof -
    have "set (q k) = set (filter (\<lambda>op. g op = k) ops)" using q [OF that] mset_eq_setD by blast
    then show ?thesis by simp
  qed
  let ?all = "concat (map (\<lambda>k. points c (q k)) K)"
  let ?qs = "map snd (sort_key fst ?all)"
  have "map snd ?all = concat (map q K)" by (simp add: map_concat comp_def)
  then have "mset ?qs = mset (concat (map q K))" by (metis mset_map mset_sort)
  also have "\<dots> = mset (concat (map (\<lambda>k. filter (\<lambda>op. g op = k) ops) K))"
    using q by (simp add: mset_concat comp_def cong: map_cong)
  also have "\<dots> = mset ops" by (rule mset_concat_keys [OF K])
  finally have ms: "mset ?qs = mset ops" .
  have "Call op \<le> x \<and> x \<le> Return op" if "(x, op) \<in> set (points c (q k))" "k \<in> set K" for x op k
  proof
    show "Call op \<le> x" using points_mono [of c "q k"] that(1) by fastforce
    have "\<forall>op\<in>set (q k). Call op < Return op" "\<forall>op\<in>set (q k). c \<le> Return op"
      using set_q [OF that(2)] ops c by auto
    then show "x \<le> Return op" using points_return [of "q k" c] q [OF that(2)] that(1) by fastforce
  qed
  then have "\<forall>(x, op)\<in>set (sort_key fst ?all). Call op \<le> x \<and> x \<le> Return op" by auto
  then have ar: "arranged ?qs" by (intro arranged_points) simp_all
  have "filter (\<lambda>op. g op = k) ?qs = (if k \<in> set K then q k else [])" for k
  proof -
    have gk: "\<forall>x\<in>set (points c (q k)). g (snd x) = k" if "k \<in> set K" for k
    proof
      fix x assume "x \<in> set (points c (q k))"
      then have "snd x \<in> set (q k)" by (metis image_eqI points_snd set_map)
      then show "g (snd x) = k" using set_q [OF that] by auto
    qed
    have "filter (\<lambda>op. g op = k) ?qs = map snd (sort_key fst (filter (\<lambda>x. g (snd x) = k) ?all))"
      by (simp add: filter_map comp_def filter_sort)
    also have "\<dots> = map snd (sort_key fst (if k \<in> set K then points c (q k) else []))"
      using filter_concat_keys [OF K(1), of "\<lambda>k. points c (q k)" "\<lambda>x. g (snd x)" k] gk by simp
    also have "\<dots> = (if k \<in> set K then q k else [])"
      using points_mono [of c "q k"] by (simp add: sort_key_id_if_sorted)
    finally show ?thesis .
  qed
  with ms ar show ?thesis by blast
qed

lemma kv_locality:
  assumes ops: "\<forall>op\<in>set ops. kv_op op"
  shows "ops_linearizable StoreModel ops \<longleftrightarrow> (\<forall>k\<in>op_key ` set ops. ops_linearizable KvModel (filter (\<lambda>op. op_key op = k) ops))"
proof
  assume "ops_linearizable StoreModel ops"
  then obtain qs where qs: "mset qs = mset ops" "arranged qs" "legal StoreModel (Init StoreModel) (map io_of qs)"
    unfolding ops_linearizable_arranged by blast
  have "\<forall>op\<in>set qs. kv_op op" using ops mset_eq_setD [OF qs(1)] by simp
  from legal_StoreModel [OF this] qs(3) have "legal KvModel (Init KvModel) (map io_of (filter (\<lambda>op. op_key op = k) qs))" for k
    by (auto simp: StoreModel_def KvModel_def)
  moreover have "mset (filter (\<lambda>op. op_key op = k) qs) = mset (filter (\<lambda>op. op_key op = k) ops)" for k by (simp add: qs(1))
  ultimately show "\<forall>k\<in>op_key ` set ops. ops_linearizable KvModel (filter (\<lambda>op. op_key op = k) ops)"
    unfolding ops_linearizable_arranged using arranged_filter [OF qs(2)] by blast
next
  assume parts: "\<forall>k\<in>op_key ` set ops. ops_linearizable KvModel (filter (\<lambda>op. op_key op = k) ops)"
  let ?K = "sorted_list_of_set (op_key ` set ops)"
  have "\<forall>k\<in>set ?K. \<exists>qs. mset qs = mset (filter (\<lambda>op. op_key op = k) ops) \<and> arranged qs
      \<and> legal KvModel (Init KvModel) (map io_of qs)"
    using parts unfolding ops_linearizable_arranged by simp
  from bchoice [OF this] obtain q where q: "\<forall>k\<in>set ?K. mset (q k) = mset (filter (\<lambda>op. op_key op = k) ops) \<and> arranged (q k)
      \<and> legal KvModel (Init KvModel) (map io_of (q k))" by blast
  have "\<forall>op\<in>set ops. Call op < Return op" using ops by (auto elim: kv_opE)
  from merge_arrangements [OF this, of ?K op_key q] q obtain qs where qs: "mset qs = mset ops" "arranged qs"
    "\<And>k. filter (\<lambda>op. op_key op = k) qs = (if k \<in> set ?K then q k else [])" by auto
  have "\<forall>op\<in>set qs. kv_op op" using ops mset_eq_setD [OF qs(1)] by simp
  moreover have "legal KvModel [] (map io_of (filter (\<lambda>op. op_key op = k) qs))" for k
    using q qs(3) [of k] by (auto simp: kv_inits)
  ultimately have "legal StoreModel (Init StoreModel) (map io_of qs)"
    using legal_StoreModel [of qs "\<lambda>_. []"] by (simp add: kv_inits)
  with qs(1,2) show "ops_linearizable StoreModel ops" unfolding ops_linearizable_arranged by blast
qed


section \<open>Checking histories of the key-value store\<close>

lemma kv_partitions:
  assumes "\<forall>op\<in>set ops. kv_op op"
  shows "partitions_of KvModel ops = Inr (map (\<lambda>k. filter (\<lambda>op. op_key op = k) ops) (sorted_list_of_set (op_key ` set ops)))"
  using kv_partition_result [OF assms] by (simp add: partitions_of_def kv_inits)

lemma kv_equal_contract: "equal_contract KvModel"
  by (simp add: equal_contract_def kv_inits)

lemma kv_ops_ok:
  assumes "\<forall>op\<in>set ops. kv_op op" and "length ops < 2 ^ 64"
  shows "ops_ok KvModel (filter P ops)"
proof -
  have "length (filter P ops) < 2 ^ 64" using assms(2) length_filter_le [of P ops] by linarith
  then show ?thesis
    using assms(1) kv_step_total by (auto simp: ops_ok_def kv_inits elim: kv_opE)
qed

lemma no_ties_filter: "no_ties ops \<Longrightarrow> no_ties (filter P ops)"
  by (auto simp: no_ties_def list_all_iff)

lemma kv_check_verdict:
  assumes E: "env_ok E" and ops: "\<forall>op\<in>set ops. kv_op op" "no_ties ops" "length ops < 2 ^ 64"
    and run: "checkOperations E KvModel ops verbose timeout = Some out"
  shows "\<exists>r info. out = Inr (r, info) \<and> verdict_ok (ops_linearizable StoreModel ops) timeout r"
proof -
  let ?ps = "map (\<lambda>k. filter (\<lambda>op. op_key op = k) ops) (sorted_list_of_set (op_key ` set ops))"
  have "\<forall>q\<in>set ?ps. ops_ok KvModel q \<and> no_ties q"
    using kv_ops_ok [OF ops(1,3)] no_ties_filter [OF ops(2)] by auto
  from checkOperations_verdict [OF E kv_equal_contract kv_partitions [OF ops(1)] this run]
  show ?thesis using kv_locality [OF ops(1)] by auto
qed


lemma kv_check_completes:
  assumes E: "env_ok E" and ops: "\<forall>op\<in>set ops. kv_op op" "length ops < 2 ^ 64" and "ops \<noteq> []"
  shows "\<exists>sched out. checkOperations (E\<lparr>env_sched := sched\<rparr>) KvModel ops verbose timeout = Some (Inr out)"
proof -
  let ?M = "fillDefault (env_fmtv E) (env_fmts E) KvModel"
  let ?ps = "map (\<lambda>k. filter (\<lambda>op. op_key op = k) ops) (sorted_list_of_set (op_key ` set ops))"
  let ?hs = "map (makeEntries (env_sort E)) ?ps"
  have srt: "go_sort by_time_less (env_sort E)" using E by (simp add: env_ok_def)
  have ok: "\<forall>es\<in>set ?hs. history_ok ?M es"
    using kv_ops_ok [OF ops(1,2)] history_ok_makeEntries [OF srt kv_equal_contract] by auto
  have "sorted_list_of_set (op_key ` set ops) \<noteq> []" using assms(4) by (metis List.finite_set finite_imageI image_is_empty set_empty set_sorted_list_of_set)
  then have ne: "?hs \<noteq> [] \<or> timeout > 0" by simp
  obtain sched r info where "checkParallel ?M ?hs verbose timeout (env_iter E) sched = Some (Inr (r, info))"
    using checkParallel_completes [OF ok ne, of verbose "env_iter E" "[]"] by auto
  then show ?thesis by (intro exI [of _ sched]) (simp add: checkOperations_unfold kv_partitions [OF ops(1)])
qed

end
