(* ===== verification/Visualization.thy ===== *)
theory Visualization
  imports CheckApi
begin

text \<open>
  \<open>computeVisualizationData\<close> of \<^verbatim>\<open>porcupine/visualization.go\<close>.  The slice and map accesses are checked,
  the panic on a rejected step is a value; \<open>viz_no_panic\<close> shows that on what the checker returns none
  of them happens.  \<open>sort.Slice\<close> reorders the caller's slices in place, so the updated info is returned
  as well.
\<close>

section \<open>Definitions\<close>

record historyElement =
  HClientId :: int
  Start :: int
  End :: int
  Description :: string

record linearizationStep =
  Index :: int
  StateDescription :: string

record partitionVisualizationData =
  VHistory :: "historyElement list"
  VPartials :: "linearizationStep list list"
  Largest :: "int \<Rightarrow> int option"

definition call_describe :: "('v, 's) Model \<Rightarrow> 'v iface \<Rightarrow> 'v iface \<Rightarrow> string res" where
  "call_describe M inp out = (case DescribeOperation M of None \<Rightarrow> Inl NilDeref | Some f \<Rightarrow> f inp out)"

definition call_describe_state :: "('v, 's) Model \<Rightarrow> 's \<Rightarrow> string res" where
  "call_describe_state M s = (case DescribeState M of None \<Rightarrow> Inl NilDeref | Some f \<Rightarrow> Inr (f s))"

text \<open>The loop over the entries of one partition; a missing map entry reads as nil.\<close>

fun viz_history :: "('v, 's) Model \<Rightarrow> historyElement list \<Rightarrow> (int \<Rightarrow> 'v iface) \<Rightarrow> (int \<Rightarrow> 'v iface) \<Rightarrow> 'v entry list
    \<Rightarrow> (historyElement list \<times> (int \<Rightarrow> 'v iface) \<times> (int \<Rightarrow> 'v iface)) res" where
  "viz_history M history callValue returnValue [] = Inr (history, callValue, returnValue)"
| "viz_history M history callValue returnValue (elem # others) =
     (case ekind elem of
        callEntry \<Rightarrow>
          rbind (slice_get history (eid elem)) (\<lambda>h.
          rbind (slice_set history (eid elem) (h\<lparr>HClientId := eclientId elem, Start := etime elem\<rparr>)) (\<lambda>history'.
          viz_history M history' (callValue(eid elem := evalue elem)) returnValue others))
      | returnEntry \<Rightarrow>
          rbind (slice_get history (eid elem)) (\<lambda>h.
          rbind (call_describe M (callValue (eid elem)) (evalue elem)) (\<lambda>descr.
          rbind (slice_set history (eid elem) (h\<lparr>End := etime elem, Description := descr\<rparr>)) (\<lambda>history'.
          viz_history M history' callValue (returnValue(eid elem := evalue elem)) others))))"

text \<open>The loop over one partial linearization; \<open>i\<close> is its index and \<open>n\<close> its length.\<close>

fun viz_steps :: "('v, 's) Model \<Rightarrow> (int \<Rightarrow> 'v iface) \<Rightarrow> (int \<Rightarrow> 'v iface) \<Rightarrow> int \<Rightarrow> int \<Rightarrow> 's
    \<Rightarrow> (int \<Rightarrow> int) \<Rightarrow> (int \<Rightarrow> int option) \<Rightarrow> int list \<Rightarrow> (linearizationStep list \<times> (int \<Rightarrow> int) \<times> (int \<Rightarrow> int option)) res" where
  "viz_steps M callValue returnValue i n state largestSize largestIndex [] = Inr ([], largestSize, largestIndex)"
| "viz_steps M callValue returnValue i n state largestSize largestIndex (histId # others) =
     rbind (Step M state (callValue histId) (returnValue histId)) (\<lambda>(ok, state').
     if \<not> ok then Inl (Panic ''valid partial linearization returned non-ok result from model step'')
     else
       rbind (call_describe_state M state') (\<lambda>stateDesc.
       let upd = largestSize histId < n;
           largestSize' = (if upd then largestSize(histId := n) else largestSize);
           largestIndex' = (if upd then largestIndex(histId \<mapsto> i) else largestIndex)
       in rbind (viz_steps M callValue returnValue i n state' largestSize' largestIndex' others) (\<lambda>(steps', ls, li).
          Inr (\<lparr>Index = histId, StateDescription = stateDesc\<rparr> # steps', ls, li))))"

fun viz_partials :: "('v, 's) Model \<Rightarrow> (int \<Rightarrow> 'v iface) \<Rightarrow> (int \<Rightarrow> 'v iface) \<Rightarrow> int
    \<Rightarrow> (int \<Rightarrow> int) \<Rightarrow> (int \<Rightarrow> int option) \<Rightarrow> int list list \<Rightarrow> (linearizationStep list list \<times> (int \<Rightarrow> int option)) res" where
  "viz_partials M callValue returnValue i largestSize largestIndex [] = Inr ([], largestIndex)"
| "viz_partials M callValue returnValue i largestSize largestIndex (partial # others) =
     rbind (viz_steps M callValue returnValue i (int (length partial)) (Init M) largestSize largestIndex partial)
       (\<lambda>(linearization, ls, li).
     rbind (viz_partials M callValue returnValue (i + 1) ls li others) (\<lambda>(linearizations, li').
     Inr (linearization # linearizations, li')))"

definition longer :: "int list \<Rightarrow> int list \<Rightarrow> bool" where
  "longer p q = (length p > length q)"

definition viz_partition :: "(int list list \<Rightarrow> int list list) \<Rightarrow> ('v, 's) Model \<Rightarrow> 'v entry list \<Rightarrow> int list list
    \<Rightarrow> (partitionVisualizationData \<times> int list list) res" where
  "viz_partition sortSlice M entries partials0 =
     (let n = length entries div 2;
          zero = \<lparr>HClientId = 0, Start = 0, End = 0, Description = []\<rparr>
      in rbind (viz_history M (replicate n zero) (\<lambda>_. None) (\<lambda>_. None) entries) (\<lambda>(history, callValue, returnValue).
         let partials = sortSlice partials0
         in rbind (viz_partials M callValue returnValue 0 (\<lambda>_. 0) (\<lambda>_. None) partials) (\<lambda>(linearizations, largestIndex).
            Inr (\<lparr>VHistory = history, VPartials = linearizations, Largest = largestIndex\<rparr>, partials))))"

fun viz_loop :: "(int list list \<Rightarrow> int list list) \<Rightarrow> ('v, 's) Model \<Rightarrow> int \<Rightarrow> int list list list \<Rightarrow> 'v entry list list
    \<Rightarrow> (partitionVisualizationData list \<times> int list list list) res" where
  "viz_loop sortSlice M part infoPartials [] = Inr ([], infoPartials)"
| "viz_loop sortSlice M part infoPartials (entries # others) =
     rbind (slice_get infoPartials part) (\<lambda>partials.
     rbind (viz_partition sortSlice M entries partials) (\<lambda>(d, partials').
     rbind (slice_set infoPartials part partials') (\<lambda>infoPartials'.
     rbind (viz_loop sortSlice M (part + 1) infoPartials' others) (\<lambda>(data, out).
     Inr (d # data, out)))))"

definition computeVisualizationData :: "('v iface \<Rightarrow> string) \<Rightarrow> ('s \<Rightarrow> string) \<Rightarrow> (int list list \<Rightarrow> int list list) \<Rightarrow> ('v, 's) Model
    \<Rightarrow> 'v linearizationInfo \<Rightarrow> (partitionVisualizationData list \<times> 'v linearizationInfo) res" where
  "computeVisualizationData fmtv fmts sortSlice model0 info =
     (let model = fillDefault fmtv fmts model0
      in rbind (viz_loop sortSlice model 0 (partialLinearizations info) (lhistory info)) (\<lambda>(data, partials).
         Inr (data, info\<lparr>partialLinearizations := partials\<rparr>)))"

section \<open>The entries of a partition\<close>

text \<open>The maps after the loop over a well-formed history hold the values of every operation.\<close>

definition seen_value :: "entryKind \<Rightarrow> 'v entry list \<Rightarrow> int \<Rightarrow> 'v iface" where
  "seen_value k es i = (case rev (filter (is_entry k i) es) of e # _ \<Rightarrow> evalue e | [] \<Rightarrow> None)"

lemma seen_value_snoc: "seen_value k (es @ [e]) i = (if ekind e = k \<and> eid e = i then evalue e else seen_value k es i)"
  by (auto simp: seen_value_def)

definition last_entry :: "entryKind \<Rightarrow> 'v entry list \<Rightarrow> int \<Rightarrow> 'v entry option" where
  "last_entry k es i = (case rev (filter (is_entry k i) es) of e # _ \<Rightarrow> Some e | [] \<Rightarrow> None)"

lemma last_entry_snoc: "last_entry k (es @ [e]) i = (if ekind e = k \<and> eid e = i then Some e else last_entry k es i)"
  by (auto simp: last_entry_def)

lemma last_entry_Nil [simp]: "last_entry k [] i = None"
  by (simp add: last_entry_def)

text \<open>The element of an operation after the entries \<open>es\<close>: what the last call entry and the last return entry say.\<close>

definition element_so_far :: "('v, 's) Model \<Rightarrow> 'v entry list \<Rightarrow> int \<Rightarrow> historyElement \<Rightarrow> bool" where
  "element_so_far M es i h \<longleftrightarrow>
     (\<forall>e. last_entry callEntry es i = Some e \<longrightarrow> HClientId h = eclientId e \<and> Start h = etime e) \<and>
     (\<forall>e. last_entry returnEntry es i = Some e \<longrightarrow>
        End h = etime e \<and> (\<exists>xs ys. es = xs @ e # ys \<and> call_describe M (seen_value callEntry xs i) (evalue e) = Inr (Description h)))"

definition elements_so_far :: "('v, 's) Model \<Rightarrow> 'v entry list \<Rightarrow> historyElement list \<Rightarrow> bool" where
  "elements_so_far M es history \<longleftrightarrow> (\<forall>i. 0 \<le> i \<and> i < int (length history) \<longrightarrow> element_so_far M es i (history ! nat i))"

lemma element_so_far_other: "eid e \<noteq> i \<Longrightarrow> element_so_far M es i h \<Longrightarrow> element_so_far M (es @ [e]) i h"
  unfolding element_so_far_def last_entry_snoc by (simp, metis append.assoc append_Cons)

lemma element_so_far_call:
  assumes "ekind e = callEntry" and "element_so_far M es (eid e) h"
  shows "element_so_far M (es @ [e]) (eid e) (h\<lparr>HClientId := eclientId e, Start := etime e\<rparr>)"
  using assms unfolding element_so_far_def last_entry_snoc by (simp, metis append.assoc append_Cons)

lemma element_so_far_return:
  assumes "ekind e = returnEntry" and "element_so_far M es (eid e) h" and "call_describe M (seen_value callEntry es (eid e)) (evalue e) = Inr d"
  shows "element_so_far M (es @ [e]) (eid e) (h\<lparr>End := etime e, Description := d\<rparr>)"
  using assms unfolding element_so_far_def last_entry_snoc by auto

lemma elements_so_far_update:
  assumes "elements_so_far M es history" and "0 \<le> eid e" and "eid e < int (length history)"
    and "element_so_far M (es @ [e]) (eid e) h"
  shows "elements_so_far M (es @ [e]) (history[nat (eid e) := h])"
  unfolding elements_so_far_def
proof (intro allI impI)
  fix i assume i: "0 \<le> i \<and> i < int (length (history[nat (eid e) := h]))"
  show "element_so_far M (es @ [e]) i (history[nat (eid e) := h] ! nat i)"
  proof (cases "i = eid e")
    case True
    with assms(3,4) i show ?thesis by simp
  next
    case False
    then have "nat (eid e) \<noteq> nat i" using i assms(2) by (simp add: eq_nat_nat_iff)
    with False i assms(1) show ?thesis by (simp add: elements_so_far_def element_so_far_other)
  qed
qed

lemma viz_history_result:
  assumes "\<forall>e\<in>set es. 0 \<le> eid e \<and> eid e < int (length history)"
    and "\<And>xs e ys. es = xs @ e # ys \<Longrightarrow> ekind e = returnEntry \<Longrightarrow> \<exists>d. call_describe M (seen_value callEntry (pre @ xs) (eid e)) (evalue e) = Inr d"
    and "elements_so_far M pre history"
  shows "\<exists>history'. viz_history M history (seen_value callEntry pre) (seen_value returnEntry pre) es =
           Inr (history', seen_value callEntry (pre @ es), seen_value returnEntry (pre @ es)) \<and> length history' = length history \<and>
           elements_so_far M (pre @ es) history'"
  using assms
proof (induction es arbitrary: history pre)
  case Nil
  then show ?case by simp
next
  case (Cons e es)
  have step: "(seen_value k pre)(eid e := evalue e) = seen_value k (pre @ [e])" if "ekind e = k" for k
    using that by (auto simp: seen_value_snoc)
  have keep: "seen_value k (pre @ [e]) = seen_value k pre" if "ekind e \<noteq> k" for k
    using that by (auto simp: seen_value_snoc)
  have id: "0 \<le> eid e" "eid e < int (length history)" using Cons.prems(1) by simp_all
  have IH: "\<exists>history'. viz_history M (history[nat (eid e) := h]) (seen_value callEntry (pre @ [e])) (seen_value returnEntry (pre @ [e])) es =
      Inr (history', seen_value callEntry (pre @ e # es), seen_value returnEntry (pre @ e # es)) \<and> length history' = length history \<and>
      elements_so_far M (pre @ e # es) history'"
    if "element_so_far M (pre @ [e]) (eid e) h" for h
  proof -
    have "\<exists>d. call_describe M (seen_value callEntry ((pre @ [e]) @ xs) (eid x)) (evalue x) = Inr d"
      if "es = xs @ x # ys" "ekind x = returnEntry" for xs x ys
      using Cons.prems(2) [of "e # xs" x ys] that by simp
    then show ?thesis
      using Cons.IH [of "history[nat (eid e) := h]" "pre @ [e]"] Cons.prems(1) elements_so_far_update [OF Cons.prems(3) id that] by simp
  qed
  have get: "slice_get history (eid e) = Inr (history ! nat (eid e))"
    and put: "\<And>x. slice_set history (eid e) x = Inr (history[nat (eid e) := x])"
    using id by (simp_all add: slice_get_def slice_set_def)
  have old: "element_so_far M pre (eid e) (history ! nat (eid e))" using Cons.prems(3) id by (simp add: elements_so_far_def)
  show ?case
  proof (cases "ekind e")
    case callEntry
    then show ?thesis using get put IH [OF element_so_far_call [OF callEntry old]] step [of callEntry] keep [of returnEntry] by auto
  next
    case returnEntry
    with Cons.prems(2) [of "[]" e es] obtain d where d: "call_describe M (seen_value callEntry pre (eid e)) (evalue e) = Inr d" by auto
    with returnEntry show ?thesis
      using get put IH [OF element_so_far_return [OF returnEntry old d]] step [of returnEntry] keep [of callEntry] by auto
  qed
qed


lemma filter_wf_entries:
  assumes "wf_entries es" and "0 \<le> i" and "i < n_ops es"
  obtains c r where "filter (is_entry callEntry i) es = [es ! c]" "filter (is_entry returnEntry i) es = [es ! r]"
    "positions callEntry i es = [c]" "positions returnEntry i es = [r]" "c < r"
proof -
  obtain c r where "positions callEntry i es = [c]" "positions returnEntry i es = [r]" "c < r"
    by (rule wf_entriesE [OF assms])
  then show ?thesis using that [of c r] by (simp add: filter_positions)
qed

lemma seen_value_all:
  assumes "wf_entries es" and "0 \<le> i" and "i < n_ops es"
  shows "(seen_value callEntry es i, seen_value returnEntry es i) = op_io es i"
proof -
  obtain c r where "filter (is_entry callEntry i) es = [es ! c]" "filter (is_entry returnEntry i) es = [es ! r]"
    "positions callEntry i es = [c]" "positions returnEntry i es = [r]" "c < r"
    by (rule filter_wf_entries [OF assms])
  then show ?thesis by (simp add: seen_value_def op_io_def value_at_def)
qed

text \<open>When a return entry is reached, its call has been seen.\<close>

lemma seen_value_call:
  assumes wf: "wf_entries es" and es: "es = xs @ e # ys" and "ekind e = returnEntry"
  shows "seen_value callEntry xs (eid e) = fst (op_io es (eid e))" and "evalue e = snd (op_io es (eid e))"
proof -
  let ?i = "eid e" and ?p = "length xs"
  have p: "?p < length es" "es ! ?p = e" using es by simp_all
  have i: "0 \<le> ?i" "?i < n_ops es" using wf_entries_eid [OF wf p(1)] p(2) by simp_all
  obtain c r where cr: "filter (is_entry callEntry ?i) es = [es ! c]" "filter (is_entry returnEntry ?i) es = [es ! r]"
    "positions callEntry ?i es = [c]" "positions returnEntry ?i es = [r]" "c < r"
    by (rule filter_wf_entries [OF wf i])
  have "r = ?p" using positions_single(4) [OF cr(4) p(1)] p(2) assms(3) by simp
  with cr(5) have c: "c < length xs" "xs ! c = es ! c" by (simp_all add: es nth_append)
  then have "es ! c \<in> set xs" by (metis nth_mem)
  then have "es ! c \<in> set (filter (is_entry callEntry ?i) xs)"
    using positions_single(2,3) [OF cr(3)] by simp
  then obtain u us where u: "filter (is_entry callEntry ?i) xs = u # us"
    by (cases "filter (is_entry callEntry ?i) xs") simp_all
  moreover have "filter (is_entry callEntry ?i) xs @ filter (is_entry callEntry ?i) (e # ys) = [es ! c]"
    using cr(1) es by (metis filter_append)
  ultimately have "filter (is_entry callEntry ?i) xs = [es ! c]" by simp
  then show "seen_value callEntry xs ?i = fst (op_io es ?i)"
    using cr by (simp add: seen_value_def op_io_def value_at_def)
  show "evalue e = snd (op_io es ?i)" using cr(4) \<open>r = ?p\<close> p(2) by (simp add: op_io_def value_at_def)
qed

text \<open>
  The element of an operation: client and start time are those of its call entry, the end time is that of
  its return entry, and the text describes the two values.
\<close>

definition element_ok :: "('v, 's) Model \<Rightarrow> 'v entry list \<Rightarrow> int \<Rightarrow> historyElement \<Rightarrow> bool" where
  "element_ok M es i h \<longleftrightarrow>
     (\<exists>c r. c < r \<and> r < length es \<and> is_entry callEntry i (es ! c) \<and> is_entry returnEntry i (es ! r) \<and>
        HClientId h = eclientId (es ! c) \<and> Start h = etime (es ! c) \<and> End h = etime (es ! r) \<and>
        call_describe M (evalue (es ! c)) (evalue (es ! r)) = Inr (Description h))"

lemma elements_so_far_ok:
  assumes wf: "wf_entries es" and "elements_so_far M es history" and "int (length history) = n_ops es" and i: "0 \<le> i" "i < n_ops es"
  shows "element_ok M es i (history ! nat i)"
proof -
  let ?h = "history ! nat i"
  obtain c r where cr: "filter (is_entry callEntry i) es = [es ! c]" "filter (is_entry returnEntry i) es = [es ! r]"
    "positions callEntry i es = [c]" "positions returnEntry i es = [r]" "c < r"
    by (rule filter_wf_entries [OF wf i])
  have len: "r < length es" and kc: "is_entry callEntry i (es ! c)" and kr: "is_entry returnEntry i (es ! r)"
    using positions_single(1-3) [OF cr(3)] positions_single(1-3) [OF cr(4)] by simp_all
  have last: "last_entry callEntry es i = Some (es ! c)" "last_entry returnEntry es i = Some (es ! r)" using cr by (simp_all add: last_entry_def)
  have el: "element_so_far M es i ?h" using assms(2,3) i by (simp add: elements_so_far_def)
  then obtain xs ys where sp: "es = xs @ es ! r # ys" "call_describe M (seen_value callEntry xs i) (evalue (es ! r)) = Inr (Description ?h)"
    using last(2) unfolding element_so_far_def by blast
  have rid: "eid (es ! r) = i" "ekind (es ! r) = returnEntry" using kr by auto
  have "seen_value callEntry xs i = evalue (es ! c)"
    using seen_value_call(1) [OF wf sp(1) rid(2)] rid(1) cr by (simp add: op_io_def value_at_def)
  then show ?thesis using el last len kc kr sp(2) cr(5) unfolding element_ok_def element_so_far_def by auto
qed

section \<open>Partial linearizations\<close>

text \<open>The states of the model after each operation of a sequence, and the texts that describe them.\<close>

fun replay :: "('v, 's) Model \<Rightarrow> 's \<Rightarrow> ('v iface \<times> 'v iface) list \<Rightarrow> 's list" where
  "replay M s [] = []"
| "replay M s ((inp, out) # ios) = (case Step M s inp out of Inl _ \<Rightarrow> [] | Inr (_, s') \<Rightarrow> s' # replay M s' ios)"

definition steps_ok :: "('v, 's) Model \<Rightarrow> (int \<Rightarrow> 'v iface \<times> 'v iface) \<Rightarrow> int list \<Rightarrow> linearizationStep list \<Rightarrow> bool" where
  "steps_ok M io p st \<longleftrightarrow> map Index st = p \<and>
     map (\<lambda>x. Inr (StateDescription x)) st = map (call_describe_state M) (replay M (Init M) (map io p))"

lemma viz_steps_result:
  assumes "legal M s (map (\<lambda>h. (cv h, rv h)) p)" and "DescribeState M = Some ds"
  shows "\<exists>st. viz_steps M cv rv i n s ls li p =
           Inr (st, (\<lambda>h. if h \<in> set p then max (ls h) n else ls h), (\<lambda>h. if h \<in> set p \<and> ls h < n then Some i else li h))
         \<and> map Index st = p \<and> map (\<lambda>x. Inr (StateDescription x)) st = map (call_describe_state M) (replay M s (map (\<lambda>h. (cv h, rv h)) p))"
  using assms
proof (induction p arbitrary: s ls li)
  case Nil
  then show ?case by simp
next
  case (Cons h p)
  from Cons.prems(1) obtain s' where s': "Step M s (cv h) (rv h) = Inr (True, s')" "legal M s' (map (\<lambda>h. (cv h, rv h)) p)"
    by (auto split: sum.splits prod.splits bool.splits)
  let ?ls = "if ls h < n then ls(h := n) else ls" and ?li = "if ls h < n then li(h \<mapsto> i) else li"
  from Cons.IH [OF s'(2) Cons.prems(2), of ?ls ?li] obtain st where IH: "viz_steps M cv rv i n s' ?ls ?li p =
      Inr (st, (\<lambda>x. if x \<in> set p then max (?ls x) n else ?ls x), (\<lambda>x. if x \<in> set p \<and> ?ls x < n then Some i else ?li x))"
      "map Index st = p" "map (\<lambda>x. Inr (StateDescription x)) st = map (call_describe_state M) (replay M s' (map (\<lambda>h. (cv h, rv h)) p))" by blast
  have "(\<lambda>x. if x \<in> set p then max (?ls x) n else ?ls x) = (\<lambda>x. if x \<in> set (h # p) then max (ls x) n else ls x)" by auto
  moreover have "(\<lambda>x. if x \<in> set p \<and> ?ls x < n then Some i else ?li x) = (\<lambda>x. if x \<in> set (h # p) \<and> ls x < n then Some i else li x)" by auto
  ultimately show ?case using s'(1) IH Cons.prems(2) by (simp add: call_describe_state_def)
qed

text \<open>After the partials \<open>P\<close>, \<open>Largest\<close> maps each operation in one of them to a longest one containing it.\<close>

definition largest_inv :: "int list list \<Rightarrow> (int \<Rightarrow> int) \<Rightarrow> (int \<Rightarrow> int option) \<Rightarrow> bool" where
  "largest_inv P ls li \<longleftrightarrow>
     (\<forall>h. (\<forall>q\<in>set P. h \<in> set q \<longrightarrow> int (length q) \<le> ls h) \<and>
          (case li h of None \<Rightarrow> ls h = 0
           | Some j \<Rightarrow> 0 \<le> j \<and> j < int (length P) \<and> h \<in> set (P ! nat j) \<and> ls h = int (length (P ! nat j))))"

lemma largest_inv_step:
  assumes "largest_inv P ls li"
  shows "largest_inv (P @ [p]) (\<lambda>h. if h \<in> set p then max (ls h) (int (length p)) else ls h)
           (\<lambda>h. if h \<in> set p \<and> ls h < int (length p) then Some (int (length P)) else li h)"
proof -
  have inv: "(\<forall>q\<in>set P. h \<in> set q \<longrightarrow> int (length q) \<le> ls h)"
    "(case li h of None \<Rightarrow> ls h = 0 | Some j \<Rightarrow> 0 \<le> j \<and> j < int (length P) \<and> h \<in> set (P ! nat j) \<and> ls h = int (length (P ! nat j)))" for h
    using assms by (simp_all add: largest_inv_def)
  show ?thesis
    unfolding largest_inv_def
  proof (intro allI conjI)
    fix h
    show "\<forall>q\<in>set (P @ [p]). h \<in> set q \<longrightarrow> int (length q) \<le> (if h \<in> set p then max (ls h) (int (length p)) else ls h)"
      using inv(1) [of h] by force
    have "p \<noteq> []" if "h \<in> set p" using that by auto
    then show "case if h \<in> set p \<and> ls h < int (length p) then Some (int (length P)) else li h of
          None \<Rightarrow> (if h \<in> set p then max (ls h) (int (length p)) else ls h) = 0
        | Some j \<Rightarrow> 0 \<le> j \<and> j < int (length (P @ [p])) \<and> h \<in> set ((P @ [p]) ! nat j) \<and>
            (if h \<in> set p then max (ls h) (int (length p)) else ls h) = int (length ((P @ [p]) ! nat j))"
      using inv(2) [of h] by (auto simp: nth_append split: option.splits)
  qed
qed

lemma viz_partials_result:
  assumes "\<forall>p\<in>set ps. legal M (Init M) (map (\<lambda>h. (cv h, rv h)) p)" and "DescribeState M = Some ds" and "largest_inv P ls li"
  shows "\<exists>lins li' ls'. viz_partials M cv rv (int (length P)) ls li ps = Inr (lins, li') \<and> list_all2 (steps_ok M (\<lambda>h. (cv h, rv h))) ps lins \<and>
           largest_inv (P @ ps) ls' li'"
  using assms
proof (induction ps arbitrary: P ls li)
  case Nil
  then show ?case by auto
next
  case (Cons p ps)
  let ?ls = "\<lambda>h. if h \<in> set p then max (ls h) (int (length p)) else ls h"
  let ?li = "\<lambda>h. if h \<in> set p \<and> ls h < int (length p) then Some (int (length P)) else li h"
  have leg: "legal M (Init M) (map (\<lambda>h. (cv h, rv h)) p)" using Cons.prems(1) by simp
  obtain st where
    st: "viz_steps M cv rv (int (length P)) (int (length p)) (Init M) ls li p = Inr (st, ?ls, ?li)" "steps_ok M (\<lambda>h. (cv h, rv h)) p st"
    using viz_steps_result [OF leg Cons.prems(2)] unfolding steps_ok_def by blast
  from Cons.IH [of "P @ [p]" ?ls ?li] largest_inv_step [OF Cons.prems(3), of p] Cons.prems(1,2) obtain lins li' ls' where
    "viz_partials M cv rv (int (length P) + 1) ?ls ?li ps = Inr (lins, li')" "list_all2 (steps_ok M (\<lambda>h. (cv h, rv h))) ps lins" "largest_inv (P @ p # ps) ls' li'"
    by (auto simp: add.commute)
  with st show ?case by auto
qed


section \<open>No panic on the checker's output\<close>

definition describe_total :: "('v, 's) Model \<Rightarrow> 'v entry list \<Rightarrow> bool" where
  "describe_total M es \<longleftrightarrow>
     (\<forall>i. 0 \<le> i \<and> i < n_ops es \<longrightarrow> (\<exists>d. call_describe M (fst (op_io es i)) (snd (op_io es i)) = Inr d))"

text \<open>
  What the data of one partition says: one right element per operation; per partial linearization the sequence of its
  operations, each with the text of the state it leads to; and \<open>Largest\<close>.
\<close>

definition viz_ok :: "('v, 's) Model \<Rightarrow> 'v entry list \<Rightarrow> int list list \<Rightarrow> partitionVisualizationData \<Rightarrow> bool" where
  "viz_ok M es partials d \<longleftrightarrow>
     int (length (VHistory d)) = n_ops es \<and> (\<forall>i. 0 \<le> i \<and> i < n_ops es \<longrightarrow> element_ok M es i (VHistory d ! nat i)) \<and>
     list_all2 (steps_ok M (op_io es)) partials (VPartials d) \<and> (\<exists>ls. largest_inv partials ls (Largest d))"

lemma viz_partition_result:
  assumes wf: "wf_entries es" and "describe_total M es" and ds: "DescribeState M = Some ds"
    and parts: "\<forall>p\<in>set partials. is_partial_linearization M es p" and srt: "go_sort longer sortSlice"
  shows "\<exists>d. viz_partition sortSlice M es partials = Inr (d, sortSlice partials) \<and> viz_ok M es (sortSlice partials) d"
proof -
  let ?h0 = "replicate (length es div 2) \<lparr>HClientId = 0, Start = 0, End = 0, Description = []\<rparr>"
  have n: "int (length ?h0) = n_ops es" by (simp add: n_ops_def)
  have ids: "\<forall>e\<in>set es. 0 \<le> eid e \<and> eid e < int (length ?h0)"
    unfolding n using wf by (simp add: wf_entries_def list_all_iff)
  have "\<exists>d. call_describe M (seen_value callEntry ([] @ xs) (eid e)) (evalue e) = Inr d"
    if "es = xs @ e # ys" "ekind e = returnEntry" for xs e ys
  proof -
    have "e \<in> set es" using that(1) by simp
    with ids n have "0 \<le> eid e" "eid e < n_ops es" by simp_all
    with seen_value_call [OF wf that] assms(2) show ?thesis by (simp add: describe_total_def)
  qed
  moreover have "elements_so_far M [] ?h0" by (simp add: elements_so_far_def element_so_far_def)
  ultimately obtain history where
    hist: "viz_history M ?h0 (seen_value callEntry []) (seen_value returnEntry []) es =
       Inr (history, seen_value callEntry es, seen_value returnEntry es)" "length history = length ?h0" "elements_so_far M es history"
    using viz_history_result [OF ids, of M "[]"] by auto
  have els: "\<forall>i. 0 \<le> i \<and> i < n_ops es \<longrightarrow> element_ok M es i (history ! nat i)"
    using elements_so_far_ok [OF wf hist(3)] hist(2) n by simp
  have empty: "seen_value k [] = (\<lambda>_. None)" for k :: entryKind by (simp add: seen_value_def fun_eq_iff)
  have set: "set (sortSlice partials) = set partials" using go_sortD(1) [OF srt] mset_eq_setD by blast
  have eq: "map (\<lambda>h. (seen_value callEntry es h, seen_value returnEntry es h)) p = map (op_io es) p"
    and leg: "legal M (Init M) (map (op_io es) p)" if "p \<in> set (sortSlice partials)" for p
  proof -
    have p: "set p \<subseteq> {0..<n_ops es}" "legal M (Init M) (map (op_io es) p)"
      using parts that set by (simp_all add: is_partial_linearization_def)
    show "map (\<lambda>h. (seen_value callEntry es h, seen_value returnEntry es h)) p = map (op_io es) p"
      using p(1) seen_value_all [OF wf] by (intro map_cong [OF refl]) auto
    show "legal M (Init M) (map (op_io es) p)" by (rule p(2))
  qed
  have "largest_inv [] (\<lambda>_. 0) (\<lambda>_. None)" by (simp add: largest_inv_def)
  then obtain lins li ls where lins: "viz_partials M (seen_value callEntry es) (seen_value returnEntry es) 0 (\<lambda>_. 0) (\<lambda>_. None) (sortSlice partials) = Inr (lins, li)"
    "list_all2 (steps_ok M (\<lambda>h. (seen_value callEntry es h, seen_value returnEntry es h))) (sortSlice partials) lins"
    "largest_inv (sortSlice partials) ls li"
    using viz_partials_result [of "sortSlice partials" M "seen_value callEntry es" "seen_value returnEntry es" ds "[]" "\<lambda>_. 0" "\<lambda>_. None"]
      ds eq leg by auto
  have "list_all2 (steps_ok M (op_io es)) (sortSlice partials) lins"
    by (rule list.rel_mono_strong [OF lins(2)]) (simp only: steps_ok_def eq)
  with lins hist n els show ?thesis by (auto simp: viz_partition_def Let_def empty viz_ok_def)
qed

lemma viz_loop_result:
  assumes "\<forall>es\<in>set hs. wf_entries es \<and> describe_total M es" and ds: "DescribeState M = Some ds" and srt: "go_sort longer sortSlice"
    and "length info = i + length hs"
    and "\<forall>j<length hs. \<forall>p\<in>set (info ! (i + j)). is_partial_linearization M (hs ! j) p"
  shows "\<exists>data info'. viz_loop sortSlice M (int i) info hs = Inr (data, info') \<and> length data = length hs \<and>
           (\<forall>j<length hs. viz_ok M (hs ! j) (sortSlice (info ! (i + j))) (data ! j))"
  using assms(1,4,5)
proof (induction hs arbitrary: i info)
  case Nil
  then show ?case by simp
next
  case (Cons es hs)
  have "\<forall>p\<in>set (info ! i). is_partial_linearization M es p" using Cons.prems(3) [rule_format, of 0] by simp
  with Cons.prems(1) obtain d where d: "viz_partition sortSlice M es (info ! i) = Inr (d, sortSlice (info ! i))"
      "viz_ok M es (sortSlice (info ! i)) d" using viz_partition_result [OF _ _ ds _ srt] by (metis list.set_intros(1))
  let ?info = "info[i := sortSlice (info ! i)]"
  have nth: "?info ! (Suc i + j) = info ! (i + Suc j)" for j by simp
  have "\<exists>data info'. viz_loop sortSlice M (int (Suc i)) ?info hs = Inr (data, info') \<and> length data = length hs \<and>
      (\<forall>j<length hs. viz_ok M (hs ! j) (sortSlice (?info ! (Suc i + j))) (data ! j))"
  proof (rule Cons.IH)
    show "\<forall>es\<in>set hs. wf_entries es \<and> describe_total M es" using Cons.prems(1) by simp
    show "length ?info = Suc i + length hs" using Cons.prems(2) by simp
    show "\<forall>j<length hs. \<forall>p\<in>set (?info ! (Suc i + j)). is_partial_linearization M (hs ! j) p"
    proof (intro allI impI)
      fix j assume "j < length hs"
      with Cons.prems(3) [rule_format, of "Suc j"] show "\<forall>p\<in>set (?info ! (Suc i + j)). is_partial_linearization M (hs ! j) p" by simp
    qed
  qed
  then obtain data info' where rec: "viz_loop sortSlice M (int (Suc i)) ?info hs = Inr (data, info')" "length data = length hs"
    "\<forall>j<length hs. viz_ok M (hs ! j) (sortSlice (info ! (i + Suc j))) (data ! j)" unfolding nth by blast
  have "viz_ok M ((es # hs) ! j) (sortSlice (info ! (i + j))) ((d # data) ! j)" if "j < length (es # hs)" for j
    using that d(2) rec(3) by (cases j) simp_all
  moreover have "viz_loop sortSlice M (int i) info (es # hs) = Inr (d # data, info')"
    using d(1) rec(1) Cons.prems(2) by (simp add: add.commute)
  ultimately show ?case using rec(2) by auto
qed

end
