(* ===== verification/MapReduce.thy ===== *)
theory MapReduce
  imports Prelude "HOL-Library.List_Lexorder" "HOL-Library.Char_ord"
begin

text \<open>
  The sequential MapReduce program \<^verbatim>\<open>main/mrsequential.go\<close>, the applications of \<^verbatim>\<open>mrapps/\<close> it runs, and the
  hash of \<^verbatim>\<open>mr/worker.go\<close>.

  Texts are strings of one-byte characters, compared as Go compares strings; the decoding of
  multi-byte runes is not modelled, and \<open>letter\<close> is \<open>unicode.IsLetter\<close>.  The file system is an argument,
  \<open>sort.Sort\<close> is an argument \<open>srt\<close> (it is not stable), and the order in which a map is iterated too.
  An application's functions may end the process, so they return results.
\<close>

section \<open>Key-value pairs and applications\<close>

record KeyValue =
  mKey :: string
  mValue :: string

type_synonym map_fn = "string \<Rightarrow> string \<Rightarrow> KeyValue list res"
type_synonym reduce_fn = "string \<Rightarrow> string list \<Rightarrow> string res"

text \<open>The \<open>Less\<close> of \<open>ByKey\<close>.\<close>

definition ByKey_Less :: "KeyValue \<Rightarrow> KeyValue \<Rightarrow> bool" where
  "ByKey_Less a b = (mKey a < mKey b)"

text \<open>\<open>strconv.Itoa\<close> of a length.\<close>

fun Itoa :: "nat \<Rightarrow> string" where
  "Itoa n = (if n < 10 then [char_of (48 + n)] else Itoa (n div 10) @ [char_of (48 + n mod 10)])"

declare Itoa.simps [simp del]

text \<open>Decimal digits, and the number a text of digits stands for.\<close>

definition is_digit :: "char \<Rightarrow> bool" where
  "is_digit c \<longleftrightarrow> 48 \<le> (of_char c :: nat) \<and> (of_char c :: nat) < 58"

definition digits_value :: "string \<Rightarrow> nat" where
  "digits_value s = foldl (\<lambda>v c. 10 * v + (of_char c - 48)) 0 s"

lemma Itoa_digits: "c \<in> set (Itoa n) \<Longrightarrow> is_digit c"
proof (induction n rule: Itoa.induct)
  case (1 n)
  have "is_digit (char_of (48 + k))" if "k < 10" for k :: nat using that by (simp add: is_digit_def)
  then show ?case using 1 Itoa.simps [of n] by (auto split: if_splits)
qed

lemma Itoa_value: "digits_value (Itoa n) = n"
proof (induction n rule: Itoa.induct)
  case (1 n)
  have "of_char (char_of (48 + k) :: char) = 48 + k" if "k < 10" for k :: nat using that by simp
  then show ?case using 1 Itoa.simps [of n] by (auto simp: digits_value_def)
qed

lemma Itoa_not_Nil: "Itoa n \<noteq> []"
  by (simp add: Itoa.simps [of n])

text \<open>\<open>strings.FieldsFunc\<close> with the separators \<open>f\<close>, and \<open>strings.Join\<close>.\<close>

fun fields_loop :: "(char \<Rightarrow> bool) \<Rightarrow> string \<Rightarrow> string \<Rightarrow> string list" where
  "fields_loop f cur [] = (if cur = [] then [] else [cur])"
| "fields_loop f cur (c # cs) =
     (if f c then (if cur = [] then [] else [cur]) @ fields_loop f [] cs else fields_loop f (cur @ [c]) cs)"

definition FieldsFunc :: "string \<Rightarrow> (char \<Rightarrow> bool) \<Rightarrow> string list" where
  "FieldsFunc s f = fields_loop f [] s"

fun Join :: "string \<Rightarrow> string list \<Rightarrow> string" where
  "Join sep [] = []"
| "Join sep [s] = s"
| "Join sep (s # t # ss) = s @ sep @ Join sep (t # ss)"

text \<open>\<^verbatim>\<open>mrapps/wc.go\<close>\<close>

definition wc_Map :: "(char \<Rightarrow> bool) \<Rightarrow> map_fn" where
  "wc_Map letter filename contents =
     Inr (map (\<lambda>w. \<lparr>mKey = w, mValue = ''1''\<rparr>) (FieldsFunc contents (\<lambda>r. \<not> letter r)))"

definition wc_Reduce :: reduce_fn where
  "wc_Reduce k vals = Inr (Itoa (length vals))"

text \<open>\<^verbatim>\<open>mrapps/indexer.go\<close>; \<open>iter\<close> is the order in which the keys of a map come.\<close>

definition indexer_Map :: "(char \<Rightarrow> bool) \<Rightarrow> (string set \<Rightarrow> string list) \<Rightarrow> map_fn" where
  "indexer_Map letter iter document content =
     (let ws = FieldsFunc content (\<lambda>x. \<not> letter x);
          m = fold (\<lambda>w m. m(w \<mapsto> True)) ws Map.empty
      in Inr (map (\<lambda>w. \<lparr>mKey = w, mValue = document\<rparr>) (iter (dom m))))"

definition indexer_Reduce :: reduce_fn where
  "indexer_Reduce k vals = (let vs = sort vals in Inr (Itoa (length vs) @ '' '' @ Join '','' vs))"

text \<open>
  \<^verbatim>\<open>mrapps/crash.go\<close> and \<^verbatim>\<open>mrapps/nocrash.go\<close>; \<open>rr\<close> is the random number below 1000.  The delay of the first has
  no effect on the result.
\<close>

definition crash_maybeCrash :: "int \<Rightarrow> unit res" where
  "crash_maybeCrash rr = (if rr < 330 then Inl (Fatal ''exit status 1'') else Inr ())"

definition nocrash_maybeCrash :: "int \<Rightarrow> unit res" where
  "nocrash_maybeCrash rr = (if False \<and> rr < 500 then Inl (Fatal ''exit status 1'') else Inr ())"

definition crash_Map :: "int \<Rightarrow> map_fn" where
  "crash_Map rr filename contents =
     rbind (crash_maybeCrash rr) (\<lambda>_.
     Inr [\<lparr>mKey = ''a'', mValue = filename\<rparr>, \<lparr>mKey = ''b'', mValue = Itoa (length filename)\<rparr>,
          \<lparr>mKey = ''c'', mValue = Itoa (length contents)\<rparr>, \<lparr>mKey = ''d'', mValue = ''xyzzy''\<rparr>])"

definition crash_Reduce :: "int \<Rightarrow> reduce_fn" where
  "crash_Reduce rr k vals = rbind (crash_maybeCrash rr) (\<lambda>_. Inr (Join '' '' (sort vals)))"

definition nocrash_Map :: "int \<Rightarrow> map_fn" where
  "nocrash_Map rr filename contents =
     rbind (nocrash_maybeCrash rr) (\<lambda>_.
     Inr [\<lparr>mKey = ''a'', mValue = filename\<rparr>, \<lparr>mKey = ''b'', mValue = Itoa (length filename)\<rparr>,
          \<lparr>mKey = ''c'', mValue = Itoa (length contents)\<rparr>, \<lparr>mKey = ''d'', mValue = ''xyzzy''\<rparr>])"

definition nocrash_Reduce :: "int \<Rightarrow> reduce_fn" where
  "nocrash_Reduce rr k vals = rbind (nocrash_maybeCrash rr) (\<lambda>_. Inr (Join '' '' (sort vals)))"

section \<open>The sequential program\<close>

text \<open>A plugin is its symbol table; a symbol has one of the two expected types or another one.\<close>

datatype symbol = MapSym map_fn | ReduceSym reduce_fn | OtherSym

definition loadPlugin :: "(string \<Rightarrow> (string \<Rightarrow> symbol option) option) \<Rightarrow> string \<Rightarrow> (map_fn \<times> reduce_fn) res" where
  "loadPlugin plugins filename =
     (case plugins filename of
        None \<Rightarrow> Inl (Fatal ''cannot load plugin'')
      | Some p \<Rightarrow>
          (case p ''Map'' of
             None \<Rightarrow> Inl (Fatal ''cannot find Map'')
           | Some (MapSym mapf) \<Rightarrow>
               (case p ''Reduce'' of
                  None \<Rightarrow> Inl (Fatal ''cannot find Reduce'')
                | Some (ReduceSym reducef) \<Rightarrow> Inr (mapf, reducef)
                | Some _ \<Rightarrow> Inl TypeAssertion)
           | Some _ \<Rightarrow> Inl TypeAssertion))"

text \<open>Opening a file may fail, and reading it too.\<close>

datatype input_file = NoFile | Unreadable | Contents string

fun map_files :: "map_fn \<Rightarrow> (string \<Rightarrow> input_file) \<Rightarrow> string list \<Rightarrow> KeyValue list \<Rightarrow> KeyValue list res" where
  "map_files mapf fs [] intermediate = Inr intermediate"
| "map_files mapf fs (filename # rest) intermediate =
     (case fs filename of
        NoFile \<Rightarrow> Inl (Fatal ''cannot open'')
      | Unreadable \<Rightarrow> Inl (Fatal ''cannot read'')
      | Contents content \<Rightarrow>
          rbind (mapf filename content) (\<lambda>kva. map_files mapf fs rest (intermediate @ kva)))"

text \<open>The end \<open>j\<close> of the run of equal keys that starts at \<open>i\<close>.\<close>

function run_end :: "KeyValue list \<Rightarrow> nat \<Rightarrow> nat \<Rightarrow> nat" where
  "run_end xs i j = (if j < length xs \<and> mKey (xs ! j) = mKey (xs ! i) then run_end xs i (j + 1) else j)"
  by pat_completeness auto
termination by (relation "measure (\<lambda>(xs, i, j). length xs - j)") auto

declare run_end.simps [simp del]

lemma run_end_ge: "j \<le> run_end xs i j"
proof (induction xs i j rule: run_end.induct)
  case (1 xs i j)
  then show ?case by (cases "j < length xs \<and> mKey (xs ! j) = mKey (xs ! i)") (subst run_end.simps, simp)+
qed

function reduce_loop :: "reduce_fn \<Rightarrow> KeyValue list \<Rightarrow> nat \<Rightarrow> string \<Rightarrow> string res" where
  "reduce_loop reducef xs i out =
     (if i < length xs then
        (let j = run_end xs i (i + 1);
             vals = map (\<lambda>k. mValue (xs ! k)) [i..<j]
         in rbind (reducef (mKey (xs ! i)) vals) (\<lambda>output.
            reduce_loop reducef xs j (out @ mKey (xs ! i) @ '' '' @ output @ [CHR 0x0A])))
      else Inr out)"
  by pat_completeness auto
termination
proof (relation "measure (\<lambda>(reducef, xs, i, out). length xs - i)")
  fix reducef :: reduce_fn and xs :: "KeyValue list" and i j :: nat and out vals outp
  assume "i < length xs" and "j = run_end xs i (i + 1)"
  moreover have "i + 1 \<le> run_end xs i (i + 1)" by (rule run_end_ge)
  ultimately show "((reducef, xs, j, out @ mKey (xs ! i) @ '' '' @ outp @ [CHR 0x0A]), reducef, xs, i, out)
      \<in> measure (\<lambda>(reducef, xs, i, out). length xs - i)" by simp
qed simp

declare reduce_loop.simps [simp del]

text \<open>
  \<open>main\<close>: the arguments after the program's name; the result is what is written to \<^verbatim>\<open>mr-out-0\<close>.
\<close>

definition mrsequential :: "(KeyValue list \<Rightarrow> KeyValue list) \<Rightarrow> (string \<Rightarrow> (string \<Rightarrow> symbol option) option) \<Rightarrow> (string \<Rightarrow> input_file)
    \<Rightarrow> string list \<Rightarrow> string res" where
  "mrsequential srt plugins fs args =
     (case args of
        so # filename # rest \<Rightarrow>
          rbind (loadPlugin plugins so) (\<lambda>(mapf, reducef).
          rbind (map_files mapf fs (filename # rest) []) (\<lambda>intermediate.
          reduce_loop reducef (srt intermediate) 0 []))
      | _ \<Rightarrow> Inl (Fatal ''Usage: mrsequential xxx.so inputfiles...''))"

section \<open>The hash of \<^verbatim>\<open>mr/worker.go\<close>\<close>

text \<open>FNV-1a on 32 bits.\<close>

fun fnv32a :: "32 word \<Rightarrow> string \<Rightarrow> 32 word" where
  "fnv32a h [] = h"
| "fnv32a h (c # cs) = fnv32a (xor h (of_nat (of_char c)) * 16777619) cs"

definition ihash :: "string \<Rightarrow> int" where
  "ihash k = uint (and (fnv32a 2166136261 k) 0x7fffffff)"


section \<open>The reduce loop groups equal keys\<close>

lemma run_end_takeWhile:
  "j \<le> length xs \<Longrightarrow> run_end xs i j = j + length (takeWhile (\<lambda>y. mKey y = mKey (xs ! i)) (drop j xs))"
proof (induction xs i j rule: run_end.induct)
  case (1 xs i j)
  show ?case
  proof (cases "j < length xs")
    case True
    then show ?thesis using 1 by (subst run_end.simps) (simp flip: Cons_nth_drop_Suc)
  next
    case False
    then show ?thesis using 1 by (subst run_end.simps) simp
  qed
qed

function reduce_runs :: "reduce_fn \<Rightarrow> KeyValue list \<Rightarrow> string res" where
  "reduce_runs reducef [] = Inr []"
| "reduce_runs reducef (x # xs) =
     rbind (reducef (mKey x) (map mValue (x # takeWhile (\<lambda>y. mKey y = mKey x) xs))) (\<lambda>outp.
     rbind (reduce_runs reducef (dropWhile (\<lambda>y. mKey y = mKey x) xs)) (\<lambda>rest.
     Inr (mKey x @ '' '' @ outp @ [CHR 0x0A] @ rest)))"
  by pat_completeness auto
termination by (relation "measure (\<lambda>(reducef, xs). length xs)") (auto simp: length_dropWhile_le le_imp_less_Suc)

lemma reduce_loop_runs:
  "i \<le> length xs \<Longrightarrow> reduce_loop reducef xs i out = rbind (reduce_runs reducef (drop i xs)) (\<lambda>r. Inr (out @ r))"
proof (induction reducef xs i out rule: reduce_loop.induct)
  case (1 reducef xs i out)
  show ?case
  proof (cases "i < length xs")
    case True
    let ?j = "run_end xs i (i + 1)" and ?P = "\<lambda>y. mKey y = mKey (xs ! i)"
    have j: "?j = i + 1 + length (takeWhile ?P (drop (i + 1) xs))" using True by (simp add: run_end_takeWhile)
    have le: "?j \<le> length xs" using True length_takeWhile_le [of ?P "drop (i + 1) xs"] unfolding j by simp
    have d: "drop i xs = xs ! i # drop (i + 1) xs" using True by (simp add: Cons_nth_drop_Suc)
    have vals: "map (\<lambda>k. mValue (xs ! k)) [i..<?j] = map mValue (xs ! i # takeWhile ?P (drop (i + 1) xs))"
    proof -
      have "map (\<lambda>k. xs ! k) [i..<?j] = take (?j - i) (drop i xs)"
        using le by (intro nth_equalityI) auto
      also have "\<dots> = xs ! i # takeWhile ?P (drop (i + 1) xs)"
        unfolding d j by (simp add: takeWhile_eq_take [symmetric])
      finally show ?thesis by (metis (no_types, lifting) list.map_comp comp_apply map_eq_conv)
    qed
    have rest: "drop ?j xs = dropWhile ?P (drop (i + 1) xs)"
      unfolding j by (simp add: dropWhile_eq_drop add.commute)
    show ?thesis
    proof (cases "reducef (mKey (xs ! i)) (map mValue (xs ! i # takeWhile ?P (drop (i + 1) xs)))")
      case (Inl e)
      then show ?thesis using True vals d by (subst reduce_loop.simps) (simp add: Let_def)
    next
      case (Inr outp)
      have "reduce_loop reducef xs ?j (out @ mKey (xs ! i) @ '' '' @ outp @ [CHR 0x0A]) =
          rbind (reduce_runs reducef (drop ?j xs)) (\<lambda>r. Inr ((out @ mKey (xs ! i) @ '' '' @ outp @ [CHR 0x0A]) @ r))"
        by (rule 1(1) [OF True refl refl le])
      then show ?thesis using True vals Inr unfolding d rest
        by (subst reduce_loop.simps) (simp add: Let_def rbind_assoc)
    qed
  next
    case False
    with 1 show ?thesis by (subst reduce_loop.simps) simp
  qed
qed

text \<open>For a sorted list the runs are the groups of equal keys.\<close>

lemma ByKey_sorted: "go_sort ByKey_Less srt \<Longrightarrow> sorted (map mKey (srt xs)) \<and> mset (srt xs) = mset xs"
  unfolding ByKey_Less_def [abs_def] using go_sort_sorted go_sortD(1) by blast

definition values_of :: "string \<Rightarrow> KeyValue list \<Rightarrow> string multiset" where
  "values_of k xs = image_mset mValue (filter_mset (\<lambda>x. mKey x = k) (mset xs))"

definition keys_of :: "KeyValue list \<Rightarrow> string set" where
  "keys_of xs = mKey ` set xs"

definition out_line :: "string \<Rightarrow> string \<Rightarrow> string" where
  "out_line k outp = k @ '' '' @ outp @ [CHR 0x0A]"

lemma values_of_filter: "values_of k (filter (\<lambda>x. mKey x \<noteq> k') xs) = (if k = k' then {#} else values_of k xs)"
  by (auto simp: values_of_def filter_filter_mset intro!: arg_cong [where f = "image_mset mValue"] filter_mset_cong)

lemma sorted_runs:
  assumes "sorted (map mKey (x # xs))"
  shows "takeWhile (\<lambda>y. mKey y = mKey x) xs = filter (\<lambda>y. mKey y = mKey x) xs"
    and "dropWhile (\<lambda>y. mKey y = mKey x) xs = filter (\<lambda>y. mKey y \<noteq> mKey x) xs"
  using assms
proof (induction xs)
  case (Cons y ys)
  have gt: "mKey z \<noteq> mKey x" if "sorted (map mKey (x # y # ys))" "mKey y \<noteq> mKey x" "z \<in> set ys" for z
    using that by (metis (no_types, lifting) antisym list.set_intros(1) list.simps(9) sorted_simps(2) image_eqI set_map)
  {
    case 1
    with gt have "filter (\<lambda>y. mKey y = mKey x) ys = []" if "mKey y \<noteq> mKey x" using that by (simp add: filter_empty_conv)
    with 1 Cons.IH(1) show ?case by auto
  next
    case 2
    with gt have "filter (\<lambda>y. mKey y \<noteq> mKey x) ys = ys" if "mKey y \<noteq> mKey x" using that by (simp add: filter_id_conv)
    with 2 Cons.IH(2) show ?case by auto
  }
qed simp_all


lemma values_of_Cons_run:
  assumes "sorted (map mKey (x # xs))"
  shows "mset (map mValue (x # takeWhile (\<lambda>y. mKey y = mKey x) xs)) = values_of (mKey x) (x # xs)"
  by (simp add: sorted_runs(1) [OF assms] values_of_def flip: mset_filter)

lemma keys_of_Cons: "keys_of (x # xs) = insert (mKey x) (keys_of (filter (\<lambda>y. mKey y \<noteq> mKey x) xs))"
  by (auto simp: keys_of_def)

lemma sorted_list_of_set_least:
  assumes "finite A" and "\<And>a. a \<in> A \<Longrightarrow> k < a"
  shows "sorted_list_of_set (insert k A) = k # sorted_list_of_set A"
proof -
  have "k \<notin> A" using assms(2) by blast
  then have "sorted_list_of_set (insert k A) = insort k (sorted_list_of_set A)" using assms(1) by simp
  also have "\<dots> = k # sorted_list_of_set A" by (rule insort_is_Cons) (use assms in \<open>auto simp: less_imp_le\<close>)
  finally show ?thesis .
qed

lemma reduce_runs_groups:
  assumes "sorted (map mKey xs)" and "\<And>k vs. reducef k vs = Inr (summary k (mset vs))"
  shows "reduce_runs reducef xs =
    Inr (concat (map (\<lambda>k. out_line k (summary k (values_of k xs))) (sorted_list_of_set (keys_of xs))))"
  using assms(1)
proof (induction xs rule: length_induct)
  case (1 xs)
  show ?case
  proof (cases xs)
    case Nil
    then show ?thesis by (simp add: keys_of_def)
  next
    case (Cons x ys)
    let ?zs = "filter (\<lambda>y. mKey y \<noteq> mKey x) ys"
    have srt: "sorted (map mKey (x # ys))" using 1(2) Cons by simp
    have dw: "dropWhile (\<lambda>y. mKey y = mKey x) ys = ?zs" by (rule sorted_runs(2) [OF srt])
    have "sorted (map mKey ?zs)" using srt by (simp add: sorted_wrt_filter sorted_map)
    moreover have "length ?zs < length xs" using Cons by (simp add: le_imp_less_Suc)
    ultimately have IH: "reduce_runs reducef ?zs =
        Inr (concat (map (\<lambda>k. out_line k (summary k (values_of k ?zs))) (sorted_list_of_set (keys_of ?zs))))" using 1(1) by blast
    have lt: "mKey x < k" if "k \<in> keys_of ?zs" for k
      using that srt by (auto simp: keys_of_def less_le)
    then have keys: "sorted_list_of_set (keys_of xs) = mKey x # sorted_list_of_set (keys_of ?zs)"
      unfolding Cons keys_of_Cons by (intro sorted_list_of_set_least) (auto simp: keys_of_def)
    have "values_of k ?zs = values_of k xs" if "k \<in> keys_of ?zs" for k
      using lt [OF that] by (simp add: values_of_filter Cons) (auto simp: values_of_def)
    then have rest: "map (\<lambda>k. out_line k (summary k (values_of k ?zs))) (sorted_list_of_set (keys_of ?zs)) =
        map (\<lambda>k. out_line k (summary k (values_of k xs))) (sorted_list_of_set (keys_of ?zs))"
      by (intro map_cong) (simp_all add: keys_of_def)
    have "reducef (mKey x) (map mValue (x # takeWhile (\<lambda>y. mKey y = mKey x) ys)) = Inr (summary (mKey x) (values_of (mKey x) xs))"
      unfolding assms(2) values_of_Cons_run [OF srt] Cons ..
    then have "reduce_runs reducef xs = Inr (out_line (mKey x) (summary (mKey x) (values_of (mKey x) xs)) @
        concat (map (\<lambda>k. out_line k (summary k (values_of k xs))) (sorted_list_of_set (keys_of ?zs))))"
      unfolding Cons reduce_runs.simps dw IH [unfolded rest] rbind_Inr by (simp add: out_line_def Cons)
    then show ?thesis unfolding keys by simp
  qed
qed

section \<open>Applications\<close>

definition emitted :: "(string \<Rightarrow> string \<Rightarrow> KeyValue list) \<Rightarrow> (string \<times> string) list \<Rightarrow> KeyValue list" where
  "emitted emit files = concat (map (\<lambda>(n, c). emit n c) files)"

text \<open>
  What the sequential program needs of an application: \<open>Map\<close> emits pairs, and \<open>Reduce\<close> depends on the
  values of a key but not on their order.
\<close>

locale mr_application =
  fixes mapf :: map_fn and reducef :: reduce_fn and emit :: "string \<Rightarrow> string \<Rightarrow> KeyValue list"
    and summary :: "string \<Rightarrow> string multiset \<Rightarrow> string"
  assumes map_emits: "mapf filename content = Inr (emit filename content)"
    and reduce_unordered: "reducef k vs = Inr (summary k (mset vs))"
begin

lemma map_files_emitted:
  assumes "list_all (\<lambda>(n, c). fs n = Contents c) files"
  shows "map_files mapf fs (map fst files) acc = Inr (acc @ emitted emit files)"
  using assms by (induction files arbitrary: acc) (auto simp: map_emits emitted_def)

lemma sequential_output:
  assumes srt: "go_sort ByKey_Less srt" and plug: "loadPlugin plugins so = Inr (mapf, reducef)"
    and fs: "list_all (\<lambda>(n, c). fs n = Contents c) files" and ne: "files \<noteq> []"
  shows "mrsequential srt plugins fs (so # map fst files) =
    Inr (concat (map (\<lambda>k. out_line k (summary k (values_of k (emitted emit files)))) (sorted_list_of_set (keys_of (emitted emit files)))))"
proof -
  let ?xs = "srt (emitted emit files)"
  have s: "sorted (map mKey ?xs)" and m: "mset ?xs = mset (emitted emit files)" using ByKey_sorted [OF srt] by simp_all
  have k: "keys_of ?xs = keys_of (emitted emit files)" using mset_eq_setD [OF m] by (simp add: keys_of_def)
  have v: "values_of k ?xs = values_of k (emitted emit files)" for k using m by (simp add: values_of_def)
  obtain n c rest where files: "files = (n, c) # rest" using ne by (cases files) auto
  have "map_files mapf fs (map fst files) [] = Inr (emitted emit files)" using map_files_emitted [OF fs, of "[]"] by simp
  then have "mrsequential srt plugins fs (so # map fst files) = reduce_loop reducef ?xs 0 []"
    using plug by (simp add: mrsequential_def files)
  also have "\<dots> = reduce_runs reducef ?xs" by (simp add: reduce_loop_runs rbind_def split: sum.splits)
  also have "\<dots> = Inr (concat (map (\<lambda>k. out_line k (summary k (values_of k ?xs))) (sorted_list_of_set (keys_of ?xs))))"
    by (rule reduce_runs_groups [OF s]) (rule reduce_unordered)
  finally show ?thesis unfolding k v .
qed

lemma map_files_missing:
  assumes "list_ex (\<lambda>n. \<forall>c. fs n \<noteq> Contents c) names"
  shows "map_files mapf fs names acc = Inl (Fatal ''cannot open'') \<or> map_files mapf fs names acc = Inl (Fatal ''cannot read'')"
  using assms
proof (induction names arbitrary: acc)
  case (Cons n names)
  then show ?case by (cases "fs n") (auto simp: map_emits)
qed simp

lemma sequential_missing_file:
  assumes "loadPlugin plugins so = Inr (mapf, reducef)" and "list_ex (\<lambda>n. \<forall>c. fs n \<noteq> Contents c) names"
  shows "mrsequential srt plugins fs (so # names) = Inl (Fatal ''cannot open'') \<or>
    mrsequential srt plugins fs (so # names) = Inl (Fatal ''cannot read'')"
proof (cases names)
  case (Cons n ns)
  then show ?thesis using assms map_files_missing [OF assms(2), of "[]"] by (auto simp: mrsequential_def simp del: map_files.simps)
qed (use assms in simp)

end

definition wc_emit :: "(char \<Rightarrow> bool) \<Rightarrow> string \<Rightarrow> string \<Rightarrow> KeyValue list" where
  "wc_emit letter filename contents = map (\<lambda>w. \<lparr>mKey = w, mValue = ''1''\<rparr>) (FieldsFunc contents (\<lambda>r. \<not> letter r))"

interpretation wc: mr_application "wc_Map letter" wc_Reduce "wc_emit letter" "\<lambda>k vs. Itoa (size vs)" for letter
  by unfold_locales (simp_all add: wc_Map_def wc_Reduce_def wc_emit_def)

definition index_emit :: "(char \<Rightarrow> bool) \<Rightarrow> (string set \<Rightarrow> string list) \<Rightarrow> string \<Rightarrow> string \<Rightarrow> KeyValue list" where
  "index_emit letter iter document content =
     map (\<lambda>w. \<lparr>mKey = w, mValue = document\<rparr>) (iter (set (FieldsFunc content (\<lambda>x. \<not> letter x))))"

definition index_entry :: "string list \<Rightarrow> string" where
  "index_entry docs = Itoa (length docs) @ '' '' @ Join '','' docs"

lemma dom_fold_true: "dom (fold (\<lambda>w m. m(w \<mapsto> True)) ws m) = dom m \<union> set ws"
  by (induction ws arbitrary: m) auto

interpretation indexer: mr_application "indexer_Map letter iter" indexer_Reduce "index_emit letter iter"
    "\<lambda>k vs. index_entry (sorted_list_of_multiset vs)" for letter iter
  by unfold_locales (simp_all add: indexer_Map_def indexer_Reduce_def index_emit_def index_entry_def Let_def dom_fold_true)

definition nocrash_emit :: "string \<Rightarrow> string \<Rightarrow> KeyValue list" where
  "nocrash_emit filename contents =
     [\<lparr>mKey = ''a'', mValue = filename\<rparr>, \<lparr>mKey = ''b'', mValue = Itoa (length filename)\<rparr>,
      \<lparr>mKey = ''c'', mValue = Itoa (length contents)\<rparr>, \<lparr>mKey = ''d'', mValue = ''xyzzy''\<rparr>]"

interpretation nocrash: mr_application "nocrash_Map rr" "nocrash_Reduce rr'" nocrash_emit "\<lambda>k vs. Join '' '' (sorted_list_of_multiset vs)" for rr rr'
  by unfold_locales (simp_all add: nocrash_Map_def nocrash_Reduce_def nocrash_maybeCrash_def nocrash_emit_def)

section \<open>Word count and index\<close>

text \<open>All words of the files.\<close>

definition all_words :: "(char \<Rightarrow> bool) \<Rightarrow> (string \<times> string) list \<Rightarrow> string list" where
  "all_words letter files = concat (map (\<lambda>(n, c). FieldsFunc c (\<lambda>r. \<not> letter r)) files)"

lemma emitted_wc: "emitted (wc_emit letter) files = map (\<lambda>w. \<lparr>mKey = w, mValue = ''1''\<rparr>) (all_words letter files)"
  by (induction files) (auto simp: emitted_def all_words_def wc_emit_def)

lemma wc_values: "size (values_of w (map (\<lambda>w. \<lparr>mKey = w, mValue = v\<rparr>) ws)) = count_list ws w"
  by (induction ws) (auto simp: values_of_def)

lemma wc_keys: "keys_of (map (\<lambda>w. \<lparr>mKey = w, mValue = v\<rparr>) ws) = set ws"
  by (auto simp: keys_of_def image_image)

definition has_word :: "(char \<Rightarrow> bool) \<Rightarrow> string \<Rightarrow> string \<Rightarrow> bool" where
  "has_word letter w content \<longleftrightarrow> w \<in> set (FieldsFunc content (\<lambda>r. \<not> letter r))"

definition iterates :: "(string set \<Rightarrow> string list) \<Rightarrow> bool" where
  "iterates iter \<longleftrightarrow> (\<forall>A. finite A \<longrightarrow> distinct (iter A) \<and> set (iter A) = A)"

lemma values_of_append: "values_of k (xs @ ys) = values_of k xs + values_of k ys"
  by (simp add: values_of_def)

lemma index_values:
  assumes it: "iterates iter"
  shows "values_of w (emitted (index_emit letter iter) files) = mset (map fst (filter (\<lambda>(n, c). has_word letter w c) files))"
proof (induction files)
  case Nil
  then show ?case by (simp add: emitted_def values_of_def)
next
  case (Cons p files)
  obtain n c where p: "p = (n, c)" by (cases p)
  let ?W = "set (FieldsFunc c (\<lambda>x. \<not> letter x))"
  have i: "distinct (iter ?W)" "set (iter ?W) = ?W" using it by (simp_all add: iterates_def)
  have "values_of w (map (\<lambda>w. \<lparr>mKey = w, mValue = n\<rparr>) ws) = (if w \<in> set ws then {#n#} else {#})" if "distinct ws" for ws
    using that by (induction ws) (auto simp: values_of_def split: if_splits)
  from this [OF i(1)] have "values_of w (index_emit letter iter n c) = (if has_word letter w c then {#n#} else {#})"
    using i(2) by (simp add: index_emit_def has_word_def)
  then show ?case using Cons p by (simp add: emitted_def values_of_append)
qed

lemma keys_of_append: "keys_of (xs @ ys) = keys_of xs \<union> keys_of ys"
  by (simp add: keys_of_def image_Un)

lemma index_keys:
  assumes it: "iterates iter"
  shows "keys_of (emitted (index_emit letter iter) files) = set (all_words letter files)"
proof (induction files)
  case (Cons p files)
  obtain n c where p: "p = (n, c)" by (cases p)
  have "keys_of (index_emit letter iter n c) = set (FieldsFunc c (\<lambda>r. \<not> letter r))"
    using it by (simp add: index_emit_def wc_keys iterates_def)
  moreover have "emitted (index_emit letter iter) (p # files) = index_emit letter iter n c @ emitted (index_emit letter iter) files"
    "all_words letter (p # files) = FieldsFunc c (\<lambda>r. \<not> letter r) @ all_words letter files"
    by (simp_all add: emitted_def all_words_def p)
  ultimately show ?case using Cons by (simp add: keys_of_append)
qed (simp add: emitted_def all_words_def keys_of_def)

section \<open>Words\<close>

text \<open>\<open>FieldsFunc\<close> cuts the text into maximal runs of non-separators.\<close>

lemma fields_loop_concat: "concat (fields_loop f cur s) = cur @ filter (\<lambda>c. \<not> f c) s"
  by (induction f cur s rule: fields_loop.induct) auto

lemma fields_loop_words:
  "w \<in> set (fields_loop f cur s) \<Longrightarrow> list_all (\<lambda>c. \<not> f c) cur \<Longrightarrow> w \<noteq> [] \<and> list_all (\<lambda>c. \<not> f c) w"
  by (induction f cur s rule: fields_loop.induct) (auto split: if_splits)

end
