(* ===== verification/Json.thy ===== *)
theory Json
  imports MapReduce
begin

text \<open>
  The part of \<open>encoding/json\<close> that \<^verbatim>\<open>porcupine/visualization.go\<close> uses: \<open>json.Marshal\<close> of integers, strings, slices, structs
  and maps with integer keys, and a reader of JSON texts, the specification it is checked against.

  Strings are lists of bytes.  \<open>Marshal\<close> decodes them as UTF-8: a byte that begins no valid encoding is written as \<open>\ufffd\<close>, the separators
  U+2028 and U+2029, which end a line in JavaScript, as \<open>\u2028\<close> and \<open>\u2029\<close>, and every other character outside ASCII is copied.
  It escapes the characters that mean something in HTML, because its output is put into a page.
\<close>

section \<open>Writing\<close>

datatype json =
    JNum int
  | JStr string
  | JArr "json list"
  | JObj "(string \<times> json) list"

definition hex_digit :: "nat \<Rightarrow> char" where
  "hex_digit k = ''0123456789abcdef'' ! k"

text \<open>One ASCII character.\<close>

definition escape :: "char \<Rightarrow> string" where
  "escape c =
     (if c = CHR 0x22 \<or> c = CHR 0x5C then [CHR 0x5C, c]
      else if c = CHR 0x0A then [CHR 0x5C, CHR ''n'']
      else if c = CHR 0x0D then [CHR 0x5C, CHR ''r'']
      else if c = CHR 0x09 then [CHR 0x5C, CHR ''t'']
      else if (of_char c :: nat) < 32 \<or> c \<in> {CHR ''<'', CHR ''>'', CHR ''&''} then
        [CHR 0x5C, CHR ''u'', CHR ''0'', CHR ''0'', hex_digit (of_char c div 16), hex_digit (of_char c mod 16)]
      else [c])"

text \<open>
  \<open>utf8.DecodeRuneInString\<close>: the number of bytes of the character at the start of the string, 0 if there is no valid encoding (overlong
  forms, surrogates and values above U+10FFFF are not valid).
\<close>

definition in_range :: "nat \<Rightarrow> nat \<Rightarrow> char \<Rightarrow> bool" where
  "in_range lo hi c \<longleftrightarrow> lo \<le> of_char c \<and> of_char c \<le> hi"

definition rune2 :: "char \<Rightarrow> char \<Rightarrow> bool" where
  "rune2 a b \<longleftrightarrow> in_range 0xC2 0xDF a \<and> in_range 0x80 0xBF b"

definition rune3 :: "char \<Rightarrow> char \<Rightarrow> char \<Rightarrow> bool" where
  "rune3 a b c \<longleftrightarrow>
     (in_range 0xE0 0xE0 a \<and> in_range 0xA0 0xBF b \<or> in_range 0xE1 0xEC a \<and> in_range 0x80 0xBF b \<or>
      in_range 0xED 0xED a \<and> in_range 0x80 0x9F b \<or> in_range 0xEE 0xEF a \<and> in_range 0x80 0xBF b) \<and> in_range 0x80 0xBF c"

definition rune4 :: "char \<Rightarrow> char \<Rightarrow> char \<Rightarrow> char \<Rightarrow> bool" where
  "rune4 a b c d \<longleftrightarrow>
     (in_range 0xF0 0xF0 a \<and> in_range 0x90 0xBF b \<or> in_range 0xF1 0xF3 a \<and> in_range 0x80 0xBF b \<or>
      in_range 0xF4 0xF4 a \<and> in_range 0x80 0x8F b) \<and> in_range 0x80 0xBF c \<and> in_range 0x80 0xBF d"

fun rune_size :: "string \<Rightarrow> nat" where
  "rune_size [] = 0"
| "rune_size [a] = (if in_range 0 0x7F a then 1 else 0)"
| "rune_size [a, b] = (if in_range 0 0x7F a then 1 else if rune2 a b then 2 else 0)"
| "rune_size [a, b, c] = (if in_range 0 0x7F a then 1 else if rune2 a b then 2 else if rune3 a b c then 3 else 0)"
| "rune_size (a # b # c # d # s) =
     (if in_range 0 0x7F a then 1 else if rune2 a b then 2 else if rune3 a b c then 3 else if rune4 a b c d then 4 else 0)"

text \<open>The bytes of U+2028 and U+2029.\<close>

definition line_sep :: "string \<Rightarrow> bool" where
  "line_sep u \<longleftrightarrow> u = [CHR 0xE2, CHR 0x80, CHR 0xA8] \<or> u = [CHR 0xE2, CHR 0x80, CHR 0xA9]"

function show_chars :: "string \<Rightarrow> string" where
  "show_chars [] = []"
| "show_chars (a # s) =
     (let n = rune_size (a # s); u = take n (a # s)
      in if n = 0 then [CHR 0x5C, CHR ''u'', CHR ''f'', CHR ''f'', CHR ''f'', CHR ''d''] @ show_chars s
         else (if n = 1 then escape a
               else if line_sep u then [CHR 0x5C, CHR ''u'', CHR ''2'', CHR ''0'', CHR ''2'', hex_digit (of_char (last u) mod 16)]
               else u) @ show_chars (drop (n - 1) s))"
  by pat_completeness auto
termination by (relation "measure length") (auto simp: less_Suc_eq_le)

definition show_string :: "string \<Rightarrow> string" where
  "show_string s = CHR 0x22 # show_chars s @ [CHR 0x22]"

definition show_int :: "int \<Rightarrow> string" where
  "show_int k = (if k < 0 then CHR ''-'' # Itoa (nat (- k)) else Itoa (nat k))"

fun show_json :: "json \<Rightarrow> string"
  and show_elems :: "json list \<Rightarrow> string"
  and show_members :: "(string \<times> json) list \<Rightarrow> string" where
  "show_json (JNum k) = show_int k"
| "show_json (JStr s) = show_string s"
| "show_json (JArr xs) = CHR ''['' # show_elems xs @ [CHR '']'']"
| "show_json (JObj ms) = CHR ''{'' # show_members ms @ [CHR ''}'']"
| "show_elems [] = []"
| "show_elems (x # xs) = show_json x @ (if xs = [] then [] else CHR '','' # show_elems xs)"
| "show_members [] = []"
| "show_members ((k, x) # ms) = show_string k @ CHR '':'' # show_json x @ (if ms = [] then [] else CHR '','' # show_members ms)"

section \<open>Reading\<close>

definition hex_value :: "char \<Rightarrow> nat option" where
  "hex_value c = (let k = length (takeWhile (\<lambda>d. d \<noteq> c) ''0123456789abcdef'') in if k < 16 then Some k else None)"

text \<open>The UTF-8 encoding of a code point below U+10000; the surrogates have none.\<close>

definition utf8_encode :: "nat \<Rightarrow> string option" where
  "utf8_encode v =
     (if v < 0x80 then Some [char_of v]
      else if v < 0x800 then Some [char_of (0xC0 + v div 64), char_of (0x80 + v mod 64)]
      else if 0xD800 \<le> v \<and> v \<le> 0xDFFF \<or> 0x10000 \<le> v then None
      else Some [char_of (0xE0 + v div 4096), char_of (0x80 + v div 64 mod 64), char_of (0x80 + v mod 64)])"

definition hex4 :: "char \<Rightarrow> char \<Rightarrow> char \<Rightarrow> char \<Rightarrow> string option" where
  "hex4 a b c d =
     (case (hex_value a, hex_value b, hex_value c, hex_value d) of
        (Some ka, Some kb, Some kc, Some kd) \<Rightarrow> utf8_encode (4096 * ka + 256 * kb + 16 * kc + kd)
      | _ \<Rightarrow> None)"

text \<open>The characters of a string up to the closing quote.  A pair of escaped surrogates is not read.\<close>

fun read_chars :: "string \<Rightarrow> (string \<times> string) option" where
  "read_chars [] = None"
| "read_chars (c # cs) =
     (if c = CHR 0x22 then Some ([], cs)
      else if c \<noteq> CHR 0x5C then map_option (\<lambda>(t, r). (c # t, r)) (read_chars cs)
      else (case cs of
              [] \<Rightarrow> None
            | e # es \<Rightarrow>
                if e = CHR ''u'' then
                  (case es of
                     z # z' # a # b # r \<Rightarrow>
                       (case hex4 z z' a b of
                          Some u \<Rightarrow> map_option (\<lambda>(t, r). (u @ t, r)) (read_chars r)
                        | None \<Rightarrow> None)
                   | _ \<Rightarrow> None)
                else map_option (\<lambda>(t, r). ((if e = CHR ''n'' then CHR 0x0A else if e = CHR ''r'' then CHR 0x0D else if e = CHR ''t'' then CHR 0x09 else e) # t, r))
                       (read_chars es)))"

definition read_int :: "string \<Rightarrow> (int \<times> string) option" where
  "read_int s =
     (let neg = (s \<noteq> [] \<and> hd s = CHR ''-''); u = (if neg then tl s else s); ds = takeWhile is_digit u
      in if ds = [] then None else Some ((if neg then - int (digits_value ds) else int (digits_value ds)), dropWhile is_digit u))"

text \<open>The first argument bounds the nesting and the lengths; \<open>None\<close> is a text that is not JSON, or too deep.\<close>

fun read_json :: "nat \<Rightarrow> string \<Rightarrow> (json \<times> string) option"
  and read_elems :: "nat \<Rightarrow> string \<Rightarrow> (json list \<times> string) option"
  and read_members :: "nat \<Rightarrow> string \<Rightarrow> ((string \<times> json) list \<times> string) option" where
  "read_json 0 s = None"
| "read_json (Suc n) s =
     (case s of
        [] \<Rightarrow> None
      | c # cs \<Rightarrow>
          if c = CHR 0x22 then map_option (\<lambda>(t, r). (JStr t, r)) (read_chars cs)
          else if c = CHR ''['' then
            (if cs \<noteq> [] \<and> hd cs = CHR '']'' then Some (JArr [], tl cs) else map_option (\<lambda>(xs, r). (JArr xs, r)) (read_elems n cs))
          else if c = CHR ''{'' then
            (if cs \<noteq> [] \<and> hd cs = CHR ''}'' then Some (JObj [], tl cs) else map_option (\<lambda>(ms, r). (JObj ms, r)) (read_members n cs))
          else map_option (\<lambda>(k, r). (JNum k, r)) (read_int s))"
| "read_elems 0 s = None"
| "read_elems (Suc n) s =
     (case read_json n s of
        Some (x, d # r) \<Rightarrow>
          if d = CHR '']'' then Some ([x], r)
          else if d = CHR '','' then map_option (\<lambda>(xs, r'). (x # xs, r')) (read_elems n r) else None
      | _ \<Rightarrow> None)"
| "read_members 0 s = None"
| "read_members (Suc n) s =
     (case s of
        q # cs \<Rightarrow>
          if q \<noteq> CHR 0x22 then None
          else (case read_chars cs of
                  Some (k, col # r) \<Rightarrow>
                    if col \<noteq> CHR '':'' then None
                    else (case read_json n r of
                            Some (x, d # r') \<Rightarrow>
                              if d = CHR ''}'' then Some ([(k, x)], r')
                              else if d = CHR '','' then map_option (\<lambda>(ms, r''). ((k, x) # ms, r'')) (read_members n r') else None
                          | _ \<Rightarrow> None)
                | _ \<Rightarrow> None)
      | _ \<Rightarrow> None)"

definition parse_json :: "string \<Rightarrow> json option" where
  "parse_json s = (case read_json (Suc (length s)) s of Some (j, []) \<Rightarrow> Some j | _ \<Rightarrow> None)"

section \<open>The reader reads what is written\<close>

text \<open>
  What can be read back of a string: \<open>to_valid\<close> replaces every byte that begins no character by the encoding of U+FFFD, the
  replacement character.  Strings of valid UTF-8 it leaves alone.
\<close>

definition replacement :: string where
  "replacement = [CHR 0xEF, CHR 0xBF, CHR 0xBD]"

function to_valid :: "string \<Rightarrow> string" where
  "to_valid [] = []"
| "to_valid (a # s) =
     (let n = rune_size (a # s)
      in if n = 0 then replacement @ to_valid s else take n (a # s) @ to_valid (drop (n - 1) s))"
  by pat_completeness auto
termination by (relation "measure length") (auto simp: less_Suc_eq_le)

function utf8_valid :: "string \<Rightarrow> bool" where
  "utf8_valid [] \<longleftrightarrow> True"
| "utf8_valid (a # s) \<longleftrightarrow> rune_size (a # s) \<noteq> 0 \<and> utf8_valid (drop (rune_size (a # s) - 1) s)"
  by pat_completeness auto
termination by (relation "measure length") (auto simp: less_Suc_eq_le)

lemma take_drop_Cons: "n \<noteq> 0 \<Longrightarrow> take n (a # s) @ drop (n - 1) s = a # s"
  by (cases n) simp_all

lemma to_valid_id: "utf8_valid s \<Longrightarrow> to_valid s = s"
proof (induction s rule: to_valid.induct)
  case (2 a s)
  then show ?case using take_drop_Cons [of "rune_size (a # s)" a s] by (simp add: Let_def del: take_Cons')
qed simp

lemma ascii_valid: "list_all (in_range 0 0x7F) s \<Longrightarrow> utf8_valid s"
proof (induction s)
  case (Cons a s)
  then have "rune_size (a # s) = 1" by (cases "a # s" rule: rune_size.cases) simp_all
  with Cons show ?case by simp
qed simp

lemma runes_high:
  "rune2 a b \<Longrightarrow> in_range 0x80 0xFF a \<and> in_range 0x80 0xFF b"
  "rune3 a b c \<Longrightarrow> in_range 0x80 0xFF a \<and> in_range 0x80 0xFF b \<and> in_range 0x80 0xFF c"
  "rune4 a b c d \<Longrightarrow> in_range 0x80 0xFF a \<and> in_range 0x80 0xFF b \<and> in_range 0x80 0xFF c \<and> in_range 0x80 0xFF d"
  unfolding rune2_def rune3_def rune4_def in_range_def by linarith+

lemma rune_size_kinds:
  "rune_size s = 0 \<or> (\<exists>a s'. s = a # s' \<and> rune_size s = 1 \<and> in_range 0 0x7F a) \<or>
   1 < rune_size s \<and> list_all (in_range 0x80 0xFF) (take (rune_size s) s)"
  by (cases s rule: rune_size.cases) (auto dest: runes_high)

lemma rune_size_cases:
  obtains (invalid) "rune_size s = 0" | (ascii) a s' where "s = a # s'" "rune_size s = 1" "in_range 0 0x7F a"
    | (multi) "1 < rune_size s" "list_all (in_range 0x80 0xFF) (take (rune_size s) s)"
  using rune_size_kinds [of s] that by auto

lemma hex_value_digit: "k < 16 \<Longrightarrow> hex_value (hex_digit k) = Some k"
proof -
  assume "k < 16"
  then have "k \<in> {0, 1, 2, 3, 4, 5, 6, 7, 8, 9, 10, 11, 12, 13, 14, 15}" unfolding insert_iff empty_iff by arith
  then show ?thesis by (auto simp: hex_value_def hex_digit_def)
qed

lemma utf8_encode_ascii: "in_range 0 0x7F c \<Longrightarrow> utf8_encode (of_char c) = Some [c]"
  by (simp add: utf8_encode_def in_range_def)

lemma read_escape: "in_range 0 0x7F c \<Longrightarrow> read_chars (escape c @ r) = map_option (\<lambda>(t, r'). (c # t, r')) (read_chars r)"
proof -
  assume c: "in_range 0 0x7F c"
  have h: "hex_value (hex_digit (of_char c div 16)) = Some (of_char c div 16)" "hex_value (hex_digit (of_char c mod 16)) = Some (of_char c mod 16)"
    using nat_of_char_less_256 [of c] by (simp_all add: hex_value_digit less_mult_imp_div_less)
  have "hex_value (CHR ''0'') = Some 0" by (simp add: hex_value_def)
  then have "hex4 (CHR ''0'') (CHR ''0'') (hex_digit (of_char c div 16)) (hex_digit (of_char c mod 16)) = Some [c]"
    using h utf8_encode_ascii [OF c] by (simp add: hex4_def)
  then show ?thesis by (simp add: escape_def)
qed

lemma read_replacement: "read_chars ([CHR 0x5C, CHR ''u'', CHR ''f'', CHR ''f'', CHR ''f'', CHR ''d''] @ r) = map_option (\<lambda>(t, r'). (replacement @ t, r')) (read_chars r)"
proof -
  have "hex4 (CHR ''f'') (CHR ''f'') (CHR ''f'') (CHR ''d'') = Some replacement"
    by (simp add: hex4_def hex_value_def utf8_encode_def replacement_def char_of_eq_iff)
  then show ?thesis by simp
qed

lemma read_line_sep:
  assumes "line_sep u"
  shows "read_chars ([CHR 0x5C, CHR ''u'', CHR ''2'', CHR ''0'', CHR ''2'', hex_digit (of_char (last u) mod 16)] @ r) = map_option (\<lambda>(t, r'). (u @ t, r')) (read_chars r)"
proof -
  have "hex4 (CHR ''2'') (CHR ''0'') (CHR ''2'') (hex_digit (of_char (CHR 0xA8) mod 16)) = Some [CHR 0xE2, CHR 0x80, CHR 0xA8]"
    "hex4 (CHR ''2'') (CHR ''0'') (CHR ''2'') (hex_digit (of_char (CHR 0xA9) mod 16)) = Some [CHR 0xE2, CHR 0x80, CHR 0xA9]"
    by (simp_all add: hex4_def hex_value_def hex_digit_def utf8_encode_def char_of_eq_iff)
  then have "hex4 (CHR ''2'') (CHR ''0'') (CHR ''2'') (hex_digit (of_char (last u) mod 16)) = Some u" using assms by (auto simp: line_sep_def)
  then show ?thesis by simp
qed

lemma read_copied: "list_all (in_range 0x80 0xFF) u \<Longrightarrow> read_chars (u @ r) = map_option (\<lambda>(t, r'). (u @ t, r')) (read_chars r)"
proof (induction u)
  case Nil
  then show ?case by (cases "read_chars r") auto
next
  case (Cons c u)
  then have "c \<noteq> CHR 0x22" "c \<noteq> CHR 0x5C" by (auto simp: in_range_def)
  with Cons show ?case by (cases "read_chars r") auto
qed

lemma read_string: "read_chars (show_chars s @ CHR 0x22 # r) = Some (to_valid s, r)"
proof (induction s rule: show_chars.induct)
  case (2 a s)
  let ?n = "rune_size (a # s)"
  show ?case
  proof (cases "a # s" rule: rune_size_cases)
    case invalid
    then show ?thesis using 2(1) [OF refl refl invalid] read_replacement [of "show_chars s @ CHR 0x22 # r"] by (simp add: Let_def)
  next
    case (ascii a' s')
    then have "read_chars (show_chars s @ CHR 0x22 # r) = Some (to_valid s, r)" using 2(2) [OF refl refl] by simp
    then show ?thesis using ascii read_escape [of a "show_chars s @ CHR 0x22 # r"] by (simp add: Let_def)
  next
    case multi
    let ?u = "take ?n (a # s)"
    have IH: "read_chars (show_chars (drop (?n - 1) s) @ CHR 0x22 # r) = Some (to_valid (drop (?n - 1) s), r)"
      using 2(2) [OF refl refl] multi(1) by simp
    have v: "to_valid (a # s) = ?u @ to_valid (drop (?n - 1) s)" using multi(1) by (simp add: Let_def)
    have w: "show_chars (a # s) = (if line_sep ?u then [CHR 0x5C, CHR ''u'', CHR ''2'', CHR ''0'', CHR ''2'', hex_digit (of_char (last ?u) mod 16)] else ?u)
        @ show_chars (drop (?n - 1) s)" using multi(1) by (simp add: Let_def)
    show ?thesis
    proof (cases "line_sep ?u")
      case True
      show ?thesis using read_line_sep [OF True, of "show_chars (drop (?n - 1) s) @ CHR 0x22 # r"] unfolding v w IH using True by simp
    next
      case False
      show ?thesis using read_copied [OF multi(2), of "show_chars (drop (?n - 1) s) @ CHR 0x22 # r"] unfolding v w IH using False by simp
    qed
  qed
qed simp

text \<open>The value that is read back: every string made valid.\<close>

fun clean_json :: "json \<Rightarrow> json"
  and clean_elems :: "json list \<Rightarrow> json list"
  and clean_members :: "(string \<times> json) list \<Rightarrow> (string \<times> json) list" where
  "clean_json (JNum k) = JNum k"
| "clean_json (JStr s) = JStr (to_valid s)"
| "clean_json (JArr xs) = JArr (clean_elems xs)"
| "clean_json (JObj ms) = JObj (clean_members ms)"
| "clean_elems [] = []"
| "clean_elems (x # xs) = clean_json x # clean_elems xs"
| "clean_members [] = []"
| "clean_members ((k, x) # ms) = (to_valid k, clean_json x) # clean_members ms"

lemma clean_elems_map: "clean_elems xs = map clean_json xs"
  by (induction xs) simp_all

lemma clean_members_map: "clean_members ms = map (\<lambda>(k, x). (to_valid k, clean_json x)) ms"
  by (induction ms) auto

definition no_digit :: "string \<Rightarrow> bool" where
  "no_digit r \<longleftrightarrow> r = [] \<or> \<not> is_digit (hd r)"

lemma digits_of_Itoa: "no_digit r \<Longrightarrow> takeWhile is_digit (Itoa n @ r) = Itoa n" "no_digit r \<Longrightarrow> dropWhile is_digit (Itoa n @ r) = r"
  using Itoa_digits [of _ n] by (cases r; simp add: no_digit_def takeWhile_append2 dropWhile_append2)+

lemma Itoa_hd: "is_digit (hd (Itoa n @ r))"
  using Itoa_digits [of "hd (Itoa n)" n] Itoa_not_Nil [of n] by (cases "Itoa n") auto

lemma read_show_int: "no_digit r \<Longrightarrow> read_int (show_int k @ r) = Some (k, r)"
proof -
  assume r: "no_digit r"
  have "hd (Itoa n @ r) \<noteq> CHR ''-''" for n using Itoa_hd [of n r] by (auto simp: is_digit_def)
  then show ?thesis using r by (simp add: read_int_def show_int_def digits_of_Itoa Itoa_not_Nil Itoa_value)
qed

lemma show_int_hd: "\<exists>c cs. show_int k = c # cs \<and> (c = CHR ''-'' \<or> is_digit c)"
  using Itoa_hd [of "nat k" "[]"] Itoa_not_Nil [of "nat k"] by (cases "Itoa (nat k)") (auto simp: show_int_def)

lemma show_json_hd: "\<exists>c cs. show_json j = c # cs \<and> c \<noteq> CHR '']''"
  using show_int_hd by (cases j) (fastforce simp: show_string_def is_digit_def)+

lemma show_nonempty: "0 < length (show_json j)"
  using show_json_hd [of j] by auto

lemma no_digit_delims [simp]: "no_digit (CHR '']'' # r)" "no_digit (CHR ''}'' # r)" "no_digit (CHR '','' # r)" "no_digit []"
  by (simp_all add: no_digit_def is_digit_def)

text \<open>Fuel of at least the length of the text is enough, since every level of the reader consumes a character.\<close>

lemma read_show:
  "length (show_json j) \<le> n \<Longrightarrow> no_digit r \<Longrightarrow> read_json n (show_json j @ r) = Some (clean_json j, r)"
  "xs \<noteq> [] \<Longrightarrow> length (show_elems xs) < n \<Longrightarrow> read_elems n (show_elems xs @ CHR '']'' # r) = Some (clean_elems xs, r)"
  "ms \<noteq> [] \<Longrightarrow> length (show_members ms) < n \<Longrightarrow> read_members n (show_members ms @ CHR ''}'' # r) = Some (clean_members ms, r)"
proof (induction j and xs and ms arbitrary: n r and n r and n r rule: show_json_show_elems_show_members.induct)
  case (1 k)
  obtain c cs where c: "show_int k = c # cs" "c = CHR ''-'' \<or> is_digit c" using show_int_hd by blast
  then obtain m where "n = Suc m" using 1 by (cases n) simp_all
  then show ?case using c read_show_int [OF 1(2), of k] by (auto simp: is_digit_def)
next
  case (2 s)
  then show ?case by (cases n) (simp_all add: show_string_def read_string)
next
  case (3 xs)
  from 3(2) obtain m where n: "n = Suc m" "length (show_elems xs) < m" by (cases n) auto
  show ?case
  proof (cases xs)
    case (Cons x ys)
    then obtain c cs where "show_elems xs = c # cs" "c \<noteq> CHR '']''" using show_json_hd [of x] by auto
    then show ?thesis using 3(1) [OF _ n(2)] Cons n by simp
  qed (use n in simp)
next
  case (4 ms)
  from 4(2) obtain m where n: "n = Suc m" "length (show_members ms) < m" by (cases n) auto
  show ?case
  proof (cases ms)
    case (Cons p ps)
    then obtain cs where "show_members ms = CHR 0x22 # cs" by (cases p) (simp add: show_string_def)
    then show ?thesis using 4(1) [OF _ n(2)] Cons n by simp
  qed (use n in simp)
next
  case (6 x xs)
  from 6(4) obtain m where n: "n = Suc m" "length (show_json x) \<le> m" by (cases n) auto
  show ?case
  proof (cases "xs = []")
    case True
    then show ?thesis using 6(1) [OF n(2), of "CHR '']'' # r"] n by simp
  next
    case False
    then have "length (show_elems xs) < m" using 6(4) n show_nonempty [of x] by simp
    then show ?thesis using False 6(1) [OF n(2), of "CHR '','' # show_elems xs @ CHR '']'' # r"] 6(2) [OF False] n by simp
  qed
next
  case (8 k x ms)
  from 8(4) obtain m where n: "n = Suc m" "length (show_json x) \<le> m" by (cases n) auto
  show ?case
  proof (cases "ms = []")
    case True
    then show ?thesis using 8(1) [OF n(2), of "CHR ''}'' # r"] n by (simp add: show_string_def read_string)
  next
    case False
    then have "length (show_members ms) < m" using 8(4) n by (simp add: show_string_def)
    then show ?thesis using False 8(1) [OF n(2), of "CHR '','' # show_members ms @ CHR ''}'' # r"] 8(2) [OF False] n
      by (simp add: show_string_def read_string)
  qed
qed simp_all

lemma parse_show: "parse_json (show_json j) = Some (clean_json j)"
  using read_show(1) [of j "Suc (length (show_json j))" "[]"] by (simp add: parse_json_def)

section \<open>What the output does not contain\<close>

definition html_char :: "char \<Rightarrow> bool" where
  "html_char c \<longleftrightarrow> c = CHR ''<'' \<or> c = CHR ''>'' \<or> c = CHR ''&''"

lemma hex_digit_plain: "k < 16 \<Longrightarrow> \<not> html_char (hex_digit k)"
proof -
  assume "k < 16"
  then have "hex_digit k \<in> set ''0123456789abcdef''" unfolding hex_digit_def by (intro nth_mem) simp
  then show ?thesis by (auto simp: html_char_def)
qed

lemma escape_plain: "c \<in> set (escape d) \<Longrightarrow> \<not> html_char c"
  using nat_of_char_less_256 [of d] hex_digit_plain [of "of_char d div 16"] hex_digit_plain [of "of_char d mod 16"]
  by (auto simp: escape_def html_char_def less_mult_imp_div_less split: if_splits)

lemma show_chars_plain: "c \<in> set (show_chars s) \<Longrightarrow> \<not> html_char c"
proof (induction s rule: show_chars.induct)
  case (2 a s)
  let ?n = "rune_size (a # s)"
  show ?case
  proof (cases "a # s" rule: rune_size_cases)
    case invalid
    then show ?thesis using 2(1) [OF refl refl invalid] 2(3) by (auto simp: Let_def html_char_def)
  next
    case (ascii a' s')
    then show ?thesis using 2(2) [OF refl refl] 2(3) escape_plain [of c a] by (auto simp: Let_def)
  next
    case multi
    let ?u = "take ?n (a # s)"
    have "c \<in> set ?u \<Longrightarrow> \<not> html_char c" using multi(2) by (auto simp: list_all_iff in_range_def html_char_def dest!: bspec [of _ _ c])
    moreover have "\<not> html_char (hex_digit (of_char (last ?u) mod 16))" by (rule hex_digit_plain) simp
    moreover have "c \<in> set ?u \<or> c \<in> {CHR 0x5C, CHR ''u'', CHR ''2'', CHR ''0'', hex_digit (of_char (last ?u) mod 16)} \<or> c \<in> set (show_chars (drop (?n - 1) s))"
      using 2(3) multi(1) by (auto simp: Let_def split: if_splits)
    ultimately show ?thesis using 2(2) [OF refl refl] multi(1) by (auto simp: html_char_def)
  qed
qed simp

lemma show_string_plain: "c \<in> set (show_string s) \<Longrightarrow> \<not> html_char c"
  using show_chars_plain by (auto simp: show_string_def html_char_def)

lemma show_plain:
  "c \<in> set (show_json j) \<Longrightarrow> \<not> html_char c" "c \<in> set (show_elems xs) \<Longrightarrow> \<not> html_char c" "c \<in> set (show_members ms) \<Longrightarrow> \<not> html_char c"
proof (induction j and xs and ms rule: show_json_show_elems_show_members.induct)
  case (1 k)
  then show ?case using Itoa_digits by (fastforce simp: show_int_def html_char_def is_digit_def split: if_splits)
next
  case (2 s)
  then show ?case using show_string_plain by simp
next
  case (8 k x ms)
  then show ?case using show_string_plain [of c k] by (auto simp: html_char_def split: if_splits)
qed (auto simp: html_char_def split: if_splits)

end
