(* ===== verification/VizPage.thy ===== *)
theory VizPage
  imports Visualization Json
begin

text \<open>
  \<open>Visualize\<close> and \<open>VisualizePath\<close> of \<^verbatim>\<open>porcupine/visualization.go\<close>: the data of the visualization as JSON inside a page.

  The page is the constant \<open>html\<close> of the source, an argument here: the source's text has a single \<open>%\<close>, that of the verb
  \<open>%s\<close> in a script element, and \<open>Fprintf\<close> replaces it by the JSON text.  A writer takes a text to its next state and an
  error, if any.
\<close>

section \<open>The data as JSON\<close>

definition element_json :: "historyElement \<Rightarrow> json" where
  "element_json h = JObj [(''ClientId'', JNum (HClientId h)), (''Start'', JNum (Start h)), (''End'', JNum (End h)), (''Description'', JStr (Description h))]"

definition step_json :: "linearizationStep \<Rightarrow> json" where
  "step_json l = JObj [(''Index'', JNum (Index l)), (''StateDescription'', JStr (StateDescription l))]"

text \<open>
  The keys of the map \<open>Largest\<close> are indices of the partial linearizations (\<open>largest_keys_complete\<close>); \<open>Marshal\<close> writes them
  in the order of their texts.
\<close>

definition largest_keys :: "partitionVisualizationData \<Rightarrow> int list" where
  "largest_keys d = sort_key show_int (filter (\<lambda>k. Largest d k \<noteq> None) (remdups (map Index (concat (VPartials d)))))"

definition partition_json :: "partitionVisualizationData \<Rightarrow> json" where
  "partition_json d = JObj
     [(''History'', JArr (map element_json (VHistory d))),
      (''PartialLinearizations'', JArr (map (\<lambda>p. JArr (map step_json p)) (VPartials d))),
      (''Largest'', JObj (map (\<lambda>k. (show_int k, JNum (the (Largest d k)))) (largest_keys d)))]"

definition viz_json :: "partitionVisualizationData list \<Rightarrow> json" where
  "viz_json data = JArr (map partition_json data)"

definition Marshal :: "partitionVisualizationData list \<Rightarrow> string" where
  "Marshal data = show_json (viz_json data)"

section \<open>The page\<close>

text \<open>\<open>Fprintf\<close> with one byte slice as its argument; formats without exactly one \<open>%s\<close> are not modelled (\<open>None\<close>).\<close>

fun Fprintf_s :: "string \<Rightarrow> string \<Rightarrow> string option" where
  "Fprintf_s [] arg = None"
| "Fprintf_s (c # cs) arg =
     (if c \<noteq> CHR ''%'' then map_option (Cons c) (Fprintf_s cs arg)
      else (case cs of
              v # post \<Rightarrow> if v = CHR ''s'' \<and> CHR ''%'' \<notin> set post then Some (arg @ post) else None
            | [] \<Rightarrow> None))"

type_synonym 'w writer = "'w \<Rightarrow> string \<Rightarrow> 'w \<times> string option"

definition Visualize :: "('v iface \<Rightarrow> string) \<Rightarrow> ('s \<Rightarrow> string) \<Rightarrow> (int list list \<Rightarrow> int list list) \<Rightarrow> string \<Rightarrow> ('v, 's) Model
    \<Rightarrow> 'v linearizationInfo \<Rightarrow> 'w writer \<Rightarrow> 'w \<Rightarrow> ('w \<times> string option \<times> 'v linearizationInfo) res option" where
  "Visualize fmtv fmts sortSlice html model info write w =
     (case computeVisualizationData fmtv fmts sortSlice model info of
        Inl f \<Rightarrow> Some (Inl f)
      | Inr (data, info') \<Rightarrow>
          (let jsonData = Marshal data
           in case Fprintf_s html jsonData of
                None \<Rightarrow> None
              | Some text \<Rightarrow> (let (w', err) = write w text in Some (Inr (w', err, info')))))"

text \<open>\<open>create\<close> is \<open>os.Create\<close>: the new file, or the error.\<close>

definition VisualizePath :: "('v iface \<Rightarrow> string) \<Rightarrow> ('s \<Rightarrow> string) \<Rightarrow> (int list list \<Rightarrow> int list list) \<Rightarrow> string \<Rightarrow> ('v, 's) Model
    \<Rightarrow> 'v linearizationInfo \<Rightarrow> (string \<Rightarrow> string + 'w) \<Rightarrow> 'w writer \<Rightarrow> string \<Rightarrow> ('w option \<times> string option \<times> 'v linearizationInfo) res option" where
  "VisualizePath fmtv fmts sortSlice html model info create write path =
     (case create path of
        Inl err \<Rightarrow> Some (Inr (None, Some err, info))
      | Inr f \<Rightarrow> map_option (\<lambda>r. rbind r (\<lambda>(f', err, info'). Inr (Some f', err, info'))) (Visualize fmtv fmts sortSlice html model info write f))"

lemma Fprintf_s_once: "CHR ''%'' \<notin> set pre \<Longrightarrow> CHR ''%'' \<notin> set post \<Longrightarrow> Fprintf_s (pre @ ''%s'' @ post) arg = Some (pre @ arg @ post)"
  by (induction pre) auto

section \<open>The JSON text determines the data\<close>

lemma element_json_inject: "element_json h = element_json h' \<longleftrightarrow> h = h'"
  by (cases h, cases h') (simp add: element_json_def)

lemma step_json_inject: "step_json l = step_json l' \<longleftrightarrow> l = l'"
  by (cases l, cases l') (simp add: step_json_def)

lemma show_int_inject: "show_int k = show_int k' \<longleftrightarrow> k = k'"
proof
  assume "show_int k = show_int k'"
  then have "read_int (show_int k @ []) = read_int (show_int k' @ [])" by (rule arg_cong)
  then show "k = k'" unfolding read_show_int [OF no_digit_delims(4)] by simp
qed (rule arg_cong)

text \<open>Every key of \<open>Largest\<close> is the index of some step.\<close>

definition keys_ok :: "partitionVisualizationData \<Rightarrow> bool" where
  "keys_ok d \<longleftrightarrow> (\<forall>k. Largest d k \<noteq> None \<longrightarrow> k \<in> Index ` set (concat (VPartials d)))"

lemma largest_lookup:
  assumes "keys_ok d"
  shows "map_of (map (\<lambda>k. (show_int k, JNum (the (Largest d k)))) (largest_keys d)) (show_int i) = map_option JNum (Largest d i)"
proof -
  have "map_of (map (\<lambda>k. (show_int k, g k)) ks) (show_int i) = (if i \<in> set ks then Some (g i) else None)" for ks and g :: "int \<Rightarrow> json"
    by (induction ks) (auto simp: show_int_inject)
  moreover have "i \<in> set (largest_keys d) \<longleftrightarrow> Largest d i \<noteq> None" using assms by (auto simp: largest_keys_def keys_ok_def)
  ultimately show ?thesis by auto
qed

lemma partition_json_inject:
  assumes "keys_ok d" "keys_ok d'" "partition_json d = partition_json d'"
  shows "d = d'"
proof -
  from assms(3) have h: "map element_json (VHistory d) = map element_json (VHistory d')"
    and p: "map (\<lambda>p. JArr (map step_json p)) (VPartials d) = map (\<lambda>p. JArr (map step_json p)) (VPartials d')"
    and l: "map (\<lambda>k. (show_int k, JNum (the (Largest d k)))) (largest_keys d) = map (\<lambda>k. (show_int k, JNum (the (Largest d' k)))) (largest_keys d')"
    by (simp_all add: partition_json_def)
  have e: "inj element_json" and st: "inj step_json" by (simp_all add: inj_def element_json_inject step_json_inject)
  have "inj (\<lambda>p. JArr (map step_json p))" by (simp add: inj_def inj_map_eq_map [OF st])
  with e have "VHistory d = VHistory d'" "VPartials d = VPartials d'" using h p by (simp_all add: inj_map_eq_map)
  moreover have "Largest d i = Largest d' i" for i
    using largest_lookup [OF assms(1), of i] largest_lookup [OF assms(2), of i] l
    by (cases "Largest d i"; cases "Largest d' i") auto
  ultimately show ?thesis by (cases d, cases d') (auto simp: fun_eq_iff)
qed

text \<open>The keys of \<open>Largest\<close> in what \<open>computeVisualizationData\<close> returns.\<close>

lemma viz_steps_keys:
  "viz_steps M cv rv i n st ls li hs = Inr (steps', ls', li') \<Longrightarrow> li' k \<noteq> None \<Longrightarrow> li k \<noteq> None \<or> k \<in> Index ` set steps'"
proof (induction M cv rv i n st ls li hs arbitrary: steps' ls' li' rule: viz_steps.induct)
  case (2 M cv rv i n st ls li h hs)
  from 2(2) obtain st' sd rest ls1 li1 where
    r: "viz_steps M cv rv i n st' (if ls h < n then ls(h := n) else ls) (if ls h < n then li(h \<mapsto> i) else li) hs = Inr (rest, ls1, li1)"
    "Step M st (cv h) (rv h) = Inr (True, st')" "call_describe_state M st' = Inr sd"
    "steps' = \<lparr>Index = h, StateDescription = sd\<rparr> # rest" "li' = li1"
    by (auto simp: rbind_eq_Inr Let_def split: if_splits)
  have "(if ls h < n then li(h \<mapsto> i) else li) k \<noteq> None \<or> k \<in> Index ` set rest"
    by (rule 2(1) [OF _ refl refl refl r(1)]) (use 2(3) r(5) in auto)
  then show ?case unfolding r(4) by (auto split: if_splits)
qed auto

lemma viz_partials_keys:
  "viz_partials M cv rv i ls li ps = Inr (lins, li') \<Longrightarrow> li' k \<noteq> None \<Longrightarrow> li k \<noteq> None \<or> k \<in> Index ` set (concat lins)"
proof (induction M cv rv i ls li ps arbitrary: lins li' rule: viz_partials.induct)
  case (2 M cv rv i ls li p ps)
  from 2(2) obtain lin ls1 li1 lins1 where
    r: "viz_steps M cv rv i (int (length p)) (Init M) ls li p = Inr (lin, ls1, li1)" "viz_partials M cv rv (i + 1) ls1 li1 ps = Inr (lins1, li')"
    "lins = lin # lins1" by (auto simp: rbind_eq_Inr)
  from 2(1) [OF r(2) 2(3)] viz_steps_keys [OF r(1), of k] show ?case unfolding r(3) by auto
qed auto

lemma viz_partition_keys: "viz_partition sortSlice M es ps = Inr (d, ps') \<Longrightarrow> keys_ok d"
  using viz_partials_keys by (fastforce simp: viz_partition_def keys_ok_def rbind_eq_Inr Let_def)

lemma viz_loop_keys: "viz_loop sortSlice M part ips hs = Inr (data, ips') \<Longrightarrow> list_all keys_ok data"
proof (induction sortSlice M part ips hs arbitrary: data ips' rule: viz_loop.induct)
  case (2 sortSlice M part ips es hs)
  from 2(2) obtain ps d ps' ips1 data' where
    r: "slice_get ips part = Inr ps" "viz_partition sortSlice M es ps = Inr (d, ps')" "slice_set ips part ps' = Inr ips1"
    "viz_loop sortSlice M (part + 1) ips1 hs = Inr (data', ips')" "data = d # data'" by (auto simp: rbind_eq_Inr)
  from 2(1) [OF r(4)] viz_partition_keys [OF r(2)] r(5) show ?case by simp
qed simp

lemma computeVisualizationData_keys:
  "computeVisualizationData fmtv fmts sortSlice model info = Inr (data, info') \<Longrightarrow> list_all keys_ok data"
  by (auto simp: computeVisualizationData_def Let_def rbind_eq_Inr dest: viz_loop_keys)

lemma viz_json_inject:
  "list_all keys_ok data \<Longrightarrow> list_all keys_ok data' \<Longrightarrow> viz_json data = viz_json data' \<Longrightarrow> data = data'"
  using list.inj_map_strong [of data data' partition_json partition_json] partition_json_inject
  by (auto simp: viz_json_def list_all_iff)

text \<open>
  What can be read of the data: \<open>Marshal\<close> replaces bytes of the descriptions that are not UTF-8, and nothing else.
\<close>

definition viz_clean :: "partitionVisualizationData \<Rightarrow> partitionVisualizationData" where
  "viz_clean d = d\<lparr>VHistory := map (\<lambda>h. h\<lparr>Description := to_valid (Description h)\<rparr>) (VHistory d),
     VPartials := map (map (\<lambda>l. l\<lparr>StateDescription := to_valid (StateDescription l)\<rparr>)) (VPartials d)\<rparr>"

definition viz_valid :: "partitionVisualizationData \<Rightarrow> bool" where
  "viz_valid d \<longleftrightarrow> (\<forall>h\<in>set (VHistory d). utf8_valid (Description h)) \<and> (\<forall>l\<in>set (concat (VPartials d)). utf8_valid (StateDescription l))"

lemma viz_clean_valid: "viz_valid d \<Longrightarrow> viz_clean d = d"
proof -
  assume v: "viz_valid d"
  have "map (\<lambda>h. h\<lparr>Description := to_valid (Description h)\<rparr>) (VHistory d) = VHistory d"
    by (rule map_idI) (use v in \<open>simp add: viz_valid_def to_valid_id\<close>)
  moreover have "map (map (\<lambda>l. l\<lparr>StateDescription := to_valid (StateDescription l)\<rparr>)) (VPartials d) = VPartials d"
    by (rule map_idI, rule map_idI) (use v in \<open>force simp: viz_valid_def to_valid_id\<close>)
  ultimately show ?thesis by (simp add: viz_clean_def)
qed

lemma is_digit_ascii: "is_digit c \<Longrightarrow> in_range 0 0x7F c"
  by (auto simp: is_digit_def in_range_def)

lemma show_int_valid: "utf8_valid (show_int k)"
proof (rule ascii_valid)
  have "list_all (in_range 0 0x7F) (Itoa n)" for n using Itoa_digits is_digit_ascii by (auto simp: list_all_iff)
  moreover have "in_range 0 0x7F (CHR ''-'')" by (simp add: in_range_def)
  ultimately show "list_all (in_range 0 0x7F) (show_int k)" by (simp add: show_int_def)
qed

lemma field_names_valid:
  "to_valid ''ClientId'' = ''ClientId''" "to_valid ''Start'' = ''Start''" "to_valid ''End'' = ''End''" "to_valid ''Description'' = ''Description''"
  "to_valid ''Index'' = ''Index''" "to_valid ''StateDescription'' = ''StateDescription''" "to_valid ''History'' = ''History''"
  "to_valid ''PartialLinearizations'' = ''PartialLinearizations''" "to_valid ''Largest'' = ''Largest''"
  by (rule to_valid_id, rule ascii_valid, simp add: in_range_def)+

lemma largest_keys_clean: "largest_keys (viz_clean d) = largest_keys d"
proof -
  have "map Index (concat (VPartials (viz_clean d))) = map Index (concat (VPartials d))" by (simp add: viz_clean_def map_concat o_def)
  moreover have "Largest (viz_clean d) = Largest d" by (simp add: viz_clean_def)
  ultimately show ?thesis by (simp add: largest_keys_def)
qed

lemma clean_partition_json: "clean_json (partition_json d) = partition_json (viz_clean d)"
proof -
  have "clean_json (element_json h) = element_json (h\<lparr>Description := to_valid (Description h)\<rparr>)" for h
    by (simp add: element_json_def field_names_valid del: to_valid.simps)
  moreover have "clean_json (step_json l) = step_json (l\<lparr>StateDescription := to_valid (StateDescription l)\<rparr>)" for l
    by (simp add: step_json_def field_names_valid del: to_valid.simps)
  moreover have "Largest (viz_clean d) = Largest d" by (simp add: viz_clean_def)
  ultimately show ?thesis
    by (simp add: partition_json_def field_names_valid clean_elems_map clean_members_map o_def largest_keys_clean to_valid_id [OF show_int_valid] del: to_valid.simps)
      (simp add: viz_clean_def o_def clean_elems_map del: to_valid.simps)
qed

lemma Marshal_read: "parse_json (Marshal data) = Some (viz_json (map viz_clean data))"
  unfolding Marshal_def parse_show by (simp add: viz_json_def clean_elems_map clean_partition_json)

lemma viz_clean_keys: "keys_ok d \<Longrightarrow> keys_ok (viz_clean d)"
proof -
  assume k: "keys_ok d"
  have "Index ` set (concat (VPartials (viz_clean d))) = set (map Index (concat (VPartials (viz_clean d))))" by simp
  also have "map Index (concat (VPartials (viz_clean d))) = map Index (concat (VPartials d))" by (simp add: viz_clean_def map_concat o_def)
  finally show ?thesis using k by (simp add: keys_ok_def) (simp add: viz_clean_def)
qed

section \<open>What the page shows\<close>

text \<open>
  C31. Whatever history was checked, \<open>Visualize\<close> writes the page with the data of the check in the place of \<open>%s\<close>: a text that reads
  back, as JSON, as that data, with the bytes of descriptions that are not valid UTF-8 replaced by U+FFFD; data whose descriptions are
  valid UTF-8 reads back exactly.  Two checks give the same text only if their data differs in such bytes at most.
  The text has no \<open><\<close>, \<open>>\<close> or \<open>&\<close>, so that no description of an operation or a state can end the script element it stands in.
\<close>

theorem Visualize_page:
  assumes "computeVisualizationData fmtv fmts sortSlice model info = Inr (data, info')"
    and "html = pre @ ''%s'' @ post" and "CHR ''%'' \<notin> set pre" and "CHR ''%'' \<notin> set post" and "write w (pre @ txt @ post) = (w', err)"
    and "txt = Marshal data"
  shows "Visualize fmtv fmts sortSlice html model info write w = Some (Inr (w', err, info')) \<and>
    parse_json txt = Some (viz_json (map viz_clean data)) \<and> (list_all viz_valid data \<longrightarrow> parse_json txt = Some (viz_json data)) \<and>
    \<not> list_ex html_char txt \<and>
    (\<forall>model2 info2 data2 info2'. computeVisualizationData fmtv fmts sortSlice model2 info2 = Inr (data2, info2') \<and> Marshal data2 = txt \<longrightarrow>
       map viz_clean data2 = map viz_clean data \<and> (list_all viz_valid data \<and> list_all viz_valid data2 \<longrightarrow> data2 = data))"
proof (intro conjI allI impI)
  show "Visualize fmtv fmts sortSlice html model info write w = Some (Inr (w', err, info'))"
    using Fprintf_s_once [OF assms(3,4), of "Marshal data"] assms(1,2,5,6) by (simp add: Visualize_def Let_def)
  show parse: "parse_json txt = Some (viz_json (map viz_clean data))" by (simp add: assms(6) Marshal_read)
  have id: "map viz_clean d = d" if "list_all viz_valid d" for d using that by (simp add: list_all_iff viz_clean_valid map_idI)
  then show "parse_json txt = Some (viz_json data)" if "list_all viz_valid data" using parse that by simp
  show "\<not> list_ex html_char txt" using show_plain(1) by (auto simp: assms(6) Marshal_def list_ex_iff)
  fix model2 :: "('a, 'b) Model" and info2 data2 info2'
  assume "computeVisualizationData fmtv fmts sortSlice model2 info2 = Inr (data2, info2') \<and> Marshal data2 = txt"
  then have c: "computeVisualizationData fmtv fmts sortSlice model2 info2 = Inr (data2, info2')" and m: "Marshal data2 = txt" by simp_all
  have "viz_json (map viz_clean data2) = viz_json (map viz_clean data)" using parse Marshal_read [of data2] m by simp
  moreover have "list_all keys_ok (map viz_clean data2)" "list_all keys_ok (map viz_clean data)"
    using computeVisualizationData_keys [OF c] computeVisualizationData_keys [OF assms(1)] viz_clean_keys by (auto simp: list_all_iff)
  ultimately show eq: "map viz_clean data2 = map viz_clean data" using viz_json_inject by blast
  show "data2 = data" if "list_all viz_valid data \<and> list_all viz_valid data2" using eq id that by simp
qed

text \<open>A partition of one operation whose description would close the script, and has a byte that is not UTF-8 and a line separator.\<close>

definition tag_text :: string where
  "tag_text = ''</script>'' @ [CHR 0xFF, CHR 0xE2, CHR 0x80, CHR 0xA8]"

definition tag_data :: "string \<Rightarrow> partitionVisualizationData list" where
  "tag_data t = [\<lparr>VHistory = [\<lparr>HClientId = 0, Start = 1, End = 2, Description = t\<rparr>], VPartials = [[]], Largest = (\<lambda>_. None)\<rparr>]"

definition tag_model :: "(unit, unit) Model" where
  "tag_model = \<lparr>Partition = None, PartitionEvent = None, Init = (), Step = (\<lambda>_ _ _. Inr (True, ())), Equal = None,
     DescribeOperation = Some (\<lambda>_ _. Inr tag_text), DescribeState = None\<rparr>"

definition tag_info :: "unit linearizationInfo" where
  "tag_info = \<lparr>lhistory = [[\<lparr>ekind = callEntry, evalue = None, eid = 0, etime = 1, eclientId = 0\<rparr>,
     \<lparr>ekind = returnEntry, evalue = None, eid = 0, etime = 2, eclientId = 0\<rparr>]], partialLinearizations = [[[]]]\<rparr>"

lemma tag_data_computed: "computeVisualizationData (\<lambda>_. []) (\<lambda>_. []) (\<lambda>x. x) tag_model tag_info = Inr (tag_data tag_text, tag_info)"
  by (simp add: computeVisualizationData_def tag_model_def tag_info_def tag_data_def fillDefault_def viz_partition_def call_describe_def
      slice_get_def slice_set_def Let_def)

lemma tag_text_valid: "to_valid tag_text = ''</script>'' @ [CHR 0xEF, CHR 0xBF, CHR 0xBD, CHR 0xE2, CHR 0x80, CHR 0xA8]"
  by code_simp

theorem Visualize_page_witness:
  "Visualize (\<lambda>_. []) (\<lambda>_. []) (\<lambda>x. x) ''<script>%s</script>'' tag_model tag_info (\<lambda>w s. (w @ s, None)) [] =
     Some (Inr (''<script>'' @ Marshal (tag_data tag_text) @ ''</script>'', None, tag_info)) \<and>
   parse_json (Marshal (tag_data tag_text)) = Some (viz_json (tag_data (''</script>'' @ [CHR 0xEF, CHR 0xBF, CHR 0xBD, CHR 0xE2, CHR 0x80, CHR 0xA8]))) \<and>
   \<not> list_ex html_char (Marshal (tag_data tag_text))"
proof -
  have "map viz_clean (tag_data tag_text) = tag_data (''</script>'' @ [CHR 0xEF, CHR 0xBF, CHR 0xBD, CHR 0xE2, CHR 0x80, CHR 0xA8])"
    by (simp add: tag_data_def viz_clean_def tag_text_valid)
  then show ?thesis
    using Visualize_page [OF tag_data_computed, of "''<script>%s</script>''" "''<script>''" "''</script>''" "\<lambda>w s. (w @ s, None)" "[]" "Marshal (tag_data tag_text)"]
    by simp
qed

end
