(* ===== verification/Labrpc.thy ===== *)
theory Labrpc
  imports Prelude
begin

text \<open>
  The simulated network of \<^verbatim>\<open>labrpc/labrpc.go\<close>: end-points, servers, services, and the life of a
  request in \<open>processReq\<close>.

  Names of end-points (\<open>'e\<close>) and servers (\<open>'n\<close>) are \<open>interface{}\<close> values used as map keys only.  The
  network compares \<open>*Server\<close> pointers, so servers live in a store and the map \<open>servers\<close> holds
  addresses; a nil entry and a missing one are both \<open>None\<close>.  The wire format is that of package
  \<open>encoding/gob\<close>: \<open>codec\<close> has the encoder, and the decoder with its error flag.  A handler is a
  function of the receiver and the argument; reflection is a list of method descriptors.

  \<open>processReq\<close> runs once per request, concurrently with everything else, and looks at the network at
  several moments, so a request is a small state machine: every event of \<open>rpc_event\<close> is one atomic
  action of some goroutine, with the random numbers it draws.
\<close>

section \<open>Messages and codec\<close>

type_synonym bytes = "8 word list"

record 'e reqMsg =
  endname :: 'e
  svcMeth :: string
  rargs :: bytes

record replyMsg =
  rep_ok :: bool
  rep_bytes :: bytes

record 'v codec =
  c_encode :: "'v \<Rightarrow> bytes"
  c_decode :: "bytes \<Rightarrow> 'v \<times> bool"

definition no_reply :: replyMsg where
  "no_reply = \<lparr>rep_ok = False, rep_bytes = []\<rparr>"

section \<open>Services and servers\<close>

type_synonym ('o, 'v) handler = "'o \<Rightarrow> 'v \<Rightarrow> 'o \<times> 'v"

text \<open>A method as reflection shows it.\<close>

record ('o, 'v) method_descr =
  md_name :: string
  md_PkgPath :: string
  md_NumIn :: nat
  md_In2_is_ptr :: bool
  md_NumOut :: nat
  md_func :: "('o, 'v) handler"

record ('o, 'v) Service =
  sv_name :: string
  sv_rcvr :: 'o
  sv_methods :: "string \<Rightarrow> ('o, 'v) handler option"

definition is_handler :: "('o, 'v) method_descr \<Rightarrow> bool" where
  "is_handler m = (\<not> (md_PkgPath m \<noteq> [] \<or> md_NumIn m \<noteq> 3 \<or> \<not> md_In2_is_ptr m \<or> md_NumOut m \<noteq> 0))"

definition MakeService :: "string \<Rightarrow> 'o \<Rightarrow> ('o, 'v) method_descr list \<Rightarrow> ('o, 'v) Service" where
  "MakeService typename rcvr ms =
     \<lparr>sv_name = typename, sv_rcvr = rcvr,
      sv_methods = fold (\<lambda>m meths. if is_handler m then meths(md_name m \<mapsto> md_func m) else meths) ms Map.empty\<rparr>"

definition service_dispatch :: "'v codec \<Rightarrow> string \<Rightarrow> 'e reqMsg \<Rightarrow> ('o, 'v) Service \<Rightarrow> (('o, 'v) Service \<times> replyMsg) res" where
  "service_dispatch K methname req svc =
     (case sv_methods svc methname of
        Some f \<Rightarrow>
          (let args = fst (c_decode K (rargs req));
               (rcvr', replyv) = f (sv_rcvr svc) args
           in Inr (svc\<lparr>sv_rcvr := rcvr'\<rparr>, \<lparr>rep_ok = True, rep_bytes = c_encode K replyv\<rparr>))
      | None \<Rightarrow> Inl (Fatal ''labrpc.Service.dispatch(): unknown method''))"

record ('o, 'v) Server =
  services :: "string \<Rightarrow> ('o, 'v) Service option"
  sv_count :: int

definition MakeServer :: "('o, 'v) Server" where
  "MakeServer = \<lparr>services = Map.empty, sv_count = 0\<rparr>"

definition AddService :: "('o, 'v) Service \<Rightarrow> ('o, 'v) Server \<Rightarrow> ('o, 'v) Server" where
  "AddService svc rs = rs\<lparr>services := (services rs)(sv_name svc \<mapsto> svc)\<rparr>"

text \<open>\<open>strings.LastIndex(s, ".")\<close>: \<open>-1\<close> if there is no dot.\<close>

fun last_dot :: "int \<Rightarrow> int \<Rightarrow> string \<Rightarrow> int" where
  "last_dot i found [] = found"
| "last_dot i found (c # cs) = last_dot (i + 1) (if c = CHR ''.'' then i else found) cs"

definition LastIndex_dot :: "string \<Rightarrow> int" where
  "LastIndex_dot s = last_dot 0 (-1) s"

definition server_dispatch :: "'v codec \<Rightarrow> 'e reqMsg \<Rightarrow> ('o, 'v) Server \<Rightarrow> (('o, 'v) Server \<times> replyMsg) res" where
  "server_dispatch K req rs0 =
     (let rs = rs0\<lparr>sv_count := sv_count rs0 + 1\<rparr>;
          dot = LastIndex_dot (svcMeth req)
      in if dot < 0 then Inl (Panic ''slice bounds out of range'')
         else
           (let serviceName = take (nat dot) (svcMeth req);
                methodName = drop (nat (dot + 1)) (svcMeth req)
            in case services rs serviceName of
                 Some service \<Rightarrow>
                   rbind (service_dispatch K methodName req service) (\<lambda>(service', reply).
                   Inr (rs\<lparr>services := (services rs)(serviceName \<mapsto> service')\<rparr>, reply))
               | None \<Rightarrow> Inl (Fatal ''labrpc.Server.dispatch(): unknown service'')))"

definition server_GetCount :: "('o, 'v) Server \<Rightarrow> int" where
  "server_GetCount rs = sv_count rs"

section \<open>The network\<close>

record ('e, 'n) Network =
  reliable :: bool
  longDelays :: bool
  longReordering :: bool
  ends :: "'e \<Rightarrow> unit option"
  enabled :: "'e \<Rightarrow> bool"
  servers :: "'n \<Rightarrow> nat option"
  connections :: "'e \<Rightarrow> 'n option"
  net_done :: bool
  net_count :: "32 word"
  net_bytes :: "64 word"

definition MakeNetwork :: "('e, 'n) Network" where
  "MakeNetwork = \<lparr>reliable = True, longDelays = False, longReordering = False, ends = Map.empty, enabled = (\<lambda>_. False),
     servers = Map.empty, connections = Map.empty, net_done = False, net_count = 0, net_bytes = 0\<rparr>"

definition Cleanup :: "('e, 'n) Network \<Rightarrow> ('e, 'n) Network res" where
  "Cleanup rn = (if net_done rn then Inl CloseOfClosed else Inr (rn\<lparr>net_done := True\<rparr>))"

definition Reliable :: "bool \<Rightarrow> ('e, 'n) Network \<Rightarrow> ('e, 'n) Network" where
  "Reliable yes rn = rn\<lparr>reliable := yes\<rparr>"

definition LongReordering :: "bool \<Rightarrow> ('e, 'n) Network \<Rightarrow> ('e, 'n) Network" where
  "LongReordering yes rn = rn\<lparr>longReordering := yes\<rparr>"

definition LongDelays :: "bool \<Rightarrow> ('e, 'n) Network \<Rightarrow> ('e, 'n) Network" where
  "LongDelays yes rn = rn\<lparr>longDelays := yes\<rparr>"

definition readEndnameInfo :: "'e \<Rightarrow> ('e, 'n) Network \<Rightarrow> bool \<times> 'n option \<times> nat option \<times> bool \<times> bool" where
  "readEndnameInfo en rn =
     (let servername = connections rn en;
          server = (case servername of None \<Rightarrow> None | Some sn \<Rightarrow> servers rn sn)
      in (enabled rn en, servername, server, reliable rn, longReordering rn))"

definition isServerDead :: "'e \<Rightarrow> 'n \<Rightarrow> nat \<Rightarrow> ('e, 'n) Network \<Rightarrow> bool" where
  "isServerDead en servername server rn = (enabled rn en = False \<or> servers rn servername \<noteq> Some server)"

definition MakeEnd :: "'e \<Rightarrow> ('e, 'n) Network \<Rightarrow> ('e, 'n) Network res" where
  "MakeEnd en rn =
     (if ends rn en \<noteq> None then Inl (Fatal ''MakeEnd: already exists'')
      else Inr (rn\<lparr>ends := (ends rn)(en \<mapsto> ()), enabled := (enabled rn)(en := False),
                   connections := (connections rn)(en := None)\<rparr>))"

definition AddServer :: "'n \<Rightarrow> nat \<Rightarrow> ('e, 'n) Network \<Rightarrow> ('e, 'n) Network" where
  "AddServer servername rs rn = rn\<lparr>servers := (servers rn)(servername := Some rs)\<rparr>"

definition DeleteServer :: "'n \<Rightarrow> ('e, 'n) Network \<Rightarrow> ('e, 'n) Network" where
  "DeleteServer servername rn = rn\<lparr>servers := (servers rn)(servername := None)\<rparr>"

definition Connect :: "'e \<Rightarrow> 'n \<Rightarrow> ('e, 'n) Network \<Rightarrow> ('e, 'n) Network" where
  "Connect en servername rn = rn\<lparr>connections := (connections rn)(en := Some servername)\<rparr>"

definition Enable :: "'e \<Rightarrow> bool \<Rightarrow> ('e, 'n) Network \<Rightarrow> ('e, 'n) Network" where
  "Enable en b rn = rn\<lparr>enabled := (enabled rn)(en := b)\<rparr>"

definition net_GetCount :: "'n \<Rightarrow> ('o, 'v) Server list \<Rightarrow> ('e, 'n) Network \<Rightarrow> int res" where
  "net_GetCount servername store rn =
     (case servers rn servername of
        None \<Rightarrow> Inl NilDeref
      | Some a \<Rightarrow> if a < length store then Inr (server_GetCount (store ! a)) else Inl NilDeref)"

definition GetTotalCount :: "('e, 'n) Network \<Rightarrow> int" where
  "GetTotalCount rn = sint (net_count rn)"

definition GetTotalBytes :: "('e, 'n) Network \<Rightarrow> int" where
  "GetTotalBytes rn = sint (net_bytes rn)"

definition add_bytes :: "bytes \<Rightarrow> ('e, 'n) Network \<Rightarrow> ('e, 'n) Network" where
  "add_bytes bs rn = rn\<lparr>net_bytes := net_bytes rn + of_nat (length bs)\<rparr>"

text \<open>The calls a test may make on the network while requests are in flight.\<close>

datatype ('e, 'n) net_op =
    OpReliable bool | OpLongReordering bool | OpLongDelays bool | OpMakeEnd 'e | OpAddServer 'n nat | OpDeleteServer 'n
  | OpConnect 'e 'n | OpEnable 'e bool | OpCleanup

fun net_apply :: "('e, 'n) net_op \<Rightarrow> ('e, 'n) Network \<Rightarrow> ('e, 'n) Network res" where
  "net_apply (OpReliable yes) rn = Inr (Reliable yes rn)"
| "net_apply (OpLongReordering yes) rn = Inr (LongReordering yes rn)"
| "net_apply (OpLongDelays yes) rn = Inr (LongDelays yes rn)"
| "net_apply (OpMakeEnd en) rn = MakeEnd en rn"
| "net_apply (OpAddServer sn rs) rn = Inr (AddServer sn rs rn)"
| "net_apply (OpDeleteServer sn) rn = Inr (DeleteServer sn rn)"
| "net_apply (OpConnect en sn) rn = Inr (Connect en sn rn)"
| "net_apply (OpEnable en b) rn = Inr (Enable en b rn)"
| "net_apply OpCleanup rn = Cleanup rn"

section \<open>The life of a request\<close>

text \<open>
  \<open>Executing\<close>: the wait loop, with what \<open>readEndnameInfo\<close> returned; \<open>GotReply\<close> and \<open>SawDeath\<close>: the two
  ways out of it; \<open>TimingOut\<close> and \<open>Delayed\<close>: a timer function will send the reply.
\<close>

datatype 'n req_status =
    NotStarted
  | Executing 'n nat bool bool
  | GotReply 'n nat bool bool replyMsg
  | SawDeath 'n nat bool bool
  | TimingOut
  | Delayed replyMsg
  | Done replyMsg

record ('e, 'n) request =
  q_req :: "'e reqMsg"
  q_status :: "'n req_status"
  q_spawned :: "nat option"
  q_ech :: "replyMsg option"
  q_execs :: nat

record ('e, 'n, 'o, 'v) world =
  w_net :: "('e, 'n) Network"
  w_store :: "('o, 'v) Server list"
  w_reqs :: "('e, 'n) request list"
  w_listening :: bool

text \<open>
  The network goroutine takes a request from \<open>endCh\<close>.  \<open>Cleanup\<close> closes \<open>done\<close>, but the goroutine's \<open>select\<close> may still
  choose a waiting request until it chooses \<open>done\<close> and ends (\<open>w_listening\<close>); a caller's \<open>select\<close> may give up as soon as \<open>done\<close> is closed.
\<close>

definition accept_req :: "'e reqMsg \<Rightarrow> ('e, 'n) Network \<Rightarrow> ('e, 'n) Network" where
  "accept_req req rn = add_bytes (rargs req) (rn\<lparr>net_count := net_count rn + 1\<rparr>)"

text \<open>\<open>processReq\<close> up to the wait loop; \<open>roll\<close> is the outcome of \<open>rand.Int() % 1000\<close>.\<close>

definition proc_begin :: "nat \<Rightarrow> ('e, 'n) Network \<Rightarrow> ('e, 'n) request \<Rightarrow> ('e, 'n) request" where
  "proc_begin roll rn q =
     (case readEndnameInfo (endname (q_req q)) rn of
        (True, Some servername, Some server, rel, longre) \<Rightarrow>
          if rel = False \<and> roll mod 1000 < 100 then q\<lparr>q_status := Done no_reply\<rparr>
          else q\<lparr>q_status := Executing servername server rel longre, q_spawned := Some server\<rparr>
      | _ \<Rightarrow> q\<lparr>q_status := TimingOut\<rparr>)"

text \<open>One poll of the wait loop after 100 ms.\<close>

definition proc_poll :: "('e, 'n) Network \<Rightarrow> ('e, 'n) request \<Rightarrow> ('e, 'n) request" where
  "proc_poll rn q =
     (case q_status q of
        Executing servername server rel longre \<Rightarrow>
          if isServerDead (endname (q_req q)) servername server rn
          then q\<lparr>q_status := SawDeath servername server rel longre\<rparr> else q
      | _ \<Rightarrow> q)"

text \<open>After the wait loop; \<open>roll\<close> and \<open>reorder\<close> are \<open>rand.Int() % 1000\<close> and \<open>rand.Intn(900)\<close>.\<close>

definition proc_finish :: "nat \<Rightarrow> nat \<Rightarrow> ('e, 'n) Network \<Rightarrow> ('e, 'n) request \<Rightarrow> ('e, 'n) Network \<times> ('e, 'n) request" where
  "proc_finish roll reorder rn q =
     (case q_status q of
        SawDeath _ _ _ _ \<Rightarrow> (rn, q\<lparr>q_status := Done no_reply\<rparr>)
      | GotReply servername server rel longre reply \<Rightarrow>
          if isServerDead (endname (q_req q)) servername server rn then (rn, q\<lparr>q_status := Done no_reply\<rparr>)
          else if rel = False \<and> roll mod 1000 < 100 then (rn, q\<lparr>q_status := Done no_reply\<rparr>)
          else if longre = True \<and> reorder mod 900 < 600 then (rn, q\<lparr>q_status := Delayed reply\<rparr>)
          else (add_bytes (rep_bytes reply) rn, q\<lparr>q_status := Done reply\<rparr>)
      | _ \<Rightarrow> (rn, q))"

text \<open>The timer functions.\<close>

definition proc_timer :: "('e, 'n) Network \<Rightarrow> ('e, 'n) request \<Rightarrow> ('e, 'n) Network \<times> ('e, 'n) request" where
  "proc_timer rn q =
     (case q_status q of
        TimingOut \<Rightarrow> (rn, q\<lparr>q_status := Done no_reply\<rparr>)
      | Delayed reply \<Rightarrow> (add_bytes (rep_bytes reply) rn, q\<lparr>q_status := Done reply\<rparr>)
      | _ \<Rightarrow> (rn, q))"

datatype ('e, 'n) rpc_event =
    Submit "'e reqMsg"
  | Begin nat nat
  | Handle nat
  | TakeReply nat
  | Poll nat
  | FinishReq nat nat nat
  | Timer nat
  | Admin "('e, 'n) net_op"
  | StopListening
  | GiveUp

definition rpc_step :: "'v codec \<Rightarrow> ('e, 'n) rpc_event \<Rightarrow> ('e, 'n, 'o, 'v) world \<Rightarrow> ('e, 'n, 'o, 'v) world res option" where
  "rpc_step K ev w =
     (let upd = (\<lambda>i q. (w_reqs w)[i := q]) in
      case ev of
        Submit req \<Rightarrow>
          if \<not> w_listening w then None
          else Some (Inr (w\<lparr>w_net := accept_req req (w_net w),
                 w_reqs := w_reqs w @ [\<lparr>q_req = req, q_status = NotStarted, q_spawned = None, q_ech = None, q_execs = 0\<rparr>]\<rparr>))
      | Begin i roll \<Rightarrow>
          if i < length (w_reqs w) \<and> q_status (w_reqs w ! i) = NotStarted
          then Some (Inr (w\<lparr>w_reqs := upd i (proc_begin roll (w_net w) (w_reqs w ! i))\<rparr>)) else None
      | Handle i \<Rightarrow>
          if i < length (w_reqs w) then
            (let q = w_reqs w ! i in
             case q_spawned q of
               None \<Rightarrow> None
             | Some server \<Rightarrow>
                 if server < length (w_store w) then
                   (case server_dispatch K (q_req q) (w_store w ! server) of
                      Inl f \<Rightarrow> Some (Inl f)
                    | Inr (rs', reply) \<Rightarrow>
                        Some (Inr (w\<lparr>w_store := (w_store w)[server := rs'],
                                     w_reqs := upd i (q\<lparr>q_spawned := None, q_ech := Some reply, q_execs := q_execs q + 1\<rparr>)\<rparr>)))
                 else Some (Inl NilDeref))
          else None
      | TakeReply i \<Rightarrow>
          if i < length (w_reqs w) then
            (let q = w_reqs w ! i in
             case (q_status q, q_ech q) of
               (Executing sn srv rel longre, Some reply) \<Rightarrow>
                 Some (Inr (w\<lparr>w_reqs := upd i (q\<lparr>q_status := GotReply sn srv rel longre reply, q_ech := None\<rparr>)\<rparr>))
             | _ \<Rightarrow> None)
          else None
      | Poll i \<Rightarrow>
          if i < length (w_reqs w) then Some (Inr (w\<lparr>w_reqs := upd i (proc_poll (w_net w) (w_reqs w ! i))\<rparr>)) else None
      | FinishReq i roll reorder \<Rightarrow>
          if i < length (w_reqs w) then
            (let (rn', q') = proc_finish roll reorder (w_net w) (w_reqs w ! i)
             in Some (Inr (w\<lparr>w_net := rn', w_reqs := upd i q'\<rparr>)))
          else None
      | Timer i \<Rightarrow>
          if i < length (w_reqs w) then
            (let (rn', q') = proc_timer (w_net w) (w_reqs w ! i)
             in Some (Inr (w\<lparr>w_net := rn', w_reqs := upd i q'\<rparr>)))
          else None
      | Admin nop \<Rightarrow>
          (case net_apply nop (w_net w) of Inl f \<Rightarrow> Some (Inl f) | Inr rn' \<Rightarrow> Some (Inr (w\<lparr>w_net := rn'\<rparr>)))
      | StopListening \<Rightarrow> if net_done (w_net w) \<and> w_listening w then Some (Inr (w\<lparr>w_listening := False\<rparr>)) else None
      | GiveUp \<Rightarrow> if net_done (w_net w) then Some (Inr w) else None)"

fun rpc_run :: "'v codec \<Rightarrow> ('e, 'n) rpc_event list \<Rightarrow> ('e, 'n, 'o, 'v) world \<Rightarrow> ('e, 'n, 'o, 'v) world res option" where
  "rpc_run K [] w = Some (Inr w)"
| "rpc_run K (ev # evs) w =
     (case rpc_step K ev w of None \<Rightarrow> None | Some (Inl f) \<Rightarrow> Some (Inl f) | Some (Inr w') \<Rightarrow> rpc_run K evs w')"

text \<open>\<open>ClientEnd.Call\<close>: the request it sends and what it makes of the reply (the decoded value, if any).\<close>

definition call_request :: "'v codec \<Rightarrow> 'e \<Rightarrow> string \<Rightarrow> 'v \<Rightarrow> 'e reqMsg" where
  "call_request K en meth args = \<lparr>endname = en, svcMeth = meth, rargs = c_encode K args\<rparr>"

definition call_return :: "'v codec \<Rightarrow> replyMsg \<Rightarrow> (bool \<times> 'v option) res" where
  "call_return K rep =
     (if rep_ok rep then
        (case c_decode K (rep_bytes rep) of
           (v, True) \<Rightarrow> Inr (True, Some v)
         | (_, False) \<Rightarrow> Inl (Fatal ''ClientEnd.Call(): decode reply''))
      else Inr (False, None))"


section \<open>Dispatch\<close>

lemma last_dot_absent: "CHR ''.'' \<notin> set s \<Longrightarrow> last_dot i found s = found"
  by (induction i found s rule: last_dot.induct) auto

lemma last_dot_split: "CHR ''.'' \<notin> set b \<Longrightarrow> last_dot i found (a @ CHR ''.'' # b) = i + int (length a)"
  by (induction a arbitrary: i found) (simp_all add: last_dot_absent)

lemma LastIndex_dot_split: "CHR ''.'' \<notin> set b \<Longrightarrow> LastIndex_dot (a @ CHR ''.'' # b) = int (length a)"
  by (simp add: LastIndex_dot_def last_dot_split)

lemma server_dispatch_ok:
  assumes "svcMeth req = sname @ CHR ''.'' # meth" and "CHR ''.'' \<notin> set meth"
    and "services rs sname = Some svc" and "sv_methods svc meth = Some f"
    and "f (sv_rcvr svc) (fst (c_decode K (rargs req))) = (o', v)"
  shows "server_dispatch K req rs =
    Inr (rs\<lparr>sv_count := sv_count rs + 1, services := (services rs)(sname \<mapsto> svc\<lparr>sv_rcvr := o'\<rparr>)\<rparr>, \<lparr>rep_ok = True, rep_bytes = c_encode K v\<rparr>)"
  using assms by (simp add: server_dispatch_def Let_def LastIndex_dot_split service_dispatch_def nat_add_distrib)

lemma server_dispatch_reply_ok:
  "server_dispatch K req rs = Inr (rs', reply) \<Longrightarrow> rep_ok reply"
  by (auto simp: server_dispatch_def service_dispatch_def Let_def rbind_eq_Inr split_beta split: if_splits option.splits)

lemma MakeService_methods:
  "sv_methods (MakeService n r ms) name =
     map_of (map (\<lambda>m. (md_name m, md_func m)) (rev (filter is_handler ms))) name"
proof -
  have "fold (\<lambda>m meths. if is_handler m then meths(md_name m \<mapsto> md_func m) else meths) ms acc =
      acc ++ map_of (map (\<lambda>m. (md_name m, md_func m)) (rev (filter is_handler ms)))" for acc :: "string \<Rightarrow> ('a, 'b) handler option"
    by (induction ms arbitrary: acc) (simp_all add: map_add_assoc fun_upd_def map_add_def fun_eq_iff split: option.splits)
  then show ?thesis by (simp add: MakeService_def)
qed


section \<open>Invariant of the requests\<close>

definition attempts :: "('e, 'n) request \<Rightarrow> nat" where
  "attempts q = q_execs q + (case q_spawned q of None \<Rightarrow> 0 | Some _ \<Rightarrow> 1)"

definition fresh_req :: "('e, 'n) request \<Rightarrow> bool" where
  "fresh_req q \<longleftrightarrow> attempts q = 0 \<and> q_ech q = None"

definition executed_once :: "('e, 'n) request \<Rightarrow> bool" where
  "executed_once q \<longleftrightarrow> q_execs q = 1 \<and> q_spawned q = None"

text \<open>A handler runs at most once per request, and a positive reply comes from a handler that has run.\<close>

definition req_inv :: "('e, 'n) request \<Rightarrow> bool" where
  "req_inv q \<longleftrightarrow>
     attempts q \<le> 1 \<and> (\<forall>r. q_ech q = Some r \<longrightarrow> rep_ok r \<and> executed_once q) \<and>
     (case q_status q of
        NotStarted \<Rightarrow> fresh_req q
      | TimingOut \<Rightarrow> fresh_req q
      | GotReply _ _ _ _ r \<Rightarrow> rep_ok r \<and> executed_once q
      | Delayed r \<Rightarrow> rep_ok r \<and> executed_once q
      | Done r \<Rightarrow> rep_ok r \<longrightarrow> executed_once q
      | _ \<Rightarrow> True)"

lemmas req_inv_defs = req_inv_def attempts_def fresh_req_def executed_once_def no_reply_def

lemma proc_begin_inv: "req_inv q \<Longrightarrow> q_status q = NotStarted \<Longrightarrow> req_inv (proc_begin roll rn q)"
  by (auto simp: proc_begin_def req_inv_defs split: prod.splits bool.splits option.splits)

lemma proc_poll_inv: "req_inv q \<Longrightarrow> req_inv (proc_poll rn q)"
  by (auto simp: proc_poll_def req_inv_defs split: req_status.splits option.splits)

lemma proc_finish_inv: "req_inv q \<Longrightarrow> req_inv (snd (proc_finish roll reorder rn q))"
  by (auto simp: proc_finish_def req_inv_defs split: req_status.splits option.splits)

lemma proc_timer_inv: "req_inv q \<Longrightarrow> req_inv (snd (proc_timer rn q))"
  by (auto simp: proc_timer_def req_inv_defs split: req_status.splits option.splits)

definition world_inv :: "('e, 'n, 'o, 'v) world \<Rightarrow> bool" where
  "world_inv w \<longleftrightarrow> (\<forall>q\<in>set (w_reqs w). req_inv q)"

lemma world_inv_update:
  "world_inv w \<Longrightarrow> i < length (w_reqs w) \<Longrightarrow> req_inv q \<Longrightarrow> world_inv (w\<lparr>w_net := rn, w_reqs := (w_reqs w)[i := q]\<rparr>)"
  "world_inv w \<Longrightarrow> i < length (w_reqs w) \<Longrightarrow> req_inv q \<Longrightarrow> world_inv (w\<lparr>w_reqs := (w_reqs w)[i := q]\<rparr>)"
  "world_inv w \<Longrightarrow> i < length (w_reqs w) \<Longrightarrow> req_inv q \<Longrightarrow> world_inv (w\<lparr>w_store := st, w_reqs := (w_reqs w)[i := q]\<rparr>)"
  by (auto simp: world_inv_def dest!: set_update_subset_insert [THEN subsetD])

lemma world_inv_nth: "world_inv w \<Longrightarrow> i < length (w_reqs w) \<Longrightarrow> req_inv (w_reqs w ! i)"
  by (simp add: world_inv_def)

lemma handle_inv:
  assumes "req_inv q" and "q_spawned q = Some server" and "server_dispatch K (q_req q) rs = Inr (rs', reply)"
  shows "req_inv (q\<lparr>q_spawned := None, q_ech := Some reply, q_execs := q_execs q + 1\<rparr>)"
  using assms(1,2) server_dispatch_reply_ok [OF assms(3)]
  by (auto simp: req_inv_defs split: req_status.splits option.splits)

lemma take_reply_inv:
  assumes "req_inv q" and "q_status q = Executing sn srv rel longre" and "q_ech q = Some reply"
  shows "req_inv (q\<lparr>q_status := GotReply sn srv rel longre reply, q_ech := None\<rparr>)"
  using assms by (auto simp: req_inv_defs split: option.splits)

lemma rpc_step_inv:
  assumes inv: "world_inv w" and step: "rpc_step K ev w = Some (Inr w')"
  shows "world_inv w'"
proof (cases ev)
  case (Submit req)
  with assms show ?thesis by (auto simp: rpc_step_def world_inv_def req_inv_defs split: if_splits)
next
  case (Begin i roll)
  with assms show ?thesis
    by (auto simp: rpc_step_def Let_def intro!: world_inv_update proc_begin_inv world_inv_nth split: if_splits)
next
  case (Handle i)
  with step obtain server rs' reply where i: "i < length (w_reqs w)" and sp: "q_spawned (w_reqs w ! i) = Some server"
    and d: "server_dispatch K (q_req (w_reqs w ! i)) (w_store w ! server) = Inr (rs', reply)"
    and w': "w' = w\<lparr>w_store := (w_store w)[server := rs'],
        w_reqs := (w_reqs w)[i := (w_reqs w ! i)\<lparr>q_spawned := None, q_ech := Some reply, q_execs := q_execs (w_reqs w ! i) + 1\<rparr>]\<rparr>"
    by (auto simp: rpc_step_def Let_def split: if_splits option.splits sum.splits prod.splits)
  from handle_inv [OF world_inv_nth [OF inv i] sp d] show ?thesis unfolding w' by (intro world_inv_update(3) [OF inv i])
next
  case (TakeReply i)
  with step obtain sn srv rel longre reply where i: "i < length (w_reqs w)" and q: "q_status (w_reqs w ! i) = Executing sn srv rel longre"
      "q_ech (w_reqs w ! i) = Some reply"
    and w': "w' = w\<lparr>w_reqs := (w_reqs w)[i := (w_reqs w ! i)\<lparr>q_status := GotReply sn srv rel longre reply, q_ech := None\<rparr>]\<rparr>"
    by (auto simp: rpc_step_def Let_def split: if_splits option.splits req_status.splits)
  from take_reply_inv [OF world_inv_nth [OF inv i] q] show ?thesis unfolding w' by (intro world_inv_update(2) [OF inv i])
next
  case (Poll i)
  with assms show ?thesis
    using proc_poll_inv world_inv_nth by (auto simp: rpc_step_def Let_def intro!: world_inv_update split: if_splits)
next
  case (FinishReq i roll reorder)
  with step have i: "i < length (w_reqs w)" and w': "w' = w\<lparr>w_net := fst (proc_finish roll reorder (w_net w) (w_reqs w ! i)),
      w_reqs := (w_reqs w)[i := snd (proc_finish roll reorder (w_net w) (w_reqs w ! i))]\<rparr>"
    by (auto simp: rpc_step_def Let_def split_beta split: if_splits)
  from proc_finish_inv [OF world_inv_nth [OF inv i]] show ?thesis unfolding w' by (intro world_inv_update(1) [OF inv i])
next
  case (Timer i)
  with step have i: "i < length (w_reqs w)" and w': "w' = w\<lparr>w_net := fst (proc_timer (w_net w) (w_reqs w ! i)),
      w_reqs := (w_reqs w)[i := snd (proc_timer (w_net w) (w_reqs w ! i))]\<rparr>"
    by (auto simp: rpc_step_def Let_def split_beta split: if_splits)
  from proc_timer_inv [OF world_inv_nth [OF inv i]] show ?thesis unfolding w' by (intro world_inv_update(1) [OF inv i])
next
  case (Admin nop)
  with assms show ?thesis by (auto simp: rpc_step_def world_inv_def split: sum.splits)
qed (use assms in \<open>auto simp: rpc_step_def world_inv_def split: if_splits\<close>)

lemma rpc_run_inv: "rpc_run K evs w = Some (Inr w') \<Longrightarrow> world_inv w \<Longrightarrow> world_inv w'"
proof (induction evs arbitrary: w)
  case (Cons ev evs)
  then obtain w1 where "rpc_step K ev w = Some (Inr w1)" "rpc_run K evs w1 = Some (Inr w')"
    by (auto split: option.splits sum.splits)
  with Cons show ?case using rpc_step_inv by blast
qed simp


section \<open>Requests that cannot reach a server\<close>

definition reachable_end :: "'e \<Rightarrow> ('e, 'n) Network \<Rightarrow> bool" where
  "reachable_end en rn \<longleftrightarrow>
     enabled rn en \<and> (case connections rn en of None \<Rightarrow> False | Some sn \<Rightarrow> servers rn sn \<noteq> None)"

lemma proc_begin_unreachable:
  "\<not> reachable_end (endname (q_req q)) rn \<Longrightarrow> proc_begin roll rn q = q\<lparr>q_status := TimingOut\<rparr>"
  by (auto simp: proc_begin_def readEndnameInfo_def reachable_end_def Let_def split: option.splits bool.splits)

definition lost :: "('e, 'n) request \<Rightarrow> bool" where
  "lost q \<longleftrightarrow> (q_status q = TimingOut \<or> q_status q = Done no_reply) \<and> q_execs q = 0 \<and> q_spawned q = None"

lemma lost_step:
  assumes "rpc_step K ev w = Some (Inr w')" and "i < length (w_reqs w)" and "lost (w_reqs w ! i)"
  shows "i < length (w_reqs w') \<and> lost (w_reqs w' ! i)"
proof (cases ev)
  case (Handle j)
  with assms show ?thesis
    by (auto simp: rpc_step_def Let_def lost_def nth_list_update split: if_splits option.splits sum.splits prod.splits)
next
  case (TakeReply j)
  with assms show ?thesis
    by (auto simp: rpc_step_def Let_def lost_def nth_list_update split: if_splits option.splits req_status.splits)
next
  case (FinishReq j roll reorder)
  with assms show ?thesis
    by (auto simp: rpc_step_def Let_def lost_def nth_list_update proc_finish_def split_beta split: if_splits)
next
  case (Timer j)
  with assms show ?thesis
    by (auto simp: rpc_step_def Let_def lost_def nth_list_update proc_timer_def split_beta split: if_splits)
next
  case (Begin j roll)
  with assms show ?thesis
    by (auto simp: rpc_step_def Let_def lost_def nth_list_update no_reply_def split: if_splits)
next
  case (Poll j)
  with assms show ?thesis
    by (auto simp: rpc_step_def Let_def lost_def nth_list_update proc_poll_def split: if_splits)
qed (use assms in \<open>auto simp: rpc_step_def lost_def nth_append split: if_splits sum.splits\<close>)

lemma lost_run:
  "rpc_run K evs w = Some (Inr w') \<Longrightarrow> i < length (w_reqs w) \<Longrightarrow> lost (w_reqs w ! i) \<Longrightarrow> i < length (w_reqs w') \<and> lost (w_reqs w' ! i)"
proof (induction evs arbitrary: w)
  case (Cons ev evs)
  then obtain w1 where "rpc_step K ev w = Some (Inr w1)" "rpc_run K evs w1 = Some (Inr w')"
    by (auto split: option.splits sum.splits)
  with Cons show ?case using lost_step by blast
qed simp

lemma unreachable_lost:
  assumes "world_inv w" and "rpc_step K (Begin i roll) w = Some (Inr w')"
    and "\<not> reachable_end (endname (q_req (w_reqs w ! i))) (w_net w)"
  shows "i < length (w_reqs w') \<and> lost (w_reqs w' ! i)"
proof -
  from assms(2) have i: "i < length (w_reqs w)" and q: "q_status (w_reqs w ! i) = NotStarted"
    and w': "w' = w\<lparr>w_reqs := (w_reqs w)[i := proc_begin roll (w_net w) (w_reqs w ! i)]\<rparr>"
    by (auto simp: rpc_step_def Let_def split: if_splits)
  from world_inv_nth [OF assms(1) i] q have "fresh_req (w_reqs w ! i)" by (simp add: req_inv_def)
  then show ?thesis
    using i proc_begin_unreachable [OF assms(3)] unfolding w' by (auto simp: lost_def fresh_req_def attempts_def split: option.splits)
qed

section \<open>A call over a reliable network\<close>

text \<open>The run of one call, with nothing else interfering.\<close>

definition call_events :: "'e reqMsg \<Rightarrow> nat \<Rightarrow> nat \<Rightarrow> nat \<Rightarrow> nat \<Rightarrow> ('e, 'n) rpc_event list" where
  "call_events req i roll roll' reorder = [Submit req, Begin i roll, Handle i, TakeReply i, FinishReq i roll' reorder]"

lemma reliable_call:
  assumes K: "\<And>v. c_decode K (c_encode K v) = (v, True)"
    and net: "reliable (w_net w)" "\<not> longReordering (w_net w)" "w_listening w" "enabled (w_net w) en"
      "connections (w_net w) en = Some sn" "servers (w_net w) sn = Some srv"
    and srv: "srv < length (w_store w)" "services (w_store w ! srv) sname = Some svc" "sv_methods svc meth = Some f"
    and f: "f (sv_rcvr svc) args = (o', reply)" and dot: "CHR ''.'' \<notin> set meth"
  shows "\<exists>w' rep. rpc_run K (call_events (call_request K en (sname @ CHR ''.'' # meth) args) (length (w_reqs w)) roll roll' reorder) w = Some (Inr w') \<and>
     q_status (w_reqs w' ! length (w_reqs w)) = Done rep \<and> call_return K rep = Inr (True, Some reply) \<and>
     services (w_store w' ! srv) sname = Some (svc\<lparr>sv_rcvr := o'\<rparr>) \<and> sv_count (w_store w' ! srv) = sv_count (w_store w ! srv) + 1 \<and>
     GetTotalCount (w_net w') = sint (net_count (w_net w) + 1)"
proof -
  let ?req = "call_request K en (sname @ CHR ''.'' # meth) args"
  have d: "server_dispatch K ?req (w_store w ! srv) =
      Inr ((w_store w ! srv)\<lparr>sv_count := sv_count (w_store w ! srv) + 1, services := (services (w_store w ! srv))(sname \<mapsto> svc\<lparr>sv_rcvr := o'\<rparr>)\<rparr>,
           \<lparr>rep_ok = True, rep_bytes = c_encode K reply\<rparr>)"
    by (rule server_dispatch_ok [where meth = meth and f = f]) (use srv f dot K in \<open>simp_all add: call_request_def\<close>)
  show ?thesis
    using net srv d K
    by (simp add: call_events_def rpc_step_def accept_req_def add_bytes_def proc_begin_def readEndnameInfo_def Let_def
        call_request_def proc_finish_def isServerDead_def call_return_def GetTotalCount_def nth_append list_update_append)
qed


section \<open>Counters\<close>

text \<open>
  \<open>exec_balance\<close> compares the requests the servers have counted with the handler executions, and
  \<open>count_balance\<close> the network's 32-bit counter with the requests it accepted.
\<close>

definition exec_balance :: "('e, 'n, 'o, 'v) world \<Rightarrow> int" where
  "exec_balance w = sum_list (map sv_count (w_store w)) - sum_list (map (\<lambda>q. int (q_execs q)) (w_reqs w))"

definition count_balance :: "('e, 'n, 'o, 'v) world \<Rightarrow> 32 word" where
  "count_balance w = net_count (w_net w) - of_nat (length (w_reqs w))"

lemma sum_list_map_update:
  fixes f :: "'a \<Rightarrow> int"
  shows "i < length xs \<Longrightarrow> sum_list (map f (xs[i := x])) = sum_list (map f xs) + f x - f (xs ! i)"
proof (induction xs arbitrary: i)
  case (Cons a xs)
  then show ?case by (cases i) simp_all
qed simp

lemma server_dispatch_count: "server_dispatch K req rs = Inr (rs', reply) \<Longrightarrow> sv_count rs' = sv_count rs + 1"
  by (auto simp: server_dispatch_def Let_def rbind_eq_Inr split: if_splits option.splits)

lemma net_apply_count: "net_apply nop rn = Inr rn' \<Longrightarrow> net_count rn' = net_count rn"
  by (cases nop) (auto simp: Reliable_def LongReordering_def LongDelays_def MakeEnd_def AddServer_def DeleteServer_def Connect_def
      Enable_def Cleanup_def split: if_splits)

lemma proc_execs [simp]:
  "q_execs (proc_begin roll rn q) = q_execs q" "q_execs (proc_poll rn q) = q_execs q"
  "q_execs (snd (proc_finish roll reorder rn q)) = q_execs q" "q_execs (snd (proc_timer rn q)) = q_execs q"
  "net_count (fst (proc_finish roll reorder rn q)) = net_count rn" "net_count (fst (proc_timer rn q)) = net_count rn"
  by (auto simp: proc_begin_def proc_poll_def proc_finish_def proc_timer_def add_bytes_def split: prod.splits bool.splits option.splits req_status.splits)

lemmas balance_defs = exec_balance_def count_balance_def rpc_step_def Let_def

lemma rpc_step_balance:
  assumes step: "rpc_step K ev w = Some (Inr w')"
  shows "exec_balance w' = exec_balance w \<and> count_balance w' = count_balance w"
proof (cases ev)
  case (Submit req)
  with step show ?thesis by (auto simp: balance_defs accept_req_def add_bytes_def split: if_splits)
next
  case (Begin i roll)
  with step show ?thesis by (auto simp: balance_defs sum_list_map_update split: if_splits)
next
  case (Handle i)
  with step show ?thesis
    by (auto simp: balance_defs sum_list_map_update server_dispatch_count split: if_splits option.splits sum.splits prod.splits)
next
  case (TakeReply i)
  with step show ?thesis by (auto simp: balance_defs sum_list_map_update split: if_splits option.splits req_status.splits)
next
  case (Poll i)
  with step show ?thesis by (auto simp: balance_defs sum_list_map_update split: if_splits)
next
  case (FinishReq i roll reorder)
  with step show ?thesis by (auto simp: balance_defs sum_list_map_update split_beta split: if_splits)
next
  case (Timer i)
  with step show ?thesis by (auto simp: balance_defs sum_list_map_update split_beta split: if_splits)
next
  case (Admin nop)
  with step show ?thesis by (auto simp: balance_defs net_apply_count split: sum.splits)
qed (use step in \<open>auto simp: balance_defs split: if_splits\<close>)

lemma rpc_run_balance: "rpc_run K evs w = Some (Inr w') \<Longrightarrow> exec_balance w' = exec_balance w \<and> count_balance w' = count_balance w"
proof (induction evs arbitrary: w)
  case (Cons ev evs)
  then obtain w1 where "rpc_step K ev w = Some (Inr w1)" "rpc_run K evs w1 = Some (Inr w')"
    by (auto split: option.splits sum.splits)
  with Cons show ?case using rpc_step_balance by metis
qed simp

text \<open>The request counter is exact as long as fewer than \<open>2 ^ 31\<close> requests were made.\<close>

lemma sint_of_nat_small: "n < 2 ^ 31 \<Longrightarrow> sint (of_nat n :: 32 word) = int n"
  by (simp add: sint_uint unsigned_of_nat take_bit_nat_eq_self signed_take_bit_eq_if_positive bit_iff_odd take_bit_int_eq_self)

end
