(* ===== verification/RpcTrace.thy ===== *)
theory RpcTrace
  imports Labrpc
begin

text \<open>
  Where a reply comes from (\<open>processReq\<close> of \<^verbatim>\<open>labrpc/labrpc.go\<close>): a request that ends with a positive reply can be traced back
  through the run to the moment the network looked at it, to the execution of its handler on the server found there, and to the
  moment the network looked at that server again.
\<close>

section \<open>Events of a request in a run\<close>

text \<open>When the request began, the end-point \<open>en\<close> was enabled and led to the server \<open>srv\<close> registered as \<open>sn\<close>.\<close>

definition begun_at :: "'v codec \<Rightarrow> ('e, 'n, 'o, 'v) world \<Rightarrow> ('e, 'n) rpc_event list \<Rightarrow> nat \<Rightarrow> 'e \<Rightarrow> 'n \<Rightarrow> nat \<Rightarrow> bool" where
  "begun_at K w0 evs i en sn srv \<longleftrightarrow>
     (\<exists>es roll es' w. evs = es @ Begin i roll # es' \<and> rpc_run K es w0 = Some (Inr w) \<and>
        enabled (w_net w) en \<and> connections (w_net w) en = Some sn \<and> servers (w_net w) sn = Some srv)"

text \<open>After that, the handler of the request ran on \<open>srv\<close> and gave the reply.\<close>

definition handled_at :: "'v codec \<Rightarrow> ('e, 'n, 'o, 'v) world \<Rightarrow> ('e, 'n) rpc_event list \<Rightarrow> nat \<Rightarrow> 'e reqMsg \<Rightarrow> 'n \<Rightarrow> nat \<Rightarrow> replyMsg \<Rightarrow> bool" where
  "handled_at K w0 evs i req sn srv reply \<longleftrightarrow>
     (\<exists>es es' w rs'. evs = es @ Handle i # es' \<and> rpc_run K es w0 = Some (Inr w) \<and> begun_at K w0 es i (endname req) sn srv \<and>
        srv < length (w_store w) \<and> server_dispatch K req (w_store w ! srv) = Inr (rs', reply))"

text \<open>After that, the network found the end-point enabled and the same server still registered.\<close>

definition answered_at :: "'v codec \<Rightarrow> ('e, 'n, 'o, 'v) world \<Rightarrow> ('e, 'n) rpc_event list \<Rightarrow> nat \<Rightarrow> 'e reqMsg \<Rightarrow> replyMsg \<Rightarrow> bool" where
  "answered_at K w0 evs i req reply \<longleftrightarrow>
     (\<exists>es roll reorder es' w sn srv. evs = es @ FinishReq i roll reorder # es' \<and> rpc_run K es w0 = Some (Inr w) \<and>
        handled_at K w0 es i req sn srv reply \<and> enabled (w_net w) (endname req) \<and> servers (w_net w) sn = Some srv)"

lemma begun_at_snoc: "begun_at K w0 evs i en sn srv \<Longrightarrow> begun_at K w0 (evs @ [ev]) i en sn srv"
  unfolding begun_at_def by (metis append.assoc append_Cons)

lemma handled_at_snoc: "handled_at K w0 evs i req sn srv reply \<Longrightarrow> handled_at K w0 (evs @ [ev]) i req sn srv reply"
  unfolding handled_at_def by (metis append.assoc append_Cons)

lemma answered_at_snoc: "answered_at K w0 evs i req reply \<Longrightarrow> answered_at K w0 (evs @ [ev]) i req reply"
  unfolding answered_at_def by (metis append.assoc append_Cons)

lemmas at_snocs = begun_at_snoc handled_at_snoc answered_at_snoc

section \<open>The invariant\<close>

definition req_trace :: "'v codec \<Rightarrow> ('e, 'n, 'o, 'v) world \<Rightarrow> ('e, 'n) rpc_event list \<Rightarrow> nat \<Rightarrow> ('e, 'n) request \<Rightarrow> bool" where
  "req_trace K w0 evs i q \<longleftrightarrow>
     (case q_status q of
        NotStarted \<Rightarrow> q_spawned q = None \<and> q_ech q = None
      | Executing sn srv rel longre \<Rightarrow> begun_at K w0 evs i (endname (q_req q)) sn srv \<and> q_spawned q \<in> {None, Some srv} \<and>
          (\<forall>reply. q_ech q = Some reply \<longrightarrow> handled_at K w0 evs i (q_req q) sn srv reply)
      | GotReply sn srv rel longre reply \<Rightarrow> handled_at K w0 evs i (q_req q) sn srv reply
      | Delayed reply \<Rightarrow> answered_at K w0 evs i (q_req q) reply
      | Done reply \<Rightarrow> rep_ok reply \<longrightarrow> answered_at K w0 evs i (q_req q) reply
      | _ \<Rightarrow> q_status q = TimingOut \<longrightarrow> q_spawned q = None)"

lemma req_trace_snoc: "req_trace K w0 evs i q \<Longrightarrow> req_trace K w0 (evs @ [ev]) i q"
  by (auto simp: req_trace_def at_snocs split: req_status.splits)

lemma proc_begin_trace:
  assumes "req_trace K w0 evs i q" and "q_status q = NotStarted" and "rpc_run K evs w0 = Some (Inr w)"
  shows "req_trace K w0 (evs @ [Begin i roll]) i (proc_begin roll (w_net w) q)"
proof -
  have "begun_at K w0 (evs @ [Begin i roll]) i en sn srv"
    if "enabled (w_net w) en" "connections (w_net w) en = Some sn" "servers (w_net w) sn = Some srv" for en sn srv
    unfolding begun_at_def using assms(3) that by blast
  then show ?thesis using assms(1,2)
    by (auto simp: proc_begin_def readEndnameInfo_def Let_def req_trace_def no_reply_def split: option.splits bool.splits if_splits)
qed

lemma handle_trace:
  assumes "req_trace K w0 evs i q" and "q_spawned q = Some srv" and "rpc_run K evs w0 = Some (Inr w)"
    and "srv < length (w_store w)" and "server_dispatch K (q_req q) (w_store w ! srv) = Inr (rs', reply)"
  shows "req_trace K w0 (evs @ [Handle i]) i (q\<lparr>q_spawned := None, q_ech := Some reply, q_execs := n\<rparr>)"
proof -
  have "handled_at K w0 (evs @ [Handle i]) i (q_req q) sn srv reply" if "begun_at K w0 evs i (endname (q_req q)) sn srv" for sn
    unfolding handled_at_def using assms(3-5) that by blast
  then show ?thesis using assms(1,2) by (auto simp: req_trace_def at_snocs split: req_status.splits)
qed

lemma take_reply_trace:
  assumes "req_trace K w0 evs i q" and "q_status q = Executing sn srv rel longre" and "q_ech q = Some reply"
  shows "req_trace K w0 evs i (q\<lparr>q_status := GotReply sn srv rel longre reply, q_ech := None\<rparr>)"
  using assms by (simp add: req_trace_def)

lemma proc_poll_trace: "req_trace K w0 evs i q \<Longrightarrow> req_trace K w0 evs i (proc_poll rn q)"
  by (auto simp: proc_poll_def req_trace_def split: req_status.splits)

lemma proc_finish_trace:
  assumes "req_trace K w0 evs i q" and "rpc_run K evs w0 = Some (Inr w)"
  shows "req_trace K w0 (evs @ [FinishReq i roll reorder]) i (snd (proc_finish roll reorder (w_net w) q))"
proof -
  have "answered_at K w0 (evs @ [FinishReq i roll reorder]) i (q_req q) reply"
    if "handled_at K w0 evs i (q_req q) sn srv reply" "enabled (w_net w) (endname (q_req q))" "servers (w_net w) sn = Some srv" for sn srv reply
    unfolding answered_at_def using assms(2) that by blast
  then show ?thesis using assms(1) req_trace_snoc [OF assms(1), of "FinishReq i roll reorder"]
    by (auto simp: proc_finish_def req_trace_def isServerDead_def no_reply_def split: req_status.splits)
qed

lemma proc_timer_trace: "req_trace K w0 evs i q \<Longrightarrow> req_trace K w0 evs i (snd (proc_timer rn q))"
  by (auto simp: proc_timer_def req_trace_def no_reply_def split: req_status.splits)

definition run_trace :: "'v codec \<Rightarrow> ('e, 'n, 'o, 'v) world \<Rightarrow> ('e, 'n) rpc_event list \<Rightarrow> ('e, 'n, 'o, 'v) world \<Rightarrow> bool" where
  "run_trace K w0 evs w \<longleftrightarrow> rpc_run K evs w0 = Some (Inr w) \<and> (\<forall>i<length (w_reqs w). req_trace K w0 evs i (w_reqs w ! i))"

lemma run_trace_update:
  assumes "run_trace K w0 evs w" and "rpc_run K (evs @ [ev]) w0 = Some (Inr w')" and "w_reqs w' = (w_reqs w)[i := q]"
    and "i < length (w_reqs w) \<Longrightarrow> req_trace K w0 (evs @ [ev]) i q"
  shows "run_trace K w0 (evs @ [ev]) w'"
  unfolding run_trace_def
proof (intro conjI allI impI)
  fix j assume "j < length (w_reqs w')"
  then show "req_trace K w0 (evs @ [ev]) j (w_reqs w' ! j)"
    using assms(1,3,4) by (cases "j = i") (simp_all add: run_trace_def req_trace_snoc)
qed (rule assms(2))

lemma run_trace_same:
  assumes "run_trace K w0 evs w" and "rpc_run K (evs @ [ev]) w0 = Some (Inr w')" and "w_reqs w' = w_reqs w"
  shows "run_trace K w0 (evs @ [ev]) w'"
  using assms unfolding run_trace_def by (simp add: req_trace_snoc)

lemma rpc_run_append:
  "rpc_run K (evs @ evs') w = (case rpc_run K evs w of Some (Inr w') \<Rightarrow> rpc_run K evs' w' | r \<Rightarrow> r)"
  by (induction evs arbitrary: w) (auto split: option.splits sum.splits)

lemma run_trace_step:
  assumes inv: "run_trace K w0 evs w" and step: "rpc_step K ev w = Some (Inr w')"
  shows "run_trace K w0 (evs @ [ev]) w'"
proof -
  have run: "rpc_run K evs w0 = Some (Inr w)" using inv by (simp add: run_trace_def)
  have run': "rpc_run K (evs @ [ev]) w0 = Some (Inr w')" using run step by (simp add: rpc_run_append)
  have tr: "req_trace K w0 evs i (w_reqs w ! i)" if "i < length (w_reqs w)" for i using inv that by (simp add: run_trace_def)
  note upd = run_trace_update [OF inv run'] and same = run_trace_same [OF inv run']
  show ?thesis
  proof (cases ev)
    case (Submit req)
    with step have "w_reqs w' = w_reqs w @ [\<lparr>q_req = req, q_status = NotStarted, q_spawned = None, q_ech = None, q_execs = 0\<rparr>]"
      by (auto simp: rpc_step_def split: if_splits)
    moreover have "req_trace K w0 (evs @ [ev]) i \<lparr>q_req = req, q_status = NotStarted, q_spawned = None, q_ech = None, q_execs = 0\<rparr>" for i
      by (simp add: req_trace_def)
    ultimately show ?thesis using run' tr by (simp add: run_trace_def nth_append less_Suc_eq req_trace_snoc)
  next
    case (Begin i roll)
    with step have b: "q_status (w_reqs w ! i) = NotStarted" "w_reqs w' = (w_reqs w)[i := proc_begin roll (w_net w) (w_reqs w ! i)]"
      by (auto simp: rpc_step_def Let_def split: if_splits)
    show ?thesis by (rule upd [OF b(2)]) (simp add: Begin proc_begin_trace [OF tr b(1) run])
  next
    case (Handle i)
    with step obtain srv rs' reply where h: "q_spawned (w_reqs w ! i) = Some srv" "srv < length (w_store w)"
      "server_dispatch K (q_req (w_reqs w ! i)) (w_store w ! srv) = Inr (rs', reply)"
      and w': "w_reqs w' = (w_reqs w)[i := (w_reqs w ! i)\<lparr>q_spawned := None, q_ech := Some reply, q_execs := q_execs (w_reqs w ! i) + 1\<rparr>]"
      by (auto simp: rpc_step_def Let_def split: if_splits option.splits sum.splits prod.splits)
    show ?thesis by (rule upd [OF w']) (simp only: Handle handle_trace [OF tr h(1) run h(2,3)])
  next
    case (TakeReply i)
    with step obtain sn srv rel longre reply where q: "q_status (w_reqs w ! i) = Executing sn srv rel longre" "q_ech (w_reqs w ! i) = Some reply"
      and w': "w_reqs w' = (w_reqs w)[i := (w_reqs w ! i)\<lparr>q_status := GotReply sn srv rel longre reply, q_ech := None\<rparr>]"
      by (auto simp: rpc_step_def Let_def split: if_splits option.splits req_status.splits)
    show ?thesis by (rule upd [OF w']) (intro req_trace_snoc take_reply_trace [OF tr q])
  next
    case (Poll i)
    with step have w': "w_reqs w' = (w_reqs w)[i := proc_poll (w_net w) (w_reqs w ! i)]" by (auto simp: rpc_step_def Let_def split: if_splits)
    show ?thesis by (rule upd [OF w']) (intro req_trace_snoc proc_poll_trace tr)
  next
    case (FinishReq i roll reorder)
    with step have w': "w_reqs w' = (w_reqs w)[i := snd (proc_finish roll reorder (w_net w) (w_reqs w ! i))]"
      by (auto simp: rpc_step_def Let_def split_beta split: if_splits)
    show ?thesis by (rule upd [OF w']) (simp only: FinishReq proc_finish_trace [OF tr run])
  next
    case (Timer i)
    with step have w': "w_reqs w' = (w_reqs w)[i := snd (proc_timer (w_net w) (w_reqs w ! i))]"
      by (auto simp: rpc_step_def Let_def split_beta split: if_splits)
    show ?thesis by (rule upd [OF w']) (intro req_trace_snoc proc_timer_trace tr)
  next
    case (Admin nop)
    with step show ?thesis by (intro same) (auto simp: rpc_step_def split: sum.splits)
  next
    case StopListening
    with step show ?thesis by (intro same) (auto simp: rpc_step_def split: if_splits)
  next
    case GiveUp
    with step show ?thesis by (intro same) (auto simp: rpc_step_def split: if_splits)
  qed
qed

lemma rpc_run_trace:
  assumes "w_reqs w0 = []"
  shows "rpc_run K evs w0 = Some (Inr w) \<Longrightarrow> run_trace K w0 evs w"
proof (induction evs arbitrary: w rule: rev_induct)
  case Nil
  then show ?case using assms by (simp add: run_trace_def)
next
  case (snoc ev evs)
  then obtain w1 where "rpc_run K evs w0 = Some (Inr w1)" "rpc_step K ev w1 = Some (Inr w)"
    by (auto simp: rpc_run_append split: option.splits sum.splits)
  with snoc.IH run_trace_step show ?case by blast
qed

lemma answered_atE:
  assumes "answered_at K w0 evs i req reply"
  obtains es1 roll es2 es3 roll' reorder es4 w1 w2 w3 sn srv rs' where
    "evs = es1 @ Begin i roll # es2 @ Handle i # es3 @ FinishReq i roll' reorder # es4"
    "rpc_run K es1 w0 = Some (Inr w1)" "rpc_run K (es1 @ Begin i roll # es2) w0 = Some (Inr w2)"
    "rpc_run K (es1 @ Begin i roll # es2 @ Handle i # es3) w0 = Some (Inr w3)"
    "enabled (w_net w1) (endname req)" "connections (w_net w1) (endname req) = Some sn" "servers (w_net w1) sn = Some srv"
    "srv < length (w_store w2)" "server_dispatch K req (w_store w2 ! srv) = Inr (rs', reply)"
    "enabled (w_net w3) (endname req)" "servers (w_net w3) sn = Some srv"
  using assms unfolding answered_at_def handled_at_def begun_at_def by fastforce

end
