(* ===== verification/Persister.thy ===== *)
theory Persister
  imports Labrpc
begin

text \<open>
  \<^verbatim>\<open>raft/persister.go\<close>: the byte slices a Raft server saves.  Each method takes the lock for its whole
  body, so it is one function of the state.  Servers hold pointers to persisters; the store is a
  list, and \<open>psave\<close> is a write through a pointer by whichever instance holds it.
\<close>

record Persister =
  raftstate :: bytes
  snapshot :: bytes

definition MakePersister :: Persister where
  "MakePersister = \<lparr>raftstate = [], snapshot = []\<rparr>"

definition Copy :: "Persister \<Rightarrow> Persister" where
  "Copy ps = MakePersister\<lparr>raftstate := raftstate ps, snapshot := snapshot ps\<rparr>"

definition SaveRaftState :: "bytes \<Rightarrow> Persister \<Rightarrow> Persister" where
  "SaveRaftState state ps = ps\<lparr>raftstate := state\<rparr>"

definition ReadRaftState :: "Persister \<Rightarrow> bytes" where
  "ReadRaftState ps = raftstate ps"

definition RaftStateSize :: "Persister \<Rightarrow> nat" where
  "RaftStateSize ps = length (raftstate ps)"

definition SaveStateAndSnapshot :: "bytes \<Rightarrow> bytes \<Rightarrow> Persister \<Rightarrow> Persister" where
  "SaveStateAndSnapshot state snap ps = ps\<lparr>raftstate := state, snapshot := snap\<rparr>"

definition ReadSnapshot :: "Persister \<Rightarrow> bytes" where
  "ReadSnapshot ps = snapshot ps"

definition SnapshotSize :: "Persister \<Rightarrow> nat" where
  "SnapshotSize ps = length (snapshot ps)"

lemmas persister_defs = MakePersister_def Copy_def SaveRaftState_def ReadRaftState_def RaftStateSize_def
  SaveStateAndSnapshot_def ReadSnapshot_def SnapshotSize_def

text \<open>A write through the pointer \<open>a\<close>, by any instance that still holds it.\<close>

definition psave :: "nat \<Rightarrow> (Persister \<Rightarrow> Persister) \<Rightarrow> Persister list \<Rightarrow> Persister list" where
  "psave a f ph = (if a < length ph then ph[a := f (ph ! a)] else ph)"

lemma psave_other: "b \<noteq> a \<Longrightarrow> psave a f ph ! b = ph ! b"
  by (simp add: psave_def)

lemma Copy_id [simp]: "Copy ps = ps"
  by (simp add: Copy_def MakePersister_def)

end
