(* ===== verification/RaftConfig.thy ===== *)
theory RaftConfig
  imports Persister
begin

text \<open>
  The test harness of \<^verbatim>\<open>raft/config.go\<close>: a set of Raft servers on the simulated network that can be
  connected, disconnected, crashed and restarted, with the checks the tests make on what the servers
  apply and report.

  A Raft instance is opaque (\<open>'r\<close>): the repository only has its skeleton.  What the harness learns
  from it, \<open>GetState\<close> and \<open>Start\<close>, is an argument; \<open>randstring\<close> and \<open>MakeService\<close> too.  The record
  \<open>config\<close> also holds the stores its pointers lead to (persisters and servers).  Server numbers are
  natural numbers.
\<close>

section \<open>State\<close>

record ('r, 'c, 'o, 'v) config =
  cnet :: "(string, nat) Network"
  cn :: nat
  rafts :: "'r option list"
  applyErr :: "string list"
  connected :: "bool list"
  saved :: "nat option list"
  endnames :: "string list option list"
  logs :: "(int \<Rightarrow> 'c option) list"
  pheap :: "Persister list"
  sheap :: "('o, 'v) Server list"
  killed :: "'r list"
  rpcs0 :: int
  cmds0 :: int
  bytes0 :: int
  maxIndex :: int
  maxIndex0 :: int

text \<open>\<open>cfg.endnames[i][j]\<close>; indexing a nil row panics like any other index out of range.\<close>

definition endname_at :: "('r, 'c, 'o, 'v) config \<Rightarrow> nat \<Rightarrow> nat \<Rightarrow> string res" where
  "endname_at cfg i j =
     rbind (slice_get (endnames cfg) (int i)) (\<lambda>row.
     case row of None \<Rightarrow> Inl IndexOutOfRange | Some names \<Rightarrow> slice_get names (int j))"

definition cfg_enable :: "string \<Rightarrow> bool \<Rightarrow> ('r, 'c, 'o, 'v) config \<Rightarrow> ('r, 'c, 'o, 'v) config" where
  "cfg_enable en b cfg = cfg\<lparr>cnet := Enable en b (cnet cfg)\<rparr>"

section \<open>Connecting and disconnecting\<close>

fun connect_out :: "nat \<Rightarrow> nat list \<Rightarrow> ('r, 'c, 'o, 'v) config \<Rightarrow> ('r, 'c, 'o, 'v) config res" where
  "connect_out i [] cfg = Inr cfg"
| "connect_out i (j # js) cfg =
     rbind (slice_get (connected cfg) (int j)) (\<lambda>up.
     if up then rbind (endname_at cfg i j) (\<lambda>en. connect_out i js (cfg_enable en True cfg))
     else connect_out i js cfg)"

fun connect_in :: "nat \<Rightarrow> nat list \<Rightarrow> ('r, 'c, 'o, 'v) config \<Rightarrow> ('r, 'c, 'o, 'v) config res" where
  "connect_in i [] cfg = Inr cfg"
| "connect_in i (j # js) cfg =
     rbind (slice_get (connected cfg) (int j)) (\<lambda>up.
     if up then rbind (endname_at cfg j i) (\<lambda>en. connect_in i js (cfg_enable en True cfg))
     else connect_in i js cfg)"

definition connect :: "nat \<Rightarrow> ('r, 'c, 'o, 'v) config \<Rightarrow> ('r, 'c, 'o, 'v) config res" where
  "connect i cfg =
     rbind (slice_set (connected cfg) (int i) True) (\<lambda>up.
     rbind (connect_out i [0..<cn cfg] (cfg\<lparr>connected := up\<rparr>)) (\<lambda>cfg1.
     connect_in i [0..<cn cfg] cfg1))"

fun disconnect_out :: "nat \<Rightarrow> nat list \<Rightarrow> ('r, 'c, 'o, 'v) config \<Rightarrow> ('r, 'c, 'o, 'v) config res" where
  "disconnect_out i [] cfg = Inr cfg"
| "disconnect_out i (j # js) cfg =
     rbind (slice_get (endnames cfg) (int i)) (\<lambda>row.
     if row \<noteq> None then rbind (endname_at cfg i j) (\<lambda>en. disconnect_out i js (cfg_enable en False cfg))
     else disconnect_out i js cfg)"

fun disconnect_in :: "nat \<Rightarrow> nat list \<Rightarrow> ('r, 'c, 'o, 'v) config \<Rightarrow> ('r, 'c, 'o, 'v) config res" where
  "disconnect_in i [] cfg = Inr cfg"
| "disconnect_in i (j # js) cfg =
     rbind (slice_get (endnames cfg) (int j)) (\<lambda>row.
     if row \<noteq> None then rbind (endname_at cfg j i) (\<lambda>en. disconnect_in i js (cfg_enable en False cfg))
     else disconnect_in i js cfg)"

definition disconnect :: "nat \<Rightarrow> ('r, 'c, 'o, 'v) config \<Rightarrow> ('r, 'c, 'o, 'v) config res" where
  "disconnect i cfg =
     rbind (slice_set (connected cfg) (int i) False) (\<lambda>up.
     rbind (disconnect_out i [0..<cn cfg] (cfg\<lparr>connected := up\<rparr>)) (\<lambda>cfg1.
     disconnect_in i [0..<cn cfg] cfg1))"

section \<open>Crashing and starting\<close>

text \<open>\<open>cfg.saved[i] = p\<close> for a newly allocated persister.\<close>

definition new_saved :: "nat \<Rightarrow> Persister \<Rightarrow> ('r, 'c, 'o, 'v) config \<Rightarrow> ('r, 'c, 'o, 'v) config res" where
  "new_saved i p cfg =
     rbind (slice_set (saved cfg) (int i) (Some (length (pheap cfg)))) (\<lambda>sv.
     Inr (cfg\<lparr>pheap := pheap cfg @ [p], saved := sv\<rparr>))"

definition copy_saved :: "nat \<Rightarrow> ('r, 'c, 'o, 'v) config \<Rightarrow> ('r, 'c, 'o, 'v) config res" where
  "copy_saved i cfg =
     rbind (slice_get (saved cfg) (int i)) (\<lambda>p.
     case p of None \<Rightarrow> Inr cfg | Some a \<Rightarrow> rbind (slice_get (pheap cfg) (int a)) (\<lambda>ps. new_saved i (Copy ps) cfg))"

definition kill_raft :: "nat \<Rightarrow> ('r, 'c, 'o, 'v) config \<Rightarrow> ('r, 'c, 'o, 'v) config res" where
  "kill_raft i cfg =
     rbind (slice_get (rafts cfg) (int i)) (\<lambda>rf.
     case rf of None \<Rightarrow> Inr cfg
     | Some r \<Rightarrow> rbind (slice_set (rafts cfg) (int i) None) (\<lambda>rs. Inr (cfg\<lparr>killed := r # killed cfg, rafts := rs\<rparr>)))"

definition keep_raftstate :: "nat \<Rightarrow> ('r, 'c, 'o, 'v) config \<Rightarrow> ('r, 'c, 'o, 'v) config res" where
  "keep_raftstate i cfg =
     rbind (slice_get (saved cfg) (int i)) (\<lambda>p.
     case p of None \<Rightarrow> Inr cfg
     | Some a \<Rightarrow> rbind (slice_get (pheap cfg) (int a)) (\<lambda>ps. new_saved i (SaveRaftState (ReadRaftState ps) MakePersister) cfg))"

definition crash1 :: "nat \<Rightarrow> ('r, 'c, 'o, 'v) config \<Rightarrow> ('r, 'c, 'o, 'v) config res" where
  "crash1 i cfg0 =
     rbind (disconnect i cfg0) (\<lambda>cfg1.
     let cfg2 = cfg1\<lparr>cnet := DeleteServer i (cnet cfg1)\<rparr> in
     rbind (copy_saved i cfg2) (\<lambda>cfg3.
     rbind (kill_raft i cfg3) (\<lambda>cfg4.
     keep_raftstate i cfg4)))"

fun make_ends :: "(nat \<times> string) list \<Rightarrow> (string, nat) Network \<Rightarrow> (string, nat) Network res" where
  "make_ends [] rn = Inr rn"
| "make_ends ((j, en) # rest) rn = rbind (MakeEnd en rn) (\<lambda>rn1. make_ends rest (Connect en j rn1))"

text \<open>
  \<open>names\<close> are the strings that \<open>randstring(20)\<close> returns, \<open>rf\<close> the instance \<open>Make\<close> returns and \<open>svc\<close> the
  service of its methods.
\<close>

definition start1 :: "string list \<Rightarrow> 'r \<Rightarrow> ('o, 'v) Service \<Rightarrow> nat \<Rightarrow> ('r, 'c, 'o, 'v) config \<Rightarrow> ('r, 'c, 'o, 'v) config res" where
  "start1 names rf svc i cfg0 =
     rbind (crash1 i cfg0) (\<lambda>cfg1.
     rbind (slice_set (endnames cfg1) (int i) (Some (take (cn cfg1) names))) (\<lambda>rows.
     rbind (make_ends (zip [0..<cn cfg1] names) (cnet cfg1)) (\<lambda>rn.
     let cfg2 = cfg1\<lparr>endnames := rows, cnet := rn\<rparr> in
     rbind (slice_get (saved cfg2) (int i)) (\<lambda>p.
     rbind (case p of Some _ \<Rightarrow> copy_saved i cfg2 | None \<Rightarrow> new_saved i MakePersister cfg2) (\<lambda>cfg3.
     rbind (slice_set (rafts cfg3) (int i) (Some rf)) (\<lambda>rs.
     let srv = AddService svc MakeServer in
     Inr (cfg3\<lparr>rafts := rs, sheap := sheap cfg3 @ [srv], cnet := AddServer i (length (sheap cfg3)) (cnet cfg3)\<rparr>)))))))"

definition setunreliable :: "bool \<Rightarrow> ('r, 'c, 'o, 'v) config \<Rightarrow> ('r, 'c, 'o, 'v) config" where
  "setunreliable unrel cfg = cfg\<lparr>cnet := Reliable (\<not> unrel) (cnet cfg)\<rparr>"

definition setlongreordering :: "bool \<Rightarrow> ('r, 'c, 'o, 'v) config \<Rightarrow> ('r, 'c, 'o, 'v) config" where
  "setlongreordering longrel cfg = cfg\<lparr>cnet := LongReordering longrel (cnet cfg)\<rparr>"

definition zero_config :: "nat \<Rightarrow> ('r, 'c, 'o, 'v) config" where
  "zero_config n = \<lparr>cnet = MakeNetwork, cn = n, rafts = replicate n None, applyErr = replicate n [],
     connected = replicate n False, saved = replicate n None, endnames = replicate n None,
     logs = replicate n Map.empty, pheap = [], sheap = [], killed = [],
     rpcs0 = 0, cmds0 = 0, bytes0 = 0, maxIndex = 0, maxIndex0 = 0\<rparr>"

fun start_all :: "(nat \<Rightarrow> string list) \<Rightarrow> (nat \<Rightarrow> 'r) \<Rightarrow> (nat \<Rightarrow> ('o, 'v) Service) \<Rightarrow> nat list \<Rightarrow> ('r, 'c, 'o, 'v) config
    \<Rightarrow> ('r, 'c, 'o, 'v) config res" where
  "start_all names rf svc [] cfg = Inr cfg"
| "start_all names rf svc (i # is) cfg = rbind (start1 (names i) (rf i) (svc i) i cfg) (start_all names rf svc is)"

fun connect_all :: "nat list \<Rightarrow> ('r, 'c, 'o, 'v) config \<Rightarrow> ('r, 'c, 'o, 'v) config res" where
  "connect_all [] cfg = Inr cfg"
| "connect_all (i # is) cfg = rbind (connect i cfg) (connect_all is)"

definition make_config :: "(nat \<Rightarrow> string list) \<Rightarrow> (nat \<Rightarrow> 'r) \<Rightarrow> (nat \<Rightarrow> ('o, 'v) Service) \<Rightarrow> nat \<Rightarrow> bool
    \<Rightarrow> ('r, 'c, 'o, 'v) config res" where
  "make_config names rf svc n unreliable =
     (let cfg1 = setunreliable unreliable (zero_config n);
          cfg2 = cfg1\<lparr>cnet := LongDelays True (cnet cfg1)\<rparr>
      in rbind (start_all names rf svc [0..<n] cfg2) (connect_all [0..<n]))"

text \<open>
  The limit of two minutes for a test: \<open>failed\<close> is \<open>t.Failed()\<close> and \<open>elapsed\<close> the nanoseconds since \<open>make_config\<close>.
\<close>

definition checkTimeout :: "bool \<Rightarrow> int \<Rightarrow> unit res" where
  "checkTimeout failed elapsed =
     (if \<not> failed \<and> elapsed > 120 * 10 ^ 9 then Inl (Fatal ''test took longer than 120 seconds'') else Inr ())"

definition cleanup :: "bool \<Rightarrow> int \<Rightarrow> ('r, 'c, 'o, 'v) config \<Rightarrow> ('r, 'c, 'o, 'v) config res" where
  "cleanup failed elapsed cfg =
     rbind (Cleanup (cnet cfg)) (\<lambda>rn.
     rbind (checkTimeout failed elapsed) (\<lambda>_.
     Inr (cfg\<lparr>killed := rev (List.map_filter (\<lambda>r. r) (rafts cfg)) @ killed cfg, cnet := rn\<rparr>)))"

text \<open>Statistics.\<close>

definition rpcCount :: "nat \<Rightarrow> ('r, 'c, 'o, 'v) config \<Rightarrow> int res" where
  "rpcCount server cfg = net_GetCount server (sheap cfg) (cnet cfg)"

definition rpcTotal :: "('r, 'c, 'o, 'v) config \<Rightarrow> int" where
  "rpcTotal cfg = GetTotalCount (cnet cfg)"

definition bytesTotal :: "('r, 'c, 'o, 'v) config \<Rightarrow> int" where
  "bytesTotal cfg = GetTotalBytes (cnet cfg)"

section \<open>Checking what the servers apply\<close>

record 'c ApplyMsg =
  CommandValid :: bool
  Command :: 'c
  CommandIndex :: int

text \<open>The body of the goroutine that reads \<open>applyCh\<close>; a non-empty \<open>err_msg\<close> is fatal.\<close>

definition applied_differs :: "'c ApplyMsg \<Rightarrow> (int \<Rightarrow> 'c option) list \<Rightarrow> bool" where
  "applied_differs m ls = list_ex (\<lambda>l. case l (CommandIndex m) of Some old \<Rightarrow> old \<noteq> Command m | None \<Rightarrow> False) ls"

definition apply_msg :: "nat \<Rightarrow> 'c ApplyMsg \<Rightarrow> ('r, 'c, 'o, 'v) config \<Rightarrow> ('r, 'c, 'o, 'v) config res" where
  "apply_msg i m cfg =
     (if CommandValid m = False then Inr cfg
      else
        rbind (slice_get (logs cfg) (int i)) (\<lambda>log.
        let differs = applied_differs m (logs cfg);
            prevok = (log (CommandIndex m - 1) \<noteq> None);
            cfg1 = cfg\<lparr>logs := (logs cfg)[i := log(CommandIndex m \<mapsto> Command m)],
                       maxIndex := (if CommandIndex m > maxIndex cfg then CommandIndex m else maxIndex cfg)\<rparr>
        in if CommandIndex m > 1 \<and> prevok = False then Inl (Fatal ''apply error: apply out of order'')
           else if differs then Inl (Fatal ''apply error: commit differs'')
           else Inr cfg1))"

section \<open>Checks\<close>

text \<open>
  \<open>nCommitted\<close>: \<open>cmd\<close> is nil until some server has the entry.  The code takes the lock for each server anew; \<open>cfg\<close> holds, at position \<open>i\<close>,
  the log and the error as they are when the loop comes to server \<open>i\<close>, and need not be the state of one moment.  In \<open>wait\<close> and \<open>one\<close>,
  every call has such a \<open>cfg\<close> of its own.
\<close>

fun count_committed :: "int \<Rightarrow> nat \<Rightarrow> 'c option \<Rightarrow> (string \<times> (int \<Rightarrow> 'c option)) list \<Rightarrow> (nat \<times> 'c option) res" where
  "count_committed index cnt cmd [] = Inr (cnt, cmd)"
| "count_committed index cnt cmd ((err, log) # rest) =
     (if err \<noteq> [] then Inl (Fatal err)
      else case log index of
             None \<Rightarrow> count_committed index cnt cmd rest
           | Some cmd1 \<Rightarrow>
               if cnt > 0 \<and> cmd \<noteq> Some cmd1 then Inl (Fatal ''committed values do not match'')
               else count_committed index (cnt + 1) (Some cmd1) rest)"

definition nCommitted :: "int \<Rightarrow> ('r, 'c, 'o, 'v) config \<Rightarrow> (nat \<times> 'c option) res" where
  "nCommitted index cfg = count_committed index 0 None (zip (applyErr cfg) (logs cfg))"

text \<open>\<open>gs i\<close> is what \<open>cfg.rafts[i].GetState()\<close> returns.\<close>

definition leaders_of :: "(nat \<Rightarrow> int \<times> bool) \<Rightarrow> ('r, 'c, 'o, 'v) config \<Rightarrow> (int \<times> nat) list" where
  "leaders_of gs cfg = List.map_filter (\<lambda>i. if connected cfg ! i \<and> snd (gs i) then Some (fst (gs i), i) else None) [0..<cn cfg]"

text \<open>One iteration of \<open>checkOneLeader\<close>: \<open>None\<close> is "no leader yet, try again".\<close>

definition one_leader_iter :: "(nat \<Rightarrow> int \<times> bool) \<Rightarrow> ('r, 'c, 'o, 'v) config \<Rightarrow> nat option res" where
  "one_leader_iter gs cfg =
     (let ls = leaders_of gs cfg;
          terms = remdups (map fst ls);
          lastTerm = fold (\<lambda>t lt. if t > lt then t else lt) terms (-1)
      in if list_ex (\<lambda>t. length (filter (\<lambda>p. fst p = t) ls) > 1) terms then Inl (Fatal ''term has more than one leader'')
         else if ls \<noteq> [] then
           (case filter (\<lambda>p. fst p = lastTerm) ls of [] \<Rightarrow> Inl IndexOutOfRange | p # _ \<Rightarrow> Inr (Some (snd p)))
         else Inr None)"

text \<open>\<open>obs\<close> are the states that the ten iterations see.\<close>

fun checkOneLeader :: "nat \<Rightarrow> (nat \<Rightarrow> nat \<Rightarrow> int \<times> bool) \<Rightarrow> ('r, 'c, 'o, 'v) config \<Rightarrow> nat res" where
  "checkOneLeader 0 obs cfg = Inl (Fatal ''expected one leader, got none'')"
| "checkOneLeader (Suc k) obs cfg =
     rbind (one_leader_iter (obs (Suc k)) cfg) (\<lambda>r. case r of Some i \<Rightarrow> Inr i | None \<Rightarrow> checkOneLeader k obs cfg)"

fun terms_loop :: "int \<Rightarrow> (bool \<times> int) list \<Rightarrow> int res" where
  "terms_loop trm [] = Inr trm"
| "terms_loop trm ((up, xterm) # rest) =
     (if up then
        (if trm = -1 then terms_loop xterm rest
         else if trm \<noteq> xterm then Inl (Fatal ''servers disagree on term'')
         else terms_loop trm rest)
      else terms_loop trm rest)"

definition checkTerms :: "(nat \<Rightarrow> int \<times> bool) \<Rightarrow> ('r, 'c, 'o, 'v) config \<Rightarrow> int res" where
  "checkTerms gs cfg = terms_loop (-1) (map (\<lambda>i. (connected cfg ! i, fst (gs i))) [0..<cn cfg])"

definition checkNoLeader :: "(nat \<Rightarrow> int \<times> bool) \<Rightarrow> ('r, 'c, 'o, 'v) config \<Rightarrow> unit res" where
  "checkNoLeader gs cfg =
     (if list_ex (\<lambda>i. connected cfg ! i \<and> snd (gs i)) [0..<cn cfg]
      then Inl (Fatal ''expected no leader'') else Inr ())"

text \<open>
  \<open>wait\<close>: \<open>obs k\<close> is the configuration seen in the iteration with \<open>k\<close> left and \<open>trms k\<close> the terms of the
  servers after its sleep; the result \<open>None\<close> is the return value -1.
\<close>

fun wait_loop :: "int \<Rightarrow> nat \<Rightarrow> int \<Rightarrow> (nat \<Rightarrow> ('r, 'c, 'o, 'v) config) \<Rightarrow> (nat \<Rightarrow> int list) \<Rightarrow> nat \<Rightarrow> bool res" where
  "wait_loop index n startTerm obs trms 0 = Inr True"
| "wait_loop index n startTerm obs trms (Suc k) =
     rbind (nCommitted index (obs (Suc k))) (\<lambda>(nd, _).
     if nd \<ge> n then Inr True
     else if startTerm > -1 \<and> list_ex (\<lambda>t. t > startTerm) (trms (Suc k)) then Inr False
     else wait_loop index n startTerm obs trms k)"

definition wait :: "int \<Rightarrow> nat \<Rightarrow> int \<Rightarrow> (nat \<Rightarrow> ('r, 'c, 'o, 'v) config) \<Rightarrow> (nat \<Rightarrow> int list) \<Rightarrow> ('r, 'c, 'o, 'v) config
    \<Rightarrow> 'c option option res" where
  "wait index n startTerm obs trms final =
     rbind (wait_loop index n startTerm obs trms 30) (\<lambda>go.
     if \<not> go then Inr None
     else rbind (nCommitted index final) (\<lambda>(nd, cmd).
          if nd < n then Inl (Fatal ''only some decided'') else Inr (Some cmd)))"

text \<open>
  \<open>one\<close>: the loops run against the clock, so the rounds that happen before the time is up are a list.  A
  round has the answers of \<open>Start(cmd)\<close> by server (index and whether it claims to be the leader) and the
  configurations seen while waiting for agreement.
\<close>

fun one_pick :: "nat \<Rightarrow> nat \<Rightarrow> (nat \<Rightarrow> int \<times> bool) \<Rightarrow> ('r, 'c, 'o, 'v) config \<Rightarrow> int \<times> nat" where
  "one_pick 0 starts st cfg = (-1, starts)"
| "one_pick (Suc k) starts st cfg =
     (let s = (starts + 1) mod cn cfg
      in if connected cfg ! s \<and> rafts cfg ! s \<noteq> None \<and> snd (st s) then (fst (st s), s)
         else one_pick k s st cfg)"

fun one_wait :: "'c \<Rightarrow> nat \<Rightarrow> int \<Rightarrow> ('r, 'c, 'o, 'v) config list \<Rightarrow> bool res" where
  "one_wait cmd expectedServers index [] = Inr False"
| "one_wait cmd expectedServers index (cfg # rest) =
     rbind (nCommitted index cfg) (\<lambda>(nd, cmd1).
     if nd > 0 \<and> nd \<ge> expectedServers \<and> cmd1 = Some cmd then Inr True
     else one_wait cmd expectedServers index rest)"

fun one :: "'c \<Rightarrow> nat \<Rightarrow> bool \<Rightarrow> nat \<Rightarrow> ((nat \<Rightarrow> int \<times> bool) \<times> ('r, 'c, 'o, 'v) config \<times> ('r, 'c, 'o, 'v) config list) list
    \<Rightarrow> int res" where
  "one cmd expectedServers retry starts [] = Inl (Fatal ''one failed to reach agreement'')"
| "one cmd expectedServers retry starts ((st, cfg, obs) # rounds) =
     (let (index, starts') = one_pick (cn cfg) starts st cfg
      in if index \<noteq> -1 then
           rbind (one_wait cmd expectedServers index obs) (\<lambda>agreed.
           if agreed then Inr index
           else if retry = False then Inl (Fatal ''one failed to reach agreement'')
           else one cmd expectedServers retry starts' rounds)
         else one cmd expectedServers retry starts' rounds)"

definition begin_test :: "('r, 'c, 'o, 'v) config \<Rightarrow> ('r, 'c, 'o, 'v) config" where
  "begin_test cfg = cfg\<lparr>rpcs0 := rpcTotal cfg, bytes0 := bytesTotal cfg, cmds0 := 0, maxIndex0 := maxIndex cfg\<rparr>"

text \<open>What \<open>end\<close> prints, apart from the time.\<close>

definition end_test :: "bool \<Rightarrow> int \<Rightarrow> ('r, 'c, 'o, 'v) config \<Rightarrow> (nat \<times> int \<times> int \<times> int) option res" where
  "end_test failed elapsed cfg =
     rbind (checkTimeout failed elapsed) (\<lambda>_.
     Inr (if failed = False then Some (cn cfg, rpcTotal cfg - rpcs0 cfg, bytesTotal cfg - bytes0 cfg, maxIndex cfg - maxIndex0 cfg)
          else None))"

end
