(* ===== verification/RaftWiring.thy ===== *)
theory RaftWiring
  imports RaftConfig
begin

text \<open>
  The connectivity of the harness of \<^verbatim>\<open>raft/config.go\<close>: an invariant that ties the network's end-points to
  \<open>connected\<close>, kept by starting, connecting, disconnecting and crashing servers.
\<close>

section \<open>Connectivity\<close>

definition name_of :: "('r, 'c, 'o, 'v) config \<Rightarrow> nat \<Rightarrow> nat \<Rightarrow> string" where
  "name_of cfg i j = the (endnames cfg ! i) ! j"

definition set_enabled :: "(string \<Rightarrow> bool) \<Rightarrow> ('r, 'c, 'o, 'v) config \<Rightarrow> ('r, 'c, 'o, 'v) config" where
  "set_enabled P cfg = cfg\<lparr>cnet := (cnet cfg)\<lparr>enabled := P\<rparr>\<rparr>"

lemma set_enabled_simps [simp]:
  "connected (set_enabled P cfg) = connected cfg" "endnames (set_enabled P cfg) = endnames cfg" "cn (set_enabled P cfg) = cn cfg"
  "enabled (cnet (set_enabled P cfg)) = P" "set_enabled P (set_enabled Q cfg) = set_enabled P cfg"
  "saved (set_enabled P cfg) = saved cfg" "rafts (set_enabled P cfg) = rafts cfg" "logs (set_enabled P cfg) = logs cfg" "applyErr (set_enabled P cfg) = applyErr cfg"
  "pheap (set_enabled P cfg) = pheap cfg" "sheap (set_enabled P cfg) = sheap cfg" "ends (cnet (set_enabled P cfg)) = ends (cnet cfg)"
  "connections (cnet (set_enabled P cfg)) = connections (cnet cfg)" "servers (cnet (set_enabled P cfg)) = servers (cnet cfg)"
  by (simp_all add: set_enabled_def)

lemma name_of_simps [simp]: "name_of (set_enabled P cfg) i j = name_of cfg i j" "name_of (cfg\<lparr>connected := up\<rparr>) i j = name_of cfg i j"
  by (simp_all add: name_of_def)

lemma cfg_enable_set: "cfg_enable en b cfg = set_enabled ((enabled (cnet cfg))(en := b)) cfg"
  by (simp add: cfg_enable_def set_enabled_def Enable_def)

lemma set_enabled_id: "set_enabled (enabled (cnet cfg)) cfg = cfg"
  by (simp add: set_enabled_def)

definition cfg_shape :: "('r, 'c, 'o, 'v) config \<Rightarrow> bool" where
  "cfg_shape cfg \<longleftrightarrow> length (connected cfg) = cn cfg \<and> length (endnames cfg) = cn cfg \<and> length (saved cfg) = cn cfg \<and>
     length (rafts cfg) = cn cfg \<and> length (logs cfg) = cn cfg \<and>
     (\<forall>i<cn cfg. \<forall>r. endnames cfg ! i = Some r \<longrightarrow> length r = cn cfg) \<and>
     (\<forall>i<cn cfg. connected cfg ! i \<longrightarrow> endnames cfg ! i \<noteq> None) \<and>
     (\<forall>i<cn cfg. \<forall>a. saved cfg ! i = Some a \<longrightarrow> a < length (pheap cfg))"

lemma cfg_shape_enabled [simp]: "cfg_shape (set_enabled P cfg) = cfg_shape cfg"
  by (simp add: cfg_shape_def)

lemma endname_at_ok:
  assumes "cfg_shape cfg" and "i < cn cfg" and "j < cn cfg" and "endnames cfg ! i \<noteq> None"
  shows "endname_at cfg i j = Inr (name_of cfg i j)"
  using assms by (auto simp: endname_at_def cfg_shape_def name_of_def)

lemma connect_out_result:
  assumes "cfg_shape cfg" and "i < cn cfg" and "set js \<subseteq> {..<cn cfg}" and "endnames cfg ! i \<noteq> None"
  shows "connect_out i js cfg =
    Inr (set_enabled (\<lambda>e. enabled (cnet cfg) e \<or> (\<exists>j\<in>set js. connected cfg ! j \<and> e = name_of cfg i j)) cfg)"
  using assms
proof (induction js arbitrary: cfg)
  case Nil
  then show ?case by (simp add: set_enabled_id)
next
  case (Cons j js)
  let ?cfg = "set_enabled ((enabled (cnet cfg))(name_of cfg i j := True)) cfg"
  have j: "j < length (connected cfg)" "j < cn cfg" using Cons.prems by (auto simp: cfg_shape_def)
  from Cons.IH [of cfg] Cons.IH [of ?cfg] Cons.prems j endname_at_ok [OF Cons.prems(1,2) j(2) Cons.prems(4)] show ?case
    by (auto simp: cfg_enable_set fun_eq_iff intro!: arg_cong2 [where f = set_enabled])
qed

lemma connect_in_result:
  assumes "cfg_shape cfg" and "i < cn cfg" and "set js \<subseteq> {..<cn cfg}"
  shows "connect_in i js cfg =
    Inr (set_enabled (\<lambda>e. enabled (cnet cfg) e \<or> (\<exists>j\<in>set js. connected cfg ! j \<and> e = name_of cfg j i)) cfg)"
  using assms
proof (induction js arbitrary: cfg)
  case Nil
  then show ?case by (simp add: set_enabled_id)
next
  case (Cons j js)
  let ?cfg = "set_enabled ((enabled (cnet cfg))(name_of cfg j i := True)) cfg"
  have j: "j < length (connected cfg)" "j < cn cfg" using Cons.prems by (auto simp: cfg_shape_def)
  have "connected cfg ! j \<Longrightarrow> endnames cfg ! j \<noteq> None" using Cons.prems(1) j by (simp add: cfg_shape_def)
  with Cons.IH [of cfg] Cons.IH [of ?cfg] Cons.prems j endname_at_ok [OF Cons.prems(1) j(2) Cons.prems(2)] show ?case
    by (auto simp: cfg_enable_set fun_eq_iff intro!: arg_cong2 [where f = set_enabled])
qed

lemma disconnect_out_result:
  assumes "cfg_shape cfg" and "i < cn cfg" and "set js \<subseteq> {..<cn cfg}"
  shows "disconnect_out i js cfg =
    Inr (set_enabled (\<lambda>e. enabled (cnet cfg) e \<and> \<not> (\<exists>j\<in>set js. endnames cfg ! i \<noteq> None \<and> e = name_of cfg i j)) cfg)"
  using assms
proof (induction js arbitrary: cfg)
  case Nil
  then show ?case by (simp add: set_enabled_id)
next
  case (Cons j js)
  let ?cfg = "set_enabled ((enabled (cnet cfg))(name_of cfg i j := False)) cfg"
  have j: "i < length (endnames cfg)" "j < cn cfg" using Cons.prems by (auto simp: cfg_shape_def)
  from Cons.IH [of cfg] Cons.IH [of ?cfg] Cons.prems j endname_at_ok [OF Cons.prems(1,2) j(2)] show ?case
    by (auto simp: cfg_enable_set fun_eq_iff intro!: arg_cong2 [where f = set_enabled])
qed

lemma disconnect_in_result:
  assumes "cfg_shape cfg" and "i < cn cfg" and "set js \<subseteq> {..<cn cfg}"
  shows "disconnect_in i js cfg =
    Inr (set_enabled (\<lambda>e. enabled (cnet cfg) e \<and> \<not> (\<exists>j\<in>set js. endnames cfg ! j \<noteq> None \<and> e = name_of cfg j i)) cfg)"
  using assms
proof (induction js arbitrary: cfg)
  case Nil
  then show ?case by (simp add: set_enabled_id)
next
  case (Cons j js)
  let ?cfg = "set_enabled ((enabled (cnet cfg))(name_of cfg j i := False)) cfg"
  have j: "j < length (endnames cfg)" "j < cn cfg" using Cons.prems by (auto simp: cfg_shape_def)
  from Cons.IH [of cfg] Cons.IH [of ?cfg] Cons.prems j endname_at_ok [OF Cons.prems(1) j(2) Cons.prems(2)] show ?case
    by (auto simp: cfg_enable_set fun_eq_iff intro!: arg_cong2 [where f = set_enabled])
qed


text \<open>
  \<open>conn_inv\<close>: every current end-point name belongs to one pair of servers and is connected to the
  second one, and exactly the end-points between two connected servers are enabled.  In particular
  the end-points of earlier instances stay disabled.
\<close>

definition names_unique :: "('r, 'c, 'o, 'v) config \<Rightarrow> bool" where
  "names_unique cfg \<longleftrightarrow>
     (\<forall>i j i' j'. i < cn cfg \<and> j < cn cfg \<and> i' < cn cfg \<and> j' < cn cfg \<and> endnames cfg ! i \<noteq> None \<and> endnames cfg ! i' \<noteq> None \<and>
        name_of cfg i j = name_of cfg i' j' \<longrightarrow> i = i' \<and> j = j')"

definition names_made :: "('r, 'c, 'o, 'v) config \<Rightarrow> bool" where
  "names_made cfg \<longleftrightarrow>
     (\<forall>i j. i < cn cfg \<and> j < cn cfg \<and> endnames cfg ! i \<noteq> None \<longrightarrow>
        ends (cnet cfg) (name_of cfg i j) \<noteq> None \<and> connections (cnet cfg) (name_of cfg i j) = Some j)"

definition enabled_exact :: "('r, 'c, 'o, 'v) config \<Rightarrow> bool" where
  "enabled_exact cfg \<longleftrightarrow>
     (\<forall>e. enabled (cnet cfg) e \<longleftrightarrow> (\<exists>i j. i < cn cfg \<and> j < cn cfg \<and> connected cfg ! i \<and> connected cfg ! j \<and> e = name_of cfg i j))"

definition conn_inv :: "('r, 'c, 'o, 'v) config \<Rightarrow> bool" where
  "conn_inv cfg \<longleftrightarrow> cfg_shape cfg \<and> names_unique cfg \<and> names_made cfg \<and> enabled_exact cfg"

lemma names_uniqueD:
  "names_unique cfg \<Longrightarrow> name_of cfg i j = name_of cfg i' j' \<Longrightarrow> i < cn cfg \<Longrightarrow> j < cn cfg \<Longrightarrow> i' < cn cfg \<Longrightarrow> j' < cn cfg \<Longrightarrow>
   endnames cfg ! i \<noteq> None \<Longrightarrow> endnames cfg ! i' \<noteq> None \<Longrightarrow> i = i' \<and> j = j'"
  unfolding names_unique_def by blast

lemma cfg_shape_row: "cfg_shape cfg \<Longrightarrow> i < cn cfg \<Longrightarrow> connected cfg ! i \<Longrightarrow> endnames cfg ! i \<noteq> None"
  unfolding cfg_shape_def by blast

lemma cfg_shape_connected:
  "cfg_shape cfg \<Longrightarrow> i < cn cfg \<Longrightarrow> (b \<longrightarrow> endnames cfg ! i \<noteq> None) \<Longrightarrow> cfg_shape (cfg\<lparr>connected := (connected cfg)[i := b]\<rparr>)"
  by (auto simp: cfg_shape_def nth_list_update split: if_splits)

lemma connect_result:
  assumes "cfg_shape cfg" and "i < cn cfg" and "endnames cfg ! i \<noteq> None"
  shows "connect i cfg = Inr (set_enabled (\<lambda>e. enabled (cnet cfg) e \<or>
           (\<exists>j<cn cfg. (connected cfg)[i := True] ! j \<and> (e = name_of cfg i j \<or> e = name_of cfg j i))) (cfg\<lparr>connected := (connected cfg)[i := True]\<rparr>))"
proof -
  let ?cfg = "cfg\<lparr>connected := (connected cfg)[i := True]\<rparr>"
  have s: "slice_set (connected cfg) (int i) True = Inr ((connected cfg)[i := True])" using assms by (simp add: cfg_shape_def)
  have shape: "cfg_shape ?cfg" using assms by (simp add: cfg_shape_connected)
  have o: "connect_out i [0..<cn cfg] ?cfg =
      Inr (set_enabled (\<lambda>e. enabled (cnet ?cfg) e \<or> (\<exists>j\<in>set [0..<cn cfg]. connected ?cfg ! j \<and> e = name_of ?cfg i j)) ?cfg)"
    by (rule connect_out_result [OF shape]) (use assms in auto)
  have "connect i cfg = connect_in i [0..<cn cfg]
      (set_enabled (\<lambda>e. enabled (cnet ?cfg) e \<or> (\<exists>j\<in>set [0..<cn cfg]. connected ?cfg ! j \<and> e = name_of ?cfg i j)) ?cfg)"
    unfolding connect_def s rbind_Inr o ..
  also have "\<dots> = Inr (set_enabled (\<lambda>e. enabled (cnet cfg) e \<or>
           (\<exists>j<cn cfg. (connected cfg)[i := True] ! j \<and> (e = name_of cfg i j \<or> e = name_of cfg j i))) ?cfg)"
    by (subst connect_in_result) (use shape assms in \<open>auto intro!: arg_cong2 [where f = set_enabled] ext\<close>)
  finally show ?thesis .
qed

lemma disconnect_result:
  assumes "cfg_shape cfg" and "i < cn cfg"
  shows "disconnect i cfg = Inr (set_enabled (\<lambda>e. enabled (cnet cfg) e \<and>
           \<not> (\<exists>j<cn cfg. endnames cfg ! i \<noteq> None \<and> e = name_of cfg i j \<or> endnames cfg ! j \<noteq> None \<and> e = name_of cfg j i))
           (cfg\<lparr>connected := (connected cfg)[i := False]\<rparr>))"
proof -
  let ?cfg = "cfg\<lparr>connected := (connected cfg)[i := False]\<rparr>"
  have s: "slice_set (connected cfg) (int i) False = Inr ((connected cfg)[i := False])" using assms by (simp add: cfg_shape_def)
  have shape: "cfg_shape ?cfg" using assms by (simp add: cfg_shape_connected)
  have o: "disconnect_out i [0..<cn cfg] ?cfg =
      Inr (set_enabled (\<lambda>e. enabled (cnet ?cfg) e \<and> \<not> (\<exists>j\<in>set [0..<cn cfg]. endnames ?cfg ! i \<noteq> None \<and> e = name_of ?cfg i j)) ?cfg)"
    by (rule disconnect_out_result [OF shape]) (use assms in auto)
  have "disconnect i cfg = disconnect_in i [0..<cn cfg]
      (set_enabled (\<lambda>e. enabled (cnet ?cfg) e \<and> \<not> (\<exists>j\<in>set [0..<cn cfg]. endnames ?cfg ! i \<noteq> None \<and> e = name_of ?cfg i j)) ?cfg)"
    unfolding disconnect_def s rbind_Inr o ..
  also have "\<dots> = Inr (set_enabled (\<lambda>e. enabled (cnet cfg) e \<and>
           \<not> (\<exists>j<cn cfg. endnames cfg ! i \<noteq> None \<and> e = name_of cfg i j \<or> endnames cfg ! j \<noteq> None \<and> e = name_of cfg j i)) ?cfg)"
    by (subst disconnect_in_result) (use shape assms in \<open>auto simp: Ball_def intro!: arg_cong2 [where f = set_enabled] ext\<close>)
  finally show ?thesis .
qed

lemma connect_inv:
  assumes inv: "conn_inv cfg" and i: "i < cn cfg" and row: "endnames cfg ! i \<noteq> None"
  shows "\<exists>cfg'. connect i cfg = Inr cfg' \<and> conn_inv cfg' \<and> connected cfg' = (connected cfg)[i := True] \<and>
           cfg' = set_enabled (enabled (cnet cfg')) (cfg\<lparr>connected := (connected cfg)[i := True]\<rparr>)"
proof -
  from inv have sh: "cfg_shape cfg" and un: "names_unique cfg" and md: "names_made cfg" and ex: "enabled_exact cfg"
    by (simp_all add: conn_inv_def)
  let ?up = "(connected cfg)[i := True]"
  let ?cfg = "set_enabled (\<lambda>e. enabled (cnet cfg) e \<or> (\<exists>j<cn cfg. ?up ! j \<and> (e = name_of cfg i j \<or> e = name_of cfg j i)))
      (cfg\<lparr>connected := ?up\<rparr>)"
  have len: "length (connected cfg) = cn cfg" using sh by (simp add: cfg_shape_def)
  have "cfg_shape ?cfg" using sh row i by (simp add: cfg_shape_connected)
  moreover have "names_unique ?cfg" using un by (simp add: names_unique_def)
  moreover have "names_made ?cfg" using md by (simp add: names_made_def)
  moreover have "enabled_exact ?cfg"
    using ex i len unfolding enabled_exact_def by (auto simp: nth_list_update split: if_splits) metis+
  ultimately have "conn_inv ?cfg" by (simp add: conn_inv_def)
  with connect_result [OF sh i row] show ?thesis by simp
qed

lemma disconnect_inv:
  assumes inv: "conn_inv cfg" and i: "i < cn cfg"
  shows "\<exists>cfg'. disconnect i cfg = Inr cfg' \<and> conn_inv cfg' \<and> connected cfg' = (connected cfg)[i := False] \<and>
           cfg' = set_enabled (enabled (cnet cfg')) (cfg\<lparr>connected := (connected cfg)[i := False]\<rparr>)"
proof -
  from inv have sh: "cfg_shape cfg" and un: "names_unique cfg" and md: "names_made cfg" and ex: "enabled_exact cfg"
    by (simp_all add: conn_inv_def)
  let ?up = "(connected cfg)[i := False]"
  let ?cfg = "set_enabled (\<lambda>e. enabled (cnet cfg) e \<and>
           \<not> (\<exists>j<cn cfg. endnames cfg ! i \<noteq> None \<and> e = name_of cfg i j \<or> endnames cfg ! j \<noteq> None \<and> e = name_of cfg j i))
           (cfg\<lparr>connected := ?up\<rparr>)"
  have len: "length (connected cfg) = cn cfg" using sh by (simp add: cfg_shape_def)
  have "cfg_shape ?cfg" using sh i by (simp add: cfg_shape_connected)
  moreover have "names_unique ?cfg" using un by (simp add: names_unique_def)
  moreover have "names_made ?cfg" using md by (simp add: names_made_def)
  moreover have "enabled_exact ?cfg"
    unfolding enabled_exact_def
  proof (intro allI)
    fix e
    show "enabled (cnet ?cfg) e \<longleftrightarrow> (\<exists>a b. a < cn ?cfg \<and> b < cn ?cfg \<and> connected ?cfg ! a \<and> connected ?cfg ! b \<and> e = name_of ?cfg a b)"
      (is "?l \<longleftrightarrow> ?r")
    proof
      assume ?l
      then obtain a b where ab: "a < cn cfg" "b < cn cfg" "connected cfg ! a" "connected cfg ! b" "e = name_of cfg a b"
        and off: "\<not> (\<exists>j<cn cfg. endnames cfg ! i \<noteq> None \<and> e = name_of cfg i j \<or> endnames cfg ! j \<noteq> None \<and> e = name_of cfg j i)"
        using ex unfolding enabled_exact_def by auto
      have "a \<noteq> i" "b \<noteq> i" using ab off cfg_shape_row [OF sh ab(1,3)] by blast+
      with ab show ?r by (intro exI [of _ a] exI [of _ b]) simp
    next
      assume ?r
      then obtain a b where ab: "a < cn cfg" "b < cn cfg" "?up ! a" "?up ! b" "e = name_of cfg a b" by auto
      then have up: "a \<noteq> i" "b \<noteq> i" "connected cfg ! a" "connected cfg ! b" using i len by (auto simp: nth_list_update split: if_splits)
      have "enabled (cnet cfg) e" using ex ab up unfolding enabled_exact_def by blast
      moreover have "endnames cfg ! a \<noteq> None" using cfg_shape_row [OF sh ab(1) up(3)] .
      ultimately show ?l using names_uniqueD [OF un] ab up i by auto
    qed
  qed
  ultimately have "conn_inv ?cfg" by (simp add: conn_inv_def)
  with disconnect_result [OF sh i] show ?thesis by simp
qed


section \<open>Crash and restart\<close>

text \<open>\<open>same_wiring\<close>: the two configurations agree on everything the connectivity depends on.\<close>

definition same_wiring :: "('r, 'c, 'o, 'v) config \<Rightarrow> ('r, 'c, 'o, 'v) config \<Rightarrow> bool" where
  "same_wiring cfg cfg' \<longleftrightarrow> cn cfg' = cn cfg \<and> connected cfg' = connected cfg \<and> endnames cfg' = endnames cfg \<and>
     ends (cnet cfg') = ends (cnet cfg) \<and> enabled (cnet cfg') = enabled (cnet cfg) \<and> connections (cnet cfg') = connections (cnet cfg)"

definition stores_ok :: "('r, 'c, 'o, 'v) config \<Rightarrow> bool" where
  "stores_ok cfg \<longleftrightarrow> length (saved cfg) = cn cfg \<and> length (rafts cfg) = cn cfg \<and> length (logs cfg) = cn cfg \<and>
     (\<forall>i<cn cfg. \<forall>a. saved cfg ! i = Some a \<longrightarrow> a < length (pheap cfg))"

lemma conn_inv_wiring:
  assumes "conn_inv cfg" and w: "same_wiring cfg cfg'" and "stores_ok cfg'"
  shows "conn_inv cfg'"
proof -
  note w = w [unfolded same_wiring_def]
  have n: "name_of cfg' = name_of cfg" using w by (simp add: name_of_def fun_eq_iff)
  have "names_unique cfg' = names_unique cfg" "names_made cfg' = names_made cfg" "enabled_exact cfg' = enabled_exact cfg"
    using w by (simp_all add: names_unique_def names_made_def enabled_exact_def n)
  moreover have "cfg_shape cfg'" using assms(1,3) w by (simp add: conn_inv_def cfg_shape_def stores_ok_def)
  ultimately show ?thesis using assms(1) by (simp add: conn_inv_def)
qed

lemma conn_inv_stores: "conn_inv cfg \<Longrightarrow> stores_ok cfg"
  by (simp add: conn_inv_def cfg_shape_def stores_ok_def)

text \<open>What \<open>crash1\<close> leaves in the store of persisters: the old ones, and a fresh one with the Raft state.\<close>

lemma crash1_inv:
  assumes inv: "conn_inv cfg" and i: "i < cn cfg"
  shows "\<exists>cfg'. crash1 i cfg = Inr cfg' \<and> conn_inv cfg' \<and> cn cfg' = cn cfg \<and> connected cfg' = (connected cfg)[i := False] \<and>
    endnames cfg' = endnames cfg \<and> ends (cnet cfg') = ends (cnet cfg) \<and> connections (cnet cfg') = connections (cnet cfg) \<and>
    servers (cnet cfg') = (servers (cnet cfg))(i := None) \<and> sheap cfg' = sheap cfg \<and> logs cfg' = logs cfg \<and> applyErr cfg' = applyErr cfg \<and> rafts cfg' = (rafts cfg)[i := None] \<and>
    (case saved cfg ! i of
       None \<Rightarrow> saved cfg' = saved cfg \<and> pheap cfg' = pheap cfg
     | Some a \<Rightarrow> saved cfg' = (saved cfg)[i := Some (Suc (length (pheap cfg)))] \<and>
         pheap cfg' = pheap cfg @ [pheap cfg ! a, \<lparr>raftstate = raftstate (pheap cfg ! a), snapshot = []\<rparr>])"
proof -
  obtain cfg1 where d: "disconnect i cfg = Inr cfg1" "conn_inv cfg1" "connected cfg1 = (connected cfg)[i := False]"
    and c1: "cfg1 = set_enabled (enabled (cnet cfg1)) (cfg\<lparr>connected := (connected cfg)[i := False]\<rparr>)"
    using disconnect_inv [OF inv i] by blast
  have f1: "cn cfg1 = cn cfg" "endnames cfg1 = endnames cfg" "ends (cnet cfg1) = ends (cnet cfg)"
    "connections (cnet cfg1) = connections (cnet cfg)" "servers (cnet cfg1) = servers (cnet cfg)" "sheap cfg1 = sheap cfg"
    "logs cfg1 = logs cfg" "applyErr cfg1 = applyErr cfg" "rafts cfg1 = rafts cfg" "saved cfg1 = saved cfg" "pheap cfg1 = pheap cfg"
    by (subst c1, simp)+
  from conn_inv_stores [OF inv] i have len: "i < length (saved cfg)" "i < length (rafts cfg)" "length (saved cfg) = cn cfg"
      "length (rafts cfg) = cn cfg" "length (logs cfg) = cn cfg"
    and val: "\<forall>k<cn cfg. \<forall>a. saved cfg ! k = Some a \<longrightarrow> a < length (pheap cfg)" by (auto simp: stores_ok_def)
  show ?thesis
  proof (cases "saved cfg ! i")
    case None
    let ?cfg = "cfg1\<lparr>cnet := DeleteServer i (cnet cfg1), killed := (case rafts cfg ! i of None \<Rightarrow> killed cfg1 | Some r \<Rightarrow> r # killed cfg1),
        rafts := (rafts cfg)[i := None]\<rparr>"
    have run: "crash1 i cfg = Inr ?cfg"
      using None len list_update_id [of "rafts cfg" i]
      by (cases "rafts cfg ! i") (simp_all add: crash1_def d(1) f1 copy_saved_def kill_raft_def keep_raftstate_def Let_def)
    have "conn_inv ?cfg" by (rule conn_inv_wiring [OF d(2)])
        (use len val None f1 in \<open>auto simp: same_wiring_def DeleteServer_def stores_ok_def\<close>)
    with run show ?thesis using None f1 d(3) by (intro exI [of _ ?cfg]) (simp add: DeleteServer_def)
  next
    case (Some a)
    have a: "a < length (pheap cfg)" using val i Some by blast
    let ?cfg = "cfg1\<lparr>cnet := DeleteServer i (cnet cfg1), killed := (case rafts cfg ! i of None \<Rightarrow> killed cfg1 | Some r \<Rightarrow> r # killed cfg1),
        rafts := (rafts cfg)[i := None], saved := (saved cfg)[i := Some (Suc (length (pheap cfg)))],
        pheap := pheap cfg @ [pheap cfg ! a, \<lparr>raftstate = raftstate (pheap cfg ! a), snapshot = []\<rparr>]\<rparr>"
    have run: "crash1 i cfg = Inr ?cfg"
      using Some a len list_update_id [of "rafts cfg" i]
      by (cases "rafts cfg ! i")
        (simp_all add: crash1_def d(1) f1 copy_saved_def new_saved_def kill_raft_def keep_raftstate_def Let_def slice_get_def
          nth_append persister_defs)
    have "conn_inv ?cfg" by (rule conn_inv_wiring [OF d(2)])
        (use len val f1 in \<open>auto simp: same_wiring_def DeleteServer_def stores_ok_def nth_list_update intro: trans_less_add1\<close>)
    with run show ?thesis using Some f1 d(3) by (intro exI [of _ ?cfg]) (simp add: DeleteServer_def)
  qed
qed


text \<open>Making the fresh end-points of a new instance.\<close>

lemma make_ends_result:
  assumes "distinct (map snd ps)" and "\<forall>p\<in>set ps. ends rn (snd p) = None"
  shows "\<exists>rn'. make_ends ps rn = Inr rn' \<and> servers rn' = servers rn \<and>
    ends rn' = (\<lambda>e. if e \<in> snd ` set ps then Some () else ends rn e) \<and>
    enabled rn' = (\<lambda>e. if e \<in> snd ` set ps then False else enabled rn e) \<and>
    (\<forall>j e. (j, e) \<in> set ps \<longrightarrow> connections rn' e = Some j) \<and> (\<forall>e. e \<notin> snd ` set ps \<longrightarrow> connections rn' e = connections rn e)"
  using assms
proof (induction ps arbitrary: rn)
  case Nil
  then show ?case by simp
next
  case (Cons p ps)
  obtain j en where p: "p = (j, en)" by (cases p)
  let ?rn = "Connect en j (rn\<lparr>ends := (ends rn)(en \<mapsto> ()), enabled := (enabled rn)(en := False), connections := (connections rn)(en := None)\<rparr>)"
  have ne: "en \<notin> snd ` set ps" "distinct (map snd ps)" using Cons.prems(1) p by auto
  have "\<forall>q\<in>set ps. ends ?rn (snd q) = None" using Cons.prems(2) ne(1) by (auto simp: Connect_def)
  from Cons.IH [OF ne(2) this] obtain rn' where rn': "make_ends ps ?rn = Inr rn'" "servers rn' = servers ?rn"
    "ends rn' = (\<lambda>e. if e \<in> snd ` set ps then Some () else ends ?rn e)"
    "enabled rn' = (\<lambda>e. if e \<in> snd ` set ps then False else enabled ?rn e)"
    "\<forall>j e. (j, e) \<in> set ps \<longrightarrow> connections rn' e = Some j" "\<forall>e. e \<notin> snd ` set ps \<longrightarrow> connections rn' e = connections ?rn e" by blast
  have "make_ends (p # ps) rn = Inr rn'" using rn'(1) Cons.prems(2) p by (simp add: MakeEnd_def)
  then show ?case using rn' ne p by (intro exI [of _ rn']) (auto simp: Connect_def fun_eq_iff)
qed

text \<open>A list of names is fresh if it has one unused name per server.\<close>

definition fresh_names :: "('r, 'c, 'o, 'v) config \<Rightarrow> string list \<Rightarrow> bool" where
  "fresh_names cfg names \<longleftrightarrow> length names = cn cfg \<and> distinct names \<and> list_all (\<lambda>e. ends (cnet cfg) e = None) names"

text \<open>The row of names of one server is replaced: \<open>new_row\<close> is the configuration with it and with the network \<open>rn\<close>.\<close>

definition new_row :: "nat \<Rightarrow> string list \<Rightarrow> (string, nat) Network \<Rightarrow> ('r, 'c, 'o, 'v) config \<Rightarrow> ('r, 'c, 'o, 'v) config" where
  "new_row i names rn cfg = cfg\<lparr>endnames := (endnames cfg)[i := Some names], cnet := rn\<rparr>"

definition row_made :: "string list \<Rightarrow> (string, nat) Network \<Rightarrow> (string, nat) Network \<Rightarrow> bool" where
  "row_made names rn rn' \<longleftrightarrow>
     servers rn' = servers rn \<and> ends rn' = (\<lambda>e. if e \<in> set names then Some () else ends rn e) \<and>
     enabled rn' = (\<lambda>e. if e \<in> set names then False else enabled rn e) \<and>
     (\<forall>j<length names. connections rn' (names ! j) = Some j) \<and> (\<forall>e. e \<notin> set names \<longrightarrow> connections rn' e = connections rn e)"

lemma make_ends_row:
  assumes "length names = n" and "distinct names" and "list_all (\<lambda>e. ends rn e = None) names"
  shows "\<exists>rn'. make_ends (zip [0..<n] names) rn = Inr rn' \<and> row_made names rn rn'"
proof -
  let ?ps = "zip [0..<n] names"
  have ps: "map snd ?ps = names" "snd ` set ?ps = set names" using assms(1) by (simp_all flip: set_map)
  have "(j, names ! j) \<in> set ?ps" if "j < length names" for j
    using that assms(1) by (auto simp: in_set_zip intro!: exI [of _ j])
  moreover have "distinct (map snd ?ps)" "\<forall>p\<in>set ?ps. ends rn (snd p) = None"
    using assms by (auto simp: ps(1) list_all_iff dest: set_zip_rightD)
  from make_ends_result [OF this] obtain rn' where "make_ends ?ps rn = Inr rn'" "servers rn' = servers rn"
    "ends rn' = (\<lambda>e. if e \<in> set names then Some () else ends rn e)"
    "enabled rn' = (\<lambda>e. if e \<in> set names then False else enabled rn e)"
    "\<forall>j e. (j, e) \<in> set ?ps \<longrightarrow> connections rn' e = Some j" "\<forall>e. e \<notin> set names \<longrightarrow> connections rn' e = connections rn e"
    unfolding ps(2) by blast
  ultimately show ?thesis by (auto simp: row_made_def)
qed

lemma new_row_names:
  assumes "cfg_shape cfg" and "i < cn cfg" and "a < cn cfg"
  shows "name_of (new_row i names rn cfg) a b = (if a = i then names ! b else name_of cfg a b)"
    and "endnames (new_row i names rn cfg) ! a \<noteq> None \<longleftrightarrow> a = i \<or> endnames cfg ! a \<noteq> None"
  using assms by (auto simp: new_row_def name_of_def cfg_shape_def nth_list_update)

lemma fresh_names_new:
  assumes "conn_inv cfg" and "fresh_names cfg names" and "a < cn cfg" "b < cn cfg" "endnames cfg ! a \<noteq> None"
  shows "name_of cfg a b \<notin> set names"
  using assms unfolding conn_inv_def names_made_def fresh_names_def list_all_iff by blast

lemma names_unique_new_row:
  assumes inv: "conn_inv cfg" and i: "i < cn cfg" and fr: "fresh_names cfg names"
  shows "names_unique (new_row i names rn cfg)"
  unfolding names_unique_def
proof (intro allI impI, elim conjE)
  let ?cfg = "new_row i names rn cfg"
  have sh: "cfg_shape cfg" and un: "names_unique cfg" using inv by (simp_all add: conn_inv_def)
  fix a b a' b' assume "a < cn ?cfg" "b < cn ?cfg" "a' < cn ?cfg" "b' < cn ?cfg" and rows: "endnames ?cfg ! a \<noteq> None"
    "endnames ?cfg ! a' \<noteq> None" and eq: "name_of ?cfg a b = name_of ?cfg a' b'"
  then have lt: "a < cn cfg" "b < cn cfg" "a' < cn cfg" "b' < cn cfg" by (simp_all add: new_row_def)
  have ln: "length names = cn cfg" "distinct names" using fr by (simp_all add: fresh_names_def)
  have new: "names ! c \<in> set names" if "c < cn cfg" for c using that ln by simp
  have r: "a \<noteq> i \<Longrightarrow> endnames cfg ! a \<noteq> None" "a' \<noteq> i \<Longrightarrow> endnames cfg ! a' \<noteq> None"
    using rows new_row_names(2) [OF sh i] lt by auto
  note nm = new_row_names(1) [OF sh i lt(1), of names rn b] new_row_names(1) [OF sh i lt(3), of names rn b']
  consider "a = i" "a' = i" | "a \<noteq> i" "a' \<noteq> i" | "a = i" "a' \<noteq> i" | "a \<noteq> i" "a' = i" by blast
  then show "a = a' \<and> b = b'"
  proof cases
    case 1
    then show ?thesis using eq nm lt ln nth_eq_iff_index_eq [OF ln(2)] by simp
  next
    case 2
    then show ?thesis using eq nm lt r names_uniqueD [OF un, of a b a' b'] by simp
  next
    case 3
    then show ?thesis using eq nm new [OF lt(2)] fresh_names_new [OF inv fr lt(3,4) r(2)] by simp
  next
    case 4
    then show ?thesis using eq nm new [OF lt(4)] fresh_names_new [OF inv fr lt(1,2) r(1)] by simp
  qed
qed

lemma names_made_new_row:
  assumes inv: "conn_inv cfg" and i: "i < cn cfg" and fr: "fresh_names cfg names" and rn: "row_made names (cnet cfg) rn"
  shows "names_made (new_row i names rn cfg)"
  unfolding names_made_def
proof (intro allI impI, elim conjE)
  let ?cfg = "new_row i names rn cfg"
  have sh: "cfg_shape cfg" and md: "names_made cfg" using inv by (simp_all add: conn_inv_def)
  have net: "cnet ?cfg = rn" by (simp add: new_row_def)
  fix a b assume "a < cn ?cfg" "b < cn ?cfg" and ab: "endnames ?cfg ! a \<noteq> None"
  then have lt: "a < cn cfg" "b < cn cfg" by (simp_all add: new_row_def)
  show "ends (cnet ?cfg) (name_of ?cfg a b) \<noteq> None \<and> connections (cnet ?cfg) (name_of ?cfg a b) = Some b"
  proof (cases "a = i")
    case True
    then show ?thesis using lt rn fr by (simp add: new_row_names(1) [OF sh i] net row_made_def fresh_names_def)
  next
    case False
    with ab new_row_names(2) [OF sh i lt(1)] have r: "endnames cfg ! a \<noteq> None" by simp
    with md lt have "ends (cnet cfg) (name_of cfg a b) \<noteq> None" "connections (cnet cfg) (name_of cfg a b) = Some b"
      unfolding names_made_def by blast+
    then show ?thesis using False fresh_names_new [OF inv fr lt r] rn by (simp add: new_row_names(1) [OF sh i lt(1)] net row_made_def)
  qed
qed

lemma enabled_exact_new_row:
  assumes inv: "conn_inv cfg" and i: "i < cn cfg" "\<not> connected cfg ! i" and fr: "fresh_names cfg names" and rn: "row_made names (cnet cfg) rn"
  shows "enabled_exact (new_row i names rn cfg)"
  unfolding enabled_exact_def
proof (intro allI)
  let ?cfg = "new_row i names rn cfg"
  have sh: "cfg_shape cfg" and ex: "enabled_exact cfg" using inv by (simp_all add: conn_inv_def)
  fix e
  have eq: "connected cfg ! a \<and> connected cfg ! b \<and> e = name_of ?cfg a b \<longleftrightarrow>
      connected cfg ! a \<and> connected cfg ! b \<and> e = name_of cfg a b" if "a < cn cfg" for a b
    using that i(2) new_row_names(1) [OF sh i(1)] by auto
  have "\<not> enabled (cnet cfg) e" if m: "e \<in> set names"
  proof
    assume "enabled (cnet cfg) e"
    then obtain a b where ab: "a < cn cfg" "b < cn cfg" "connected cfg ! a" "e = name_of cfg a b"
      using ex unfolding enabled_exact_def by blast
    then show False using fresh_names_new [OF inv fr ab(1,2) cfg_shape_row [OF sh ab(1,3)]] m by simp
  qed
  then have "enabled rn e \<longleftrightarrow> enabled (cnet cfg) e" using rn by (auto simp: row_made_def)
  also have "\<dots> \<longleftrightarrow> (\<exists>a b. a < cn cfg \<and> b < cn cfg \<and> connected cfg ! a \<and> connected cfg ! b \<and> e = name_of cfg a b)"
    using ex unfolding enabled_exact_def by blast
  also have "\<dots> \<longleftrightarrow> (\<exists>a b. a < cn cfg \<and> b < cn cfg \<and> connected cfg ! a \<and> connected cfg ! b \<and> e = name_of ?cfg a b)"
    using eq by blast
  finally show "enabled (cnet ?cfg) e \<longleftrightarrow>
      (\<exists>a b. a < cn ?cfg \<and> b < cn ?cfg \<and> connected ?cfg ! a \<and> connected ?cfg ! b \<and> e = name_of ?cfg a b)"
    by (simp add: new_row_def)
qed

lemma conn_inv_new_row:
  assumes inv: "conn_inv cfg" and i: "i < cn cfg" "\<not> connected cfg ! i" and fr: "fresh_names cfg names" and rn: "row_made names (cnet cfg) rn"
  shows "conn_inv (new_row i names rn cfg)"
proof -
  have "cfg_shape (new_row i names rn cfg)"
    using inv i fr by (auto simp: conn_inv_def cfg_shape_def new_row_def nth_list_update fresh_names_def)
  with names_unique_new_row [OF inv i(1) fr] names_made_new_row [OF inv i(1) fr rn] enabled_exact_new_row [OF inv i fr rn] inv
  show ?thesis by (simp add: conn_inv_def)
qed

text \<open>The persister that a crash leaves for server \<open>i\<close>.\<close>

definition kept_persister :: "nat \<Rightarrow> ('r, 'c, 'o, 'v) config \<Rightarrow> Persister" where
  "kept_persister i cfg = (case saved cfg ! i of
     None \<Rightarrow> \<lparr>raftstate = [], snapshot = []\<rparr> | Some a \<Rightarrow> \<lparr>raftstate = raftstate (pheap cfg ! a), snapshot = []\<rparr>)"

lemma crash1_kept:
  assumes inv: "conn_inv cfg" and i: "i < cn cfg" and run: "crash1 i cfg = Inr cfg'"
  shows "kept_persister i cfg' = kept_persister i cfg \<and> length (pheap cfg) \<le> length (pheap cfg') \<and>
    take (length (pheap cfg)) (pheap cfg') = pheap cfg \<and> (\<forall>a. saved cfg' ! i = Some a \<longrightarrow> pheap cfg' ! a = kept_persister i cfg) \<and>
    (saved cfg' ! i = None \<longrightarrow> kept_persister i cfg = \<lparr>raftstate = [], snapshot = []\<rparr>)"
proof -
  have "i < length (saved cfg)" using conn_inv_stores [OF inv] i by (simp add: stores_ok_def)
  then show ?thesis
    using crash1_inv [OF inv i] run by (cases "saved cfg ! i") (auto simp: kept_persister_def nth_append)
qed

lemma start1_result:
  assumes inv: "conn_inv cfg" and i: "i < cn cfg" and fr: "fresh_names cfg names"
  shows "\<exists>cfg'. start1 names rf svc i cfg = Inr cfg' \<and> conn_inv cfg' \<and> cn cfg' = cn cfg \<and>
    connected cfg' = (connected cfg)[i := False] \<and> endnames cfg' = (endnames cfg)[i := Some names] \<and>
    servers (cnet cfg') = (servers (cnet cfg))(i \<mapsto> length (sheap cfg)) \<and> sheap cfg' = sheap cfg @ [AddService svc MakeServer] \<and>
    rafts cfg' = (rafts cfg)[i := Some rf] \<and> logs cfg' = logs cfg \<and> applyErr cfg' = applyErr cfg \<and>
    ends (cnet cfg') = (\<lambda>e. if e \<in> set names then Some () else ends (cnet cfg) e) \<and>
    (\<exists>a. saved cfg' = (saved cfg)[i := Some a] \<and> length (pheap cfg) \<le> a \<and> Suc a = length (pheap cfg') \<and>
      pheap cfg' ! a = kept_persister i cfg \<and> take (length (pheap cfg)) (pheap cfg') = pheap cfg)"
proof -
  obtain c1 where c1: "crash1 i cfg = Inr c1" "conn_inv c1" "cn c1 = cn cfg" "connected c1 = (connected cfg)[i := False]"
    "endnames c1 = endnames cfg" "ends (cnet c1) = ends (cnet cfg)" "servers (cnet c1) = (servers (cnet cfg))(i := None)"
    "sheap c1 = sheap cfg" "logs c1 = logs cfg" "rafts c1 = (rafts cfg)[i := None]" "applyErr c1 = applyErr cfg"
    and sv: "\<exists>x. saved c1 = (saved cfg)[i := x]"
    using crash1_inv [OF inv i] by (auto split: option.splits) (metis list_update_id)+
  note kept = crash1_kept [OF inv i c1(1)]
  have ln: "length names = cn cfg" using fr by (simp add: fresh_names_def)
  have fr1: "fresh_names c1 names" using fr c1 by (simp add: fresh_names_def)
  obtain rn where rn: "make_ends (zip [0..<cn c1] names) (cnet c1) = Inr rn" and made: "row_made names (cnet c1) rn"
    using make_ends_row [of names "cn c1" "cnet c1"] fr1 by (auto simp: fresh_names_def)
  from conn_inv_stores [OF inv] i have len: "i < length (saved cfg)" "i < length (rafts cfg)" "i < length (endnames cfg)"
      "i < length (connected cfg)"
    using inv by (simp_all add: stores_ok_def conn_inv_def cfg_shape_def)
  have off: "\<not> connected c1 ! i" using len c1(4) by simp
  let ?c2 = "new_row i names rn c1"
  have inv2: "conn_inv ?c2" by (rule conn_inv_new_row [OF c1(2) _ off fr1 made]) (use i c1 in simp)
  let ?p = "kept_persister i cfg"
  let ?c4 = "?c2\<lparr>saved := (saved c1)[i := Some (length (pheap c1))], pheap := pheap c1 @ [?p], rafts := (rafts cfg)[i := Some rf],
      sheap := sheap c1 @ [AddService svc MakeServer], cnet := AddServer i (length (sheap c1)) rn\<rparr>"
  have st: "stores_ok c1" by (rule conn_inv_stores [OF c1(2)])
  have len1: "i < length (saved c1)" "length (rafts c1) = cn c1" using st i c1 by (simp_all add: stores_ok_def)
  have run: "start1 names rf svc i cfg = Inr ?c4"
  proof (cases "saved c1 ! i")
    case None
    then show ?thesis using kept len len1 ln rn c1
      by (simp add: start1_def new_row_def new_saved_def Let_def persister_defs)
  next
    case (Some a)
    then have "a < length (pheap c1)" "pheap c1 ! a = ?p" using st kept i c1(3) by (auto simp: stores_ok_def)
    with Some show ?thesis using len len1 ln rn c1
      by (simp add: start1_def new_row_def new_saved_def copy_saved_def Let_def)
  qed
  have "conn_inv ?c4"
  proof (rule conn_inv_wiring [OF inv2])
    show "stores_ok ?c4" using st len len1 c1 by (auto simp: new_row_def stores_ok_def nth_list_update less_SucI)
  qed (simp add: same_wiring_def AddServer_def new_row_def)
  moreover have "saved ?c4 = (saved cfg)[i := Some (length (pheap c1))]" using sv by auto
  moreover have "servers rn = servers (cnet c1)" "ends rn = (\<lambda>e. if e \<in> set names then Some () else ends (cnet cfg) e)"
    using made unfolding row_made_def c1(6) by simp_all
  ultimately show ?thesis using run kept c1
    by (intro exI [of _ ?c4]) (simp add: AddServer_def new_row_def nth_append take_append)
qed

lemma zero_config_inv: "conn_inv (zero_config n)"
  unfolding conn_inv_def
proof (intro conjI)
  show "names_unique (zero_config n)" unfolding names_unique_def by (auto simp: zero_config_def)
qed (simp_all add: zero_config_def cfg_shape_def names_made_def enabled_exact_def MakeNetwork_def)


section \<open>Sequences of operations\<close>

datatype ('r, 'o, 'v) harness_op =
    HStart "string list" 'r "('o, 'v) Service" nat
  | HConnect nat
  | HDisconnect nat
  | HCrash nat
  | HUnreliable bool
  | HReordering bool

fun harness_step :: "('r, 'o, 'v) harness_op \<Rightarrow> ('r, 'c, 'o, 'v) config \<Rightarrow> ('r, 'c, 'o, 'v) config res" where
  "harness_step (HStart names rf svc i) cfg = start1 names rf svc i cfg"
| "harness_step (HConnect i) cfg = connect i cfg"
| "harness_step (HDisconnect i) cfg = disconnect i cfg"
| "harness_step (HCrash i) cfg = crash1 i cfg"
| "harness_step (HUnreliable b) cfg = Inr (setunreliable b cfg)"
| "harness_step (HReordering b) cfg = Inr (setlongreordering b cfg)"

fun harness_run :: "('r, 'o, 'v) harness_op list \<Rightarrow> ('r, 'c, 'o, 'v) config \<Rightarrow> ('r, 'c, 'o, 'v) config res" where
  "harness_run [] cfg = Inr cfg"
| "harness_run (opn # ops) cfg = rbind (harness_step opn cfg) (harness_run ops)"

text \<open>
  What the tests respect: servers are numbered below \<open>n\<close>, only a server that was started is connected,
  and \<open>randstring\<close> never returns a name twice.
\<close>

fun op_ok :: "('r, 'o, 'v) harness_op \<Rightarrow> ('r, 'c, 'o, 'v) config \<Rightarrow> bool" where
  "op_ok (HStart names rf svc i) cfg \<longleftrightarrow> i < cn cfg \<and> fresh_names cfg names"
| "op_ok (HConnect i) cfg \<longleftrightarrow> i < cn cfg \<and> endnames cfg ! i \<noteq> None"
| "op_ok (HDisconnect i) cfg \<longleftrightarrow> i < cn cfg"
| "op_ok (HCrash i) cfg \<longleftrightarrow> i < cn cfg"
| "op_ok _ cfg \<longleftrightarrow> True"

fun harness_ok :: "('r, 'o, 'v) harness_op list \<Rightarrow> ('r, 'c, 'o, 'v) config \<Rightarrow> bool" where
  "harness_ok [] cfg \<longleftrightarrow> True"
| "harness_ok (opn # ops) cfg \<longleftrightarrow>
     op_ok opn cfg \<and> (case harness_step opn cfg of Inl _ \<Rightarrow> True | Inr cfg' \<Rightarrow> harness_ok ops cfg')"

text \<open>An end-point of an instance that has been replaced.\<close>

definition current_end :: "('r, 'c, 'o, 'v) config \<Rightarrow> string \<Rightarrow> bool" where
  "current_end cfg e \<longleftrightarrow> (\<exists>i<cn cfg. \<exists>j<cn cfg. endnames cfg ! i \<noteq> None \<and> e = name_of cfg i j)"

definition stale_end :: "('r, 'c, 'o, 'v) config \<Rightarrow> string \<Rightarrow> bool" where
  "stale_end cfg e \<longleftrightarrow> ends (cnet cfg) e \<noteq> None \<and> \<not> current_end cfg e"

lemma stale_end_rows:
  assumes "cn cfg' = cn cfg" and "endnames cfg' = endnames cfg" and "ends (cnet cfg') = ends (cnet cfg)"
  shows "stale_end cfg' e = stale_end cfg e"
  using assms by (simp add: stale_end_def current_end_def name_of_def)

lemma harness_step_frame:
  assumes inv: "conn_inv cfg" and ok: "op_ok opn cfg"
  shows "\<exists>cfg'. harness_step opn cfg = Inr cfg' \<and> conn_inv cfg' \<and> cn cfg' = cn cfg \<and> (\<forall>e. stale_end cfg e \<longrightarrow> stale_end cfg' e)"
proof (cases opn)
  case (HStart names rf svc i)
  with ok have i: "i < cn cfg" and fr: "fresh_names cfg names" by simp_all
  from start1_result [OF inv i fr] obtain cfg' where r: "start1 names rf svc i cfg = Inr cfg'" "conn_inv cfg'" "cn cfg' = cn cfg"
    "endnames cfg' = (endnames cfg)[i := Some names]" "ends (cnet cfg') = (\<lambda>e. if e \<in> set names then Some () else ends (cnet cfg) e)" by blast
  have len: "length (endnames cfg) = cn cfg" "length names = cn cfg" using inv fr by (simp_all add: conn_inv_def cfg_shape_def fresh_names_def)
  have "stale_end cfg' e" if st: "stale_end cfg e" for e
  proof -
    have "e \<notin> set names" using st fr by (auto simp: stale_end_def fresh_names_def list_all_iff)
    then have "\<not> current_end cfg' e"
      using st r(3,4) len i by (auto simp: stale_end_def current_end_def name_of_def nth_list_update split: if_splits)
    then show ?thesis using st r(5) by (simp add: stale_end_def)
  qed
  with r HStart show ?thesis by auto
next
  case (HConnect i)
  with ok have i: "i < cn cfg" and row: "endnames cfg ! i \<noteq> None" by simp_all
  from connect_inv [OF inv i row] obtain cfg' where r: "connect i cfg = Inr cfg'" "conn_inv cfg'"
    and e: "cfg' = set_enabled (enabled (cnet cfg')) (cfg\<lparr>connected := (connected cfg)[i := True]\<rparr>)" by blast
  have fr: "cn cfg' = cn cfg" "endnames cfg' = endnames cfg" "ends (cnet cfg') = ends (cnet cfg)" by (subst e, simp)+
  with r HConnect stale_end_rows [OF fr] show ?thesis by simp
next
  case (HDisconnect i)
  with ok have i: "i < cn cfg" by simp
  from disconnect_inv [OF inv i] obtain cfg' where r: "disconnect i cfg = Inr cfg'" "conn_inv cfg'"
    and e: "cfg' = set_enabled (enabled (cnet cfg')) (cfg\<lparr>connected := (connected cfg)[i := False]\<rparr>)" by blast
  have fr: "cn cfg' = cn cfg" "endnames cfg' = endnames cfg" "ends (cnet cfg') = ends (cnet cfg)" by (subst e, simp)+
  with r HDisconnect stale_end_rows [OF fr] show ?thesis by simp
next
  case (HCrash i)
  with ok have i: "i < cn cfg" by simp
  from crash1_inv [OF inv i] obtain cfg' where r: "crash1 i cfg = Inr cfg'" "conn_inv cfg'"
    and fr: "cn cfg' = cn cfg" "endnames cfg' = endnames cfg" "ends (cnet cfg') = ends (cnet cfg)" by blast
  with HCrash stale_end_rows [OF fr] show ?thesis by simp
next
  case (HUnreliable b)
  have "conn_inv (setunreliable b cfg)"
    by (rule conn_inv_wiring [OF inv]) (use conn_inv_stores [OF inv] in \<open>simp_all add: setunreliable_def Reliable_def same_wiring_def stores_ok_def\<close>)
  with HUnreliable show ?thesis by (auto simp: stale_end_def current_end_def name_of_def setunreliable_def Reliable_def)
next
  case (HReordering b)
  have "conn_inv (setlongreordering b cfg)"
    by (rule conn_inv_wiring [OF inv]) (use conn_inv_stores [OF inv] in \<open>simp_all add: setlongreordering_def LongReordering_def same_wiring_def stores_ok_def\<close>)
  with HReordering show ?thesis by (auto simp: stale_end_def current_end_def name_of_def setlongreordering_def LongReordering_def)
qed

lemma harness_run_inv:
  "conn_inv cfg \<Longrightarrow> harness_ok ops cfg \<Longrightarrow>
   \<exists>cfg'. harness_run ops cfg = Inr cfg' \<and> conn_inv cfg' \<and> cn cfg' = cn cfg \<and> (\<forall>e. stale_end cfg e \<longrightarrow> stale_end cfg' e)"
proof (induction ops arbitrary: cfg)
  case (Cons opn ops)
  from Cons.prems harness_step_frame [of cfg opn] obtain c1 where c1: "harness_step opn cfg = Inr c1" "conn_inv c1" "cn c1 = cn cfg"
    "\<forall>e. stale_end cfg e \<longrightarrow> stale_end c1 e" by auto
  with Cons.prems have "harness_ok ops c1" by simp
  from Cons.IH [OF c1(2) this] c1 show ?case by auto
qed simp

lemma harness_run_append: "harness_run (ops @ ops') cfg = rbind (harness_run ops cfg) (harness_run ops')"
proof (induction ops cfg rule: harness_run.induct)
  case (2 opn ops cfg)
  then show ?case by (cases "harness_step opn cfg") simp_all
qed simp

lemma harness_ok_append:
  "harness_run ops cfg = Inr cfg1 \<Longrightarrow> harness_ok (ops @ ops') cfg \<longleftrightarrow> harness_ok ops cfg \<and> harness_ok ops' cfg1"
proof (induction ops cfg rule: harness_run.induct)
  case (2 opn ops cfg)
  then show ?case by (cases "harness_step opn cfg") simp_all
qed simp

text \<open>Which requests the network delivers.\<close>

lemma conn_inv_reachable:
  assumes inv: "conn_inv cfg"
  shows "reachable_end e (cnet cfg) \<longleftrightarrow>
    (\<exists>i<cn cfg. \<exists>j<cn cfg. connected cfg ! i \<and> connected cfg ! j \<and> e = name_of cfg i j \<and> servers (cnet cfg) j \<noteq> None)"
proof -
  have sh: "cfg_shape cfg" and ex: "enabled_exact cfg" and md: "names_made cfg" using inv by (simp_all add: conn_inv_def)
  have "connections (cnet cfg) (name_of cfg i j) = Some j" if "i < cn cfg" "j < cn cfg" "connected cfg ! i" for i j
    using md that cfg_shape_row [OF sh that(1,3)] unfolding names_made_def by blast
  then have "connections (cnet cfg) e = Some j" if "i < cn cfg" "j < cn cfg" "connected cfg ! i" "e = name_of cfg i j" for i j
    using that by simp
  moreover have "enabled (cnet cfg) e \<longleftrightarrow> (\<exists>i<cn cfg. \<exists>j<cn cfg. connected cfg ! i \<and> connected cfg ! j \<and> e = name_of cfg i j)"
    using ex unfolding enabled_exact_def by blast
  ultimately show ?thesis unfolding reachable_end_def by (auto 4 4)
qed

lemma stale_end_unreachable: "conn_inv cfg \<Longrightarrow> stale_end cfg e \<Longrightarrow> \<not> reachable_end e (cnet cfg)"
  unfolding conn_inv_reachable stale_end_def current_end_def by (metis cfg_shape_row conn_inv_def)


section \<open>The initial configuration\<close>

definition used_names :: "(nat \<Rightarrow> string list) \<Rightarrow> nat list \<Rightarrow> string list" where
  "used_names names is = concat (map names is)"

lemma start_all_inv:
  assumes "conn_inv cfg" and "set is \<subseteq> {..<cn cfg}" and "distinct is"
    and "\<forall>i\<in>set is. length (names i) = cn cfg" and "distinct (used_names names is)"
    and "list_all (\<lambda>e. ends (cnet cfg) e = None) (used_names names is)"
  shows "\<exists>cfg'. start_all names rf svc is cfg = Inr cfg' \<and> conn_inv cfg' \<and> cn cfg' = cn cfg \<and> logs cfg' = logs cfg \<and> applyErr cfg' = applyErr cfg \<and>
    (\<forall>i<cn cfg. servers (cnet cfg') i \<noteq> None \<longleftrightarrow> i \<in> set is \<or> servers (cnet cfg) i \<noteq> None) \<and>
    (\<forall>i<cn cfg. endnames cfg' ! i = (if i \<in> set is then Some (names i) else endnames cfg ! i)) \<and>
    (\<forall>i<cn cfg. rafts cfg' ! i = (if i \<in> set is then Some (rf i) else rafts cfg ! i))"
  using assms
proof (induction "is" arbitrary: cfg)
  case (Cons i "is")
  have i: "i < cn cfg" and fr: "fresh_names cfg (names i)"
    using Cons.prems by (auto simp: fresh_names_def used_names_def)
  from start1_result [OF Cons.prems(1) i fr, of "rf i" "svc i"] obtain c1 where c1: "start1 (names i) (rf i) (svc i) i cfg = Inr c1"
    "conn_inv c1" "cn c1 = cn cfg" "endnames c1 = (endnames cfg)[i := Some (names i)]"
    "servers (cnet c1) = (servers (cnet cfg))(i \<mapsto> length (sheap cfg))" "rafts c1 = (rafts cfg)[i := Some (rf i)]" "logs c1 = logs cfg \<and> applyErr c1 = applyErr cfg"
    "ends (cnet c1) = (\<lambda>e. if e \<in> set (names i) then Some () else ends (cnet cfg) e)" by blast
  have "list_all (\<lambda>e. ends (cnet c1) e = None) (used_names names is)"
    using Cons.prems(5,6) by (auto simp: c1(8) used_names_def list_all_iff)
  then obtain c2 where c2: "start_all names rf svc is c1 = Inr c2" "conn_inv c2" "cn c2 = cn c1" "logs c2 = logs c1 \<and> applyErr c2 = applyErr c1"
    "\<forall>k<cn c1. servers (cnet c2) k \<noteq> None \<longleftrightarrow> k \<in> set is \<or> servers (cnet c1) k \<noteq> None"
    "\<forall>k<cn c1. endnames c2 ! k = (if k \<in> set is then Some (names k) else endnames c1 ! k)"
    "\<forall>k<cn c1. rafts c2 ! k = (if k \<in> set is then Some (rf k) else rafts c1 ! k)"
    using Cons.IH [OF c1(2)] Cons.prems c1(3) by (auto simp: used_names_def)
  have len: "length (endnames cfg) = cn cfg" "length (rafts cfg) = cn cfg"
    using Cons.prems(1) by (simp_all add: conn_inv_def cfg_shape_def)
  have "start_all names rf svc (i # is) cfg = Inr c2" using c1(1) c2(1) by simp
  moreover have "\<forall>k<cn cfg. endnames c2 ! k = (if k \<in> set (i # is) then Some (names k) else endnames cfg ! k)"
    using c2(6) c1(3,4) i len by (simp add: nth_list_update)
  moreover have "\<forall>k<cn cfg. rafts c2 ! k = (if k \<in> set (i # is) then Some (rf k) else rafts cfg ! k)"
    using c2(7) c1(3,6) i len by (simp add: nth_list_update)
  moreover have "\<forall>k<cn cfg. servers (cnet c2) k \<noteq> None \<longleftrightarrow> k \<in> set (i # is) \<or> servers (cnet cfg) k \<noteq> None"
    using c2(5) c1(3,5) by auto
  ultimately show ?case using c1 c2 by (intro exI [of _ c2]) simp
qed simp

lemma connect_all_inv:
  assumes "conn_inv cfg" and "set is \<subseteq> {..<cn cfg}" and "\<forall>i\<in>set is. endnames cfg ! i \<noteq> None"
  shows "\<exists>cfg'. connect_all is cfg = Inr cfg' \<and> conn_inv cfg' \<and> cn cfg' = cn cfg \<and> logs cfg' = logs cfg \<and> applyErr cfg' = applyErr cfg \<and> endnames cfg' = endnames cfg \<and>
    rafts cfg' = rafts cfg \<and> servers (cnet cfg') = servers (cnet cfg) \<and>
    (\<forall>i<cn cfg. connected cfg' ! i \<longleftrightarrow> i \<in> set is \<or> connected cfg ! i)"
  using assms
proof (induction "is" arbitrary: cfg)
  case (Cons i "is")
  have i: "i < cn cfg" and row: "endnames cfg ! i \<noteq> None" using Cons.prems by auto
  from connect_inv [OF Cons.prems(1) i row] obtain c1 where c1: "connect i cfg = Inr c1" "conn_inv c1" "connected c1 = (connected cfg)[i := True]"
    and e: "c1 = set_enabled (enabled (cnet c1)) (cfg\<lparr>connected := (connected cfg)[i := True]\<rparr>)" by blast
  have fr: "cn c1 = cn cfg" "logs c1 = logs cfg \<and> applyErr c1 = applyErr cfg" "endnames c1 = endnames cfg" "rafts c1 = rafts cfg" "servers (cnet c1) = servers (cnet cfg)"
    by (subst e, simp)+
  then obtain c2 where c2: "connect_all is c1 = Inr c2" "conn_inv c2" "cn c2 = cn c1" "logs c2 = logs c1 \<and> applyErr c2 = applyErr c1" "endnames c2 = endnames c1"
    "rafts c2 = rafts c1" "servers (cnet c2) = servers (cnet c1)" "\<forall>k<cn c1. connected c2 ! k \<longleftrightarrow> k \<in> set is \<or> connected c1 ! k"
    using Cons.IH [OF c1(2)] Cons.prems by auto
  have "length (connected cfg) = cn cfg" using Cons.prems(1) by (simp add: conn_inv_def cfg_shape_def)
  then have "\<forall>k<cn cfg. connected c2 ! k \<longleftrightarrow> k \<in> set (i # is) \<or> connected cfg ! k"
    using c2(8) c1(3) fr(1) i by (auto simp: nth_list_update)
  with c1(1) c2 fr show ?case by (intro exI [of _ c2]) simp
qed simp

text \<open>After \<open>make_config\<close> all \<open>n\<close> servers run and are connected to each other.\<close>

definition names_ok :: "nat \<Rightarrow> (nat \<Rightarrow> string list) \<Rightarrow> bool" where
  "names_ok n names \<longleftrightarrow> list_all (\<lambda>i. length (names i) = n) [0..<n] \<and> distinct (used_names names [0..<n])"

lemma make_config_result:
  fixes rf :: "nat \<Rightarrow> 'r" and svc :: "nat \<Rightarrow> ('o, 'v) Service"
  assumes "names_ok n names"
  shows "\<exists>cfg :: ('r, 'c, 'o, 'v) config. make_config names rf svc n unrel = Inr cfg \<and> conn_inv cfg \<and> cn cfg = n \<and> logs cfg = replicate n Map.empty \<and> applyErr cfg = replicate n [] \<and>
    (\<forall>i<n. connected cfg ! i \<and> servers (cnet cfg) i \<noteq> None \<and> endnames cfg ! i = Some (names i) \<and> rafts cfg ! i = Some (rf i))"
proof -
  let ?z = "zero_config n :: ('r, 'c, 'o, 'v) config"
  let ?c0 = "(setunreliable unrel ?z)\<lparr>cnet := LongDelays True (cnet (setunreliable unrel ?z))\<rparr>"
  have z: "conn_inv ?z" by (rule zero_config_inv)
  have inv: "conn_inv ?c0"
    by (rule conn_inv_wiring [OF z]) (use conn_inv_stores [OF z] in \<open>simp_all add: setunreliable_def Reliable_def LongDelays_def same_wiring_def stores_ok_def\<close>)
  have f0: "cn ?c0 = n" "logs ?c0 = replicate n Map.empty" "applyErr ?c0 = replicate n []" "ends (cnet ?c0) = Map.empty"
    by (simp_all add: setunreliable_def zero_config_def LongDelays_def Reliable_def MakeNetwork_def)
  have "\<exists>c1. start_all names rf svc [0..<n] ?c0 = Inr c1 \<and> conn_inv c1 \<and> cn c1 = cn ?c0 \<and> logs c1 = logs ?c0 \<and> applyErr c1 = applyErr ?c0 \<and>
    (\<forall>i<cn ?c0. servers (cnet c1) i \<noteq> None \<longleftrightarrow> i \<in> set [0..<n] \<or> servers (cnet ?c0) i \<noteq> None) \<and>
    (\<forall>i<cn ?c0. endnames c1 ! i = (if i \<in> set [0..<n] then Some (names i) else endnames ?c0 ! i)) \<and>
    (\<forall>i<cn ?c0. rafts c1 ! i = (if i \<in> set [0..<n] then Some (rf i) else rafts ?c0 ! i))"
    by (rule start_all_inv [OF inv]) (use assms f0 in \<open>auto simp: names_ok_def list_all_iff\<close>)
  then obtain c1 where c1: "start_all names rf svc [0..<n] ?c0 = Inr c1" "conn_inv c1" "cn c1 = n" "logs c1 = replicate n Map.empty" "applyErr c1 = replicate n []"
    "\<forall>i<n. servers (cnet c1) i \<noteq> None" "\<forall>i<n. endnames c1 ! i = Some (names i)" "\<forall>i<n. rafts c1 ! i = Some (rf i)"
    unfolding f0 by auto
  have "set [0..<n] \<subseteq> {..<cn c1}" "\<forall>i\<in>set [0..<n]. endnames c1 ! i \<noteq> None" using c1 by auto
  from connect_all_inv [OF c1(2) this] c1 obtain c2 where c2: "connect_all [0..<n] c1 = Inr c2" "conn_inv c2" "cn c2 = n"
    "logs c2 = logs c1" "applyErr c2 = applyErr c1" "endnames c2 = endnames c1" "rafts c2 = rafts c1" "servers (cnet c2) = servers (cnet c1)" "\<forall>i<n. connected c2 ! i" by auto
  have "make_config names rf svc n unrel = Inr c2" unfolding make_config_def Let_def c1(1) rbind_Inr c2(1) ..
  with c1 c2 show ?thesis by (intro exI [of _ c2]) simp
qed

lemma make_config_facts:
  fixes cfg :: "('r, 'c, 'o, 'v) config"
  assumes "names_ok n names" and "make_config names rf svc n unrel = Inr cfg"
  shows "conn_inv cfg" and "cn cfg = n" and "logs cfg = replicate n Map.empty"
    and "applyErr cfg = replicate n []" and "i < n \<Longrightarrow> connected cfg ! i" and "i < n \<Longrightarrow> servers (cnet cfg) i \<noteq> None"
  using make_config_result [OF assms(1), of rf svc unrel, where ?'c = 'c] assms(2) by (auto simp del: not_None_eq)

end
