(* ===== verification/RaftChecks.thy ===== *)
theory RaftChecks
  imports RaftConfig
begin

text \<open>
  What the checks of \<^verbatim>\<open>raft/config.go\<close> establish: the reader of \<open>applyCh\<close> stops the test exactly when the
  servers apply different commands at an index or skip an index, \<open>nCommitted\<close> counts the servers that have
  an entry, and \<open>checkOneLeader\<close> returns the connected leader of the latest term.
\<close>

section \<open>Applied entries\<close>

fun apply_run :: "(nat \<times> 'c ApplyMsg) list \<Rightarrow> ('r, 'c, 'o, 'v) config \<Rightarrow> ('r, 'c, 'o, 'v) config res" where
  "apply_run [] cfg = Inr cfg"
| "apply_run ((i, m) # ms) cfg = rbind (apply_msg i m cfg) (apply_run ms)"

lemma apply_run_append: "apply_run (ms @ ms') cfg = rbind (apply_run ms cfg) (apply_run ms')"
proof (induction ms cfg rule: apply_run.induct)
  case (2 i m ms cfg)
  then show ?case by (cases "apply_msg i m cfg") simp_all
qed simp

text \<open>The contract of \<open>applyCh\<close>: no two commands for one index, no gap in what a server applies.\<close>

definition entry_applied :: "(nat \<times> 'c ApplyMsg) list \<Rightarrow> nat \<Rightarrow> int \<Rightarrow> 'c \<Rightarrow> bool" where
  "entry_applied ms i idx c \<longleftrightarrow> (\<exists>m. (i, m) \<in> set ms \<and> CommandValid m \<and> CommandIndex m = idx \<and> Command m = c)"

definition next_ok :: "(nat \<times> 'c ApplyMsg) list \<Rightarrow> nat \<Rightarrow> 'c ApplyMsg \<Rightarrow> bool" where
  "next_ok ms i m \<longleftrightarrow> CommandValid m \<longrightarrow>
     (\<forall>j c. entry_applied ms j (CommandIndex m) c \<longrightarrow> c = Command m) \<and>
     (CommandIndex m > 1 \<longrightarrow> (\<exists>c. entry_applied ms i (CommandIndex m - 1) c))"

definition applies_ok :: "(nat \<times> 'c ApplyMsg) list \<Rightarrow> bool" where
  "applies_ok ms \<longleftrightarrow> (\<forall>k<length ms. next_ok (take k ms) (fst (ms ! k)) (snd (ms ! k)))"

lemma applies_ok_Nil [simp]: "applies_ok []"
  by (simp add: applies_ok_def)

lemma applies_ok_snoc: "applies_ok (ms @ [(i, m)]) \<longleftrightarrow> applies_ok ms \<and> next_ok ms i m"
  by (auto simp: applies_ok_def nth_append less_Suc_eq)

definition logs_match :: "(nat \<times> 'c ApplyMsg) list \<Rightarrow> ('r, 'c, 'o, 'v) config \<Rightarrow> bool" where
  "logs_match ms cfg \<longleftrightarrow> (\<forall>i<length (logs cfg). \<forall>idx c. (logs cfg ! i) idx = Some c \<longleftrightarrow> entry_applied ms i idx c)"

lemma logs_matchD: "logs_match ms cfg \<Longrightarrow> i < length (logs cfg) \<Longrightarrow> (logs cfg ! i) idx = Some c \<longleftrightarrow> entry_applied ms i idx c"
  by (simp add: logs_match_def)

lemma entry_applied_snoc:
  "entry_applied (ms @ [(i, m)]) j idx c \<longleftrightarrow>
     entry_applied ms j idx c \<or> (j = i \<and> CommandValid m \<and> CommandIndex m = idx \<and> Command m = c)"
  by (auto simp: entry_applied_def)

lemma applied_differs_iff:
  assumes "logs_match ms cfg" and "\<forall>p\<in>set ms. fst p < length (logs cfg)"
  shows "applied_differs m (logs cfg) \<longleftrightarrow> (\<exists>j c. entry_applied ms j (CommandIndex m) c \<and> c \<noteq> Command m)"
proof -
  have "applied_differs m (logs cfg) \<longleftrightarrow> (\<exists>j<length (logs cfg). \<exists>c. (logs cfg ! j) (CommandIndex m) = Some c \<and> c \<noteq> Command m)"
    by (auto simp: applied_differs_def list_ex_length split: option.splits)
  also have "\<dots> \<longleftrightarrow> (\<exists>j<length (logs cfg). \<exists>c. entry_applied ms j (CommandIndex m) c \<and> c \<noteq> Command m)"
    using logs_matchD [OF assms(1)] by blast
  also have "\<dots> \<longleftrightarrow> (\<exists>j c. entry_applied ms j (CommandIndex m) c \<and> c \<noteq> Command m)"
    using assms(2) by (force simp: entry_applied_def)
  finally show ?thesis .
qed

lemma apply_msg_step:
  assumes lm: "logs_match ms cfg" and bd: "\<forall>p\<in>set ms. fst p < length (logs cfg)" and i: "i < length (logs cfg)"
  shows "(\<exists>cfg'. apply_msg i m cfg = Inr cfg' \<and> logs_match (ms @ [(i, m)]) cfg' \<and> length (logs cfg') = length (logs cfg) \<and>
            applyErr cfg' = applyErr cfg) \<and> next_ok ms i m \<or>
         (\<exists>s. apply_msg i m cfg = Inl (Fatal s)) \<and> \<not> next_ok ms i m"
proof (cases "CommandValid m")
  case False
  then show ?thesis using lm by (auto simp: apply_msg_def next_ok_def logs_match_def entry_applied_snoc)
next
  case True
  let ?idx = "CommandIndex m"
  have ord: "(logs cfg ! i) (?idx - 1) \<noteq> None \<longleftrightarrow> (\<exists>c. entry_applied ms i (?idx - 1) c)"
    using logs_matchD [OF lm i] by auto
  note dif = applied_differs_iff [OF lm bd, of m]
  show ?thesis
  proof (cases "next_ok ms i m")
    case ok: True
    let ?cfg = "cfg\<lparr>logs := (logs cfg)[i := (logs cfg ! i)(?idx \<mapsto> Command m)], maxIndex := (if ?idx > maxIndex cfg then ?idx else maxIndex cfg)\<rparr>"
    have nd: "\<not> applied_differs m (logs cfg)" using ok True dif by (auto simp: next_ok_def)
    have run: "apply_msg i m cfg = Inr ?cfg" using ok True nd ord i by (simp add: apply_msg_def next_ok_def Let_def)
    have "(logs ?cfg ! j) idx = Some c \<longleftrightarrow> entry_applied (ms @ [(i, m)]) j idx c" if "j < length (logs cfg)" for j idx c
      using that True ok i logs_matchD [OF lm that, of idx c] unfolding entry_applied_snoc next_ok_def
      by (cases "j = i"; cases "idx = ?idx") auto
    then have "logs_match (ms @ [(i, m)]) ?cfg" by (simp add: logs_match_def)
    with run ok show ?thesis by simp
  next
    case no: False
    then have "applied_differs m (logs cfg) \<or> ?idx > 1 \<and> (logs cfg ! i) (?idx - 1) = None"
      using True dif ord by (auto simp: next_ok_def)
    with no True i show ?thesis by (auto simp: apply_msg_def Let_def)
  qed
qed

lemma apply_run_exact:
  assumes "\<forall>p\<in>set ms. fst p < length (logs cfg)" and "logs_match [] cfg"
  shows "(\<exists>cfg'. apply_run ms cfg = Inr cfg' \<and> logs_match ms cfg' \<and> length (logs cfg') = length (logs cfg) \<and> applyErr cfg' = applyErr cfg) \<and>
           applies_ok ms \<or>
         (\<exists>s. apply_run ms cfg = Inl (Fatal s)) \<and> \<not> applies_ok ms"
  using assms(1)
proof (induction ms rule: rev_induct)
  case Nil
  then show ?case using assms(2) by simp
next
  case (snoc p ms)
  obtain i m where p: "p = (i, m)" by (cases p)
  from snoc have IH: "(\<exists>cfg'. apply_run ms cfg = Inr cfg' \<and> logs_match ms cfg' \<and> length (logs cfg') = length (logs cfg) \<and> applyErr cfg' = applyErr cfg) \<and>
           applies_ok ms \<or> (\<exists>s. apply_run ms cfg = Inl (Fatal s)) \<and> \<not> applies_ok ms" by simp
  show ?case
  proof (cases "applies_ok ms")
    case False
    with IH show ?thesis by (auto simp: p apply_run_append applies_ok_snoc)
  next
    case True
    with IH obtain c1 where c1: "apply_run ms cfg = Inr c1" "logs_match ms c1" "length (logs c1) = length (logs cfg)" "applyErr c1 = applyErr cfg" by blast
    have run: "apply_run (ms @ [p]) cfg = apply_msg i m c1" using c1(1) by (simp add: apply_run_append p rbind_def split: sum.splits)
    have "i < length (logs c1)" "\<forall>p\<in>set ms. fst p < length (logs c1)" using snoc.prems c1(3) p by auto
    from apply_msg_step [OF c1(2) this(2,1), of m] show ?thesis using True c1 run by (simp add: applies_ok_snoc p)
  qed
qed

section \<open>Counting commits\<close>

lemma count_committed_agree:
  assumes "list_all (\<lambda>p. fst p = []) ps" and "\<forall>p\<in>set ps. \<forall>c. snd p idx = Some c \<longrightarrow> c = v" and "0 < cnt \<Longrightarrow> cmd = Some v"
  shows "count_committed idx cnt cmd ps =
    Inr (cnt + length (filter (\<lambda>p. snd p idx \<noteq> None) ps), if cnt = 0 \<and> (\<forall>p\<in>set ps. snd p idx = None) then cmd else Some v)"
  using assms
proof (induction idx cnt cmd ps rule: count_committed.induct)
  case (2 idx cnt cmd err log ps)
  show ?case
  proof (cases "log idx")
    case None
    with 2 show ?thesis by auto
  next
    case (Some c)
    with 2 have "c = v" by auto
    with Some 2 show ?thesis by auto
  qed
qed auto

lemma applies_ok_agree:
  assumes "applies_ok ms"
  shows "entry_applied ms i idx c \<Longrightarrow> entry_applied ms j idx c' \<Longrightarrow> c = c'"
  using assms
proof (induction ms arbitrary: i j rule: rev_induct)
  case Nil
  then show ?case by (simp add: entry_applied_def)
next
  case (snoc p ms)
  obtain k m where p: "p = (k, m)" by (cases p)
  with snoc show ?case by (auto simp: applies_ok_snoc entry_applied_snoc next_ok_def)
qed

lemma card_filter_zip:
  assumes "length es = length ls"
  shows "length (filter (\<lambda>p. P (snd p)) (zip es ls)) = card {i. i < length ls \<and> P (ls ! i)}"
proof -
  have "length (filter (\<lambda>p. P (snd p)) (zip es ls)) = card {i. i < length (zip es ls) \<and> P (snd (zip es ls ! i))}"
    by (rule length_filter_conv_card)
  also have "{i. i < length (zip es ls) \<and> P (snd (zip es ls ! i))} = {i. i < length ls \<and> P (ls ! i)}"
    using assms by auto
  finally show ?thesis .
qed

lemma nCommitted_agree:
  assumes lm: "logs_match ms cfg" and ok: "applies_ok ms" and err: "applyErr cfg = replicate (length (logs cfg)) []"
    and bd: "\<forall>p\<in>set ms. fst p < length (logs cfg)"
  shows "\<exists>cmd. nCommitted idx cfg = Inr (card {i. \<exists>c. entry_applied ms i idx c}, cmd) \<and>
    (\<forall>c. cmd = Some c \<longleftrightarrow> (\<exists>i. entry_applied ms i idx c))"
proof -
  let ?ps = "zip (applyErr cfg) (logs cfg)"
  have lt: "i < length (logs cfg)" if "entry_applied ms i idx c" for i c using that bd by (force simp: entry_applied_def)
  have mem: "(\<exists>p\<in>set ?ps. snd p idx = Some c) \<longleftrightarrow> (\<exists>i. entry_applied ms i idx c)" for c
  proof -
    have "(\<exists>p\<in>set ?ps. snd p idx = Some c) \<longleftrightarrow> (\<exists>i<length (logs cfg). (logs cfg ! i) idx = Some c)"
      using err by (auto simp: set_zip)
    then show ?thesis using logs_matchD [OF lm] lt by blast
  qed
  have len: "length (filter (\<lambda>p. snd p idx \<noteq> None) ?ps) = card {i. \<exists>c. entry_applied ms i idx c}"
  proof -
    have "length (filter (\<lambda>p. snd p idx \<noteq> None) ?ps) = card {i. i < length (logs cfg) \<and> (logs cfg ! i) idx \<noteq> None}"
      using card_filter_zip [of "applyErr cfg" "logs cfg" "\<lambda>l. l idx \<noteq> None"] err by simp
    also have "{i. i < length (logs cfg) \<and> (logs cfg ! i) idx \<noteq> None} = {i. \<exists>c. entry_applied ms i idx c}"
      using logs_matchD [OF lm] lt by auto
    finally show ?thesis .
  qed
  have er: "list_all (\<lambda>p. fst p = []) ?ps" using err by (auto simp: list_all_iff dest: set_zip_leftD)
  show ?thesis
  proof (cases "\<exists>i v. entry_applied ms i idx v")
    case True
    then obtain i v where v: "entry_applied ms i idx v" by blast
    have ag: "\<forall>p\<in>set ?ps. \<forall>c. snd p idx = Some c \<longrightarrow> c = v"
    proof (intro ballI allI impI)
      fix p c assume "p \<in> set ?ps" "snd p idx = Some c"
      then obtain j where "entry_applied ms j idx c" using mem [of c] by blast
      from applies_ok_agree [OF ok this v] show "c = v" .
    qed
    have "\<not> (\<forall>p\<in>set ?ps. snd p idx = None)" using mem [of v] v by auto
    then have "nCommitted idx cfg = Inr (card {i. \<exists>c. entry_applied ms i idx c}, Some v)"
      using count_committed_agree [OF er ag, of 0 None] len unfolding nCommitted_def by simp
    moreover have "Some v = Some c \<longleftrightarrow> (\<exists>i. entry_applied ms i idx c)" for c
    proof
      assume "\<exists>j. entry_applied ms j idx c"
      then obtain j where "entry_applied ms j idx c" by blast
      from applies_ok_agree [OF ok v this] show "Some v = Some c" by simp
    qed (use v in auto)
    ultimately show ?thesis by (intro exI conjI allI)
  next
    case False
    then have none: "\<forall>p\<in>set ?ps. snd p idx = None" using mem by (metis not_Some_eq)
    then have ag: "\<forall>p\<in>set ?ps. \<forall>c. snd p idx = Some c \<longrightarrow> c = undefined" by simp
    show ?thesis using count_committed_agree [OF er ag, of 0 None] len none False unfolding nCommitted_def by auto
  qed
qed

section \<open>Leaders and terms\<close>

definition claims :: "(nat \<Rightarrow> int \<times> bool) \<Rightarrow> ('r, 'c, 'o, 'v) config \<Rightarrow> nat \<Rightarrow> bool" where
  "claims gs cfg i \<longleftrightarrow> i < cn cfg \<and> connected cfg ! i \<and> snd (gs i)"

lemma leaders_of_map: "leaders_of gs cfg = map (\<lambda>i. (fst (gs i), i)) (filter (claims gs cfg) [0..<cn cfg])"
proof -
  have "List.map_filter (\<lambda>i. if connected cfg ! i \<and> snd (gs i) then Some (fst (gs i), i) else None) is =
      map (\<lambda>i. (fst (gs i), i)) (filter (\<lambda>i. connected cfg ! i \<and> snd (gs i)) is)" for "is"
    by (induction "is") (simp_all add: List.map_filter_simps)
  moreover have "filter (claims gs cfg) [0..<cn cfg] = filter (\<lambda>i. connected cfg ! i \<and> snd (gs i)) [0..<cn cfg]"
    by (rule filter_cong) (auto simp: claims_def)
  ultimately show ?thesis by (simp add: leaders_of_def)
qed

lemma length_filter_gt1: "distinct xs \<Longrightarrow> length (filter P xs) > 1 \<longleftrightarrow> (\<exists>x\<in>set xs. \<exists>y\<in>set xs. x \<noteq> y \<and> P x \<and> P y)"
proof -
  assume d: "distinct xs"
  have "length (filter P xs) = card (set (filter P xs))" using d by (metis distinct_card distinct_filter)
  also have "1 < \<dots> \<longleftrightarrow> (\<exists>x\<in>set (filter P xs). \<exists>y\<in>set (filter P xs). x \<noteq> y)"
    by (metis One_nat_def Suc_lessI card_0_eq card_1_singletonE card_gt_0_iff card_le_Suc0_iff_eq empty_iff finite_set less_Suc0 not_less singletonD)
  finally show ?thesis by auto
qed

lemma fold_max: "fold (\<lambda>t lt. if t > lt then t else lt) ts (a :: int) = Max (insert a (set ts))"
proof (induction ts arbitrary: a)
  case (Cons t ts)
  have "Max (insert a (set (t # ts))) = max a (Max (insert t (set ts)))" by (simp add: Max_insert)
  moreover have "Max (insert (if t > a then t else a) (set ts)) = max a (Max (insert t (set ts)))"
    by (cases "ts = []") (auto simp: Max_insert max_def)
  ultimately show ?case using Cons by simp
qed simp

text \<open>One iteration of \<open>checkOneLeader\<close>.\<close>

definition rival_leaders :: "(nat \<Rightarrow> int \<times> bool) \<Rightarrow> ('r, 'c, 'o, 'v) config \<Rightarrow> bool" where
  "rival_leaders gs cfg \<longleftrightarrow> (\<exists>i j. i \<noteq> j \<and> claims gs cfg i \<and> claims gs cfg j \<and> fst (gs i) = fst (gs j))"

lemma two_leaders_iff:
  "list_ex (\<lambda>t. length (filter (\<lambda>p. fst p = t) (leaders_of gs cfg)) > 1) (remdups (map fst (leaders_of gs cfg))) \<longleftrightarrow> rival_leaders gs cfg"
proof -
  let ?is = "filter (claims gs cfg) [0..<cn cfg]"
  have len: "length (filter (\<lambda>p. fst p = t) (leaders_of gs cfg)) = length (filter (\<lambda>i. fst (gs i) = t) ?is)" for t
    by (simp only: leaders_of_map filter_map length_map comp_def fst_conv)
  have gt: "1 < length (filter (\<lambda>i. fst (gs i) = t) ?is) \<longleftrightarrow> (\<exists>x. \<exists>y. x \<noteq> y \<and> claims gs cfg x \<and> claims gs cfg y \<and> fst (gs x) = t \<and> fst (gs y) = t)" for t
    by (subst length_filter_gt1) (auto simp: claims_def)
  have "set (remdups (map fst (leaders_of gs cfg))) = {fst (gs i) | i. claims gs cfg i}" by (auto simp: leaders_of_map claims_def image_iff)
  then have "list_ex (\<lambda>t. length (filter (\<lambda>p. fst p = t) (leaders_of gs cfg)) > 1) (remdups (map fst (leaders_of gs cfg))) \<longleftrightarrow>
      (\<exists>t\<in>{fst (gs i) | i. claims gs cfg i}. \<exists>x y. x \<noteq> y \<and> claims gs cfg x \<and> claims gs cfg y \<and> fst (gs x) = t \<and> fst (gs y) = t)"
    unfolding list_ex_iff len gt by (simp only:)
  also have "\<dots> \<longleftrightarrow> rival_leaders gs cfg"
  proof
    assume "rival_leaders gs cfg"
    then obtain i j where ij: "i \<noteq> j" "claims gs cfg i" "claims gs cfg j" "fst (gs i) = fst (gs j)" unfolding rival_leaders_def by blast
    show "\<exists>t\<in>{fst (gs i) | i. claims gs cfg i}. \<exists>x y. x \<noteq> y \<and> claims gs cfg x \<and> claims gs cfg y \<and> fst (gs x) = t \<and> fst (gs y) = t"
      by (rule bexI [of _ "fst (gs i)"]) (rule exI [of _ i], rule exI [of _ j], use ij in auto)
  next
    assume "\<exists>t\<in>{fst (gs i) | i. claims gs cfg i}. \<exists>x y. x \<noteq> y \<and> claims gs cfg x \<and> claims gs cfg y \<and> fst (gs x) = t \<and> fst (gs y) = t"
    then obtain x y where "x \<noteq> y" "claims gs cfg x" "claims gs cfg y" "fst (gs x) = fst (gs y)" by auto
    then show "rival_leaders gs cfg" unfolding rival_leaders_def by blast
  qed
  finally show ?thesis .
qed

lemma one_leader_iter_cases:
  assumes pos: "\<And>i. claims gs cfg i \<Longrightarrow> 0 \<le> fst (gs i)"
  shows "rival_leaders gs cfg \<and> one_leader_iter gs cfg = Inl (Fatal ''term has more than one leader'') \<or>
    (\<forall>i. \<not> claims gs cfg i) \<and> one_leader_iter gs cfg = Inr None \<or>
    \<not> rival_leaders gs cfg \<and> (\<exists>i. claims gs cfg i \<and> one_leader_iter gs cfg = Inr (Some i) \<and>
       (\<forall>j. claims gs cfg j \<and> j \<noteq> i \<longrightarrow> fst (gs j) < fst (gs i)))"
proof (cases "rival_leaders gs cfg")
  case True
  then show ?thesis unfolding one_leader_iter_def Let_def two_leaders_iff by simp
next
  case False
  let ?ls = "leaders_of gs cfg"
  let ?last = "fold (\<lambda>t lt. if t > lt then t else lt) (remdups (map fst ?ls)) (-1)"
  have mem: "set ?ls = {(fst (gs i), i) | i. claims gs cfg i}" by (auto simp: leaders_of_map claims_def)
  show ?thesis
  proof (cases "?ls = []")
    case True
    then have "\<forall>i. \<not> claims gs cfg i" using mem by auto
    then show ?thesis using True False unfolding one_leader_iter_def Let_def two_leaders_iff by simp
  next
    case ne: False
    have last: "?last = Max (insert (-1) (fst ` set ?ls))" by (simp add: fold_max)
    from ne obtain p where p: "p \<in> set ?ls" by (cases ?ls) auto
    have "?last \<in> insert (-1) (fst ` set ?ls)" unfolding last by (rule Max_in) simp_all
    moreover have "fst p \<le> ?last" unfolding last using p by (intro Max_ge) auto
    moreover have "0 \<le> fst p" using p mem pos by auto
    ultimately have "?last \<in> fst ` set ?ls" unfolding insert_iff by linarith
    then obtain q qs where q: "filter (\<lambda>p. fst p = ?last) ?ls = q # qs" by (cases "filter (\<lambda>p. fst p = ?last) ?ls") (auto simp: filter_empty_conv)
    have "q \<in> set (filter (\<lambda>p. fst p = ?last) ?ls)" unfolding q by simp
    then have "q \<in> set ?ls \<and> fst q = ?last" unfolding set_filter by simp
    then obtain i where i: "claims gs cfg i" "q = (fst (gs i), i)" "fst (gs i) = ?last" using mem by auto
    have "fst (gs j) < fst (gs i)" if c: "claims gs cfg j" "j \<noteq> i" for j
    proof -
      have "(fst (gs j), j) \<in> set ?ls" using mem c by blast
      then have "fst (gs j) \<in> fst ` set ?ls" by (rule image_eqI [rotated]) simp
      then have "fst (gs j) \<le> ?last" unfolding last by (intro Max_ge) simp_all
      moreover have "fst (gs j) \<noteq> fst (gs i)" using False i c unfolding rival_leaders_def by blast
      ultimately show ?thesis using i by simp
    qed
    moreover have "one_leader_iter gs cfg = Inr (Some i)"
      using ne q False i(2) unfolding one_leader_iter_def Let_def two_leaders_iff by simp
    ultimately show ?thesis using False i by blast
  qed
qed

lemma checkOneLeader_result:
  assumes pos: "\<And>k i. claims (obs k) cfg i \<Longrightarrow> 0 \<le> fst (obs k i)" and "checkOneLeader k obs cfg = Inr i"
  shows "\<exists>l\<le>k. claims (obs l) cfg i \<and> (\<forall>j. claims (obs l) cfg j \<and> j \<noteq> i \<longrightarrow> fst (obs l j) < fst (obs l i)) \<and>
    (\<forall>l'. l < l' \<and> l' \<le> k \<longrightarrow> (\<forall>j. \<not> claims (obs l') cfg j))"
  using assms(2)
proof (induction k)
  case (Suc k)
  note c = one_leader_iter_cases [of "obs (Suc k)" cfg, OF pos]
  show ?case
  proof (cases "\<forall>j. \<not> claims (obs (Suc k)) cfg j")
    case True
    with c Suc.prems have "checkOneLeader k obs cfg = Inr i" by (auto simp: rbind_eq_Inr)
    with Suc.IH True show ?thesis by (metis le_Suc_eq)
  next
    case False
    with c Suc.prems have "claims (obs (Suc k)) cfg i \<and> (\<forall>j. claims (obs (Suc k)) cfg j \<and> j \<noteq> i \<longrightarrow> fst (obs (Suc k) j) < fst (obs (Suc k) i))"
      by auto
    then show ?thesis by (intro exI [of _ "Suc k"]) auto
  qed
qed simp

lemma checkOneLeader_rival:
  "rival_leaders (obs (Suc k)) cfg \<Longrightarrow> checkOneLeader (Suc k) obs cfg = Inl (Fatal ''term has more than one leader'')"
  unfolding checkOneLeader.simps one_leader_iter_def Let_def two_leaders_iff by simp

lemma checkOneLeader_none:
  "(\<And>l j. \<not> claims (obs l) cfg j) \<Longrightarrow> checkOneLeader k obs cfg = Inl (Fatal ''expected one leader, got none'')"
proof (induction k)
  case (Suc k)
  then have "one_leader_iter (obs (Suc k)) cfg = Inr None" using one_leader_iter_cases [of "obs (Suc k)" cfg] by (auto simp: rival_leaders_def)
  with Suc show ?case by simp
qed simp

lemma terms_loop_ok:
  assumes "0 \<le> t" and "\<forall>p\<in>set ps. fst p \<longrightarrow> snd p = t"
  shows "terms_loop t ps = Inr t"
  using assms by (induction t ps rule: terms_loop.induct) auto

lemma terms_loop_start:
  assumes "\<forall>p\<in>set ps. 0 \<le> snd p" and "\<forall>p\<in>set ps. fst p \<longrightarrow> snd p = t"
  shows "terms_loop (-1) ps = Inr (if \<exists>p\<in>set ps. fst p then t else -1)"
  using assms
proof (induction ps)
  case (Cons p ps)
  then show ?case using terms_loop_ok [of t ps] by (cases p) (auto split: if_splits)
qed simp

lemma terms_loop_Inr:
  assumes "terms_loop t ps = Inr r" and "\<forall>p\<in>set ps. 0 \<le> snd p"
  shows "(0 \<le> t \<longrightarrow> r = t) \<and> (\<forall>p\<in>set ps. fst p \<longrightarrow> snd p = r)"
  using assms by (induction t ps rule: terms_loop.induct) (auto split: if_splits)

lemma terms_loop_exact:
  assumes "\<forall>p\<in>set ps. 0 \<le> snd p"
  shows "terms_loop (-1) ps = Inr t \<longleftrightarrow> (if \<exists>p\<in>set ps. fst p then (\<forall>p\<in>set ps. fst p \<longrightarrow> snd p = t) else t = -1)"
proof
  assume r: "terms_loop (-1) ps = Inr t"
  from terms_loop_Inr [OF r assms] terms_loop_start [OF assms, of t] r
  show "if \<exists>p\<in>set ps. fst p then (\<forall>p\<in>set ps. fst p \<longrightarrow> snd p = t) else t = -1" by auto
next
  assume "if \<exists>p\<in>set ps. fst p then (\<forall>p\<in>set ps. fst p \<longrightarrow> snd p = t) else t = -1"
  then show "terms_loop (-1) ps = Inr t" using terms_loop_start [OF assms, of t] by (auto split: if_splits)
qed

end
