(* ===== verification/HarnessProps.thy ===== *)
theory HarnessProps
  imports RpcTrace RaftWiring RaftChecks
begin

text \<open>
  The properties of the simulated network (\<^verbatim>\<open>labrpc/labrpc.go\<close>), of the persister and of the Raft test
  harness (\<^verbatim>\<open>raft/config.go\<close>), each with a concrete instance.
\<close>

section \<open>A small network\<close>

text \<open>Values are lists of bytes, encoded as themselves; one server with an \<open>Append\<close> handler.\<close>

definition demo_codec :: "bytes codec" where
  "demo_codec = \<lparr>c_encode = (\<lambda>v. v), c_decode = (\<lambda>b. (b, True))\<rparr>"

definition demo_service :: "(bytes, bytes) Service" where
  "demo_service = MakeService ''KV'' [] [\<lparr>md_name = ''Append'', md_PkgPath = [], md_NumIn = 3, md_In2_is_ptr = True, md_NumOut = 0,
     md_func = (\<lambda>s a. (s @ a, s))\<rparr>]"

definition demo_world :: "bool \<Rightarrow> (string, nat, bytes, bytes) world" where
  "demo_world up = \<lparr>w_net = Enable ''c'' up (AddServer 0 0 (Connect ''c'' 0 (MakeNetwork\<lparr>ends := [''c'' \<mapsto> ()]\<rparr>))),
     w_store = [AddService demo_service MakeServer], w_reqs = [], w_listening = True\<rparr>"

definition demo_req :: "string reqMsg" where
  "demo_req = call_request demo_codec ''c'' ''KV.Append'' [7]"

definition demo_rpc_events :: "(string, nat) rpc_event list" where
  "demo_rpc_events = call_events demo_req 0 0 0 0"

lemmas demo_net_defs = demo_codec_def demo_service_def demo_world_def demo_req_def demo_rpc_events_def call_events_def call_request_def
  MakeService_def is_handler_def MakeNetwork_def Enable_def AddServer_def Connect_def AddService_def MakeServer_def

section \<open>The network\<close>

text \<open>
  C16. A request is executed at most once, whatever the network does: dropped requests and replies,
  reordering, deleted servers, changes of the connections.  A caller that gets a positive reply knows
  that its handler ran exactly once.
\<close>

theorem rpc_at_most_once:
  assumes "rpc_run K evs w = Some (Inr w')" and "w_reqs w = []" and "q \<in> set (w_reqs w')"
  shows "q_execs q \<le> 1 \<and> (\<forall>rep. q_status q = Done rep \<and> rep_ok rep \<longrightarrow> q_execs q = 1)"
proof -
  have "world_inv w'" using rpc_run_inv [OF assms(1)] assms(2) by (simp add: world_inv_def)
  then have "req_inv q" using assms(3) by (simp add: world_inv_def)
  then show ?thesis by (auto simp: req_inv_def attempts_def executed_once_def split: req_status.splits)
qed

lemma demo_run_done: "\<exists>w'. rpc_run demo_codec demo_rpc_events (demo_world True) = Some (Inr w') \<and>
    w_reqs w' = [\<lparr>q_req = demo_req, q_status = Done \<lparr>rep_ok = True, rep_bytes = []\<rparr>, q_spawned = None, q_ech = None, q_execs = 1\<rparr>]"
  by (simp add: demo_net_defs rpc_step_def accept_req_def add_bytes_def proc_begin_def readEndnameInfo_def Let_def
      proc_finish_def isServerDead_def server_dispatch_def service_dispatch_def LastIndex_dot_def)

theorem rpc_at_most_once_witness:
  "\<exists>w' q. rpc_run demo_codec demo_rpc_events (demo_world True) = Some (Inr w') \<and> q \<in> set (w_reqs w') \<and>
     q_status q = Done \<lparr>rep_ok = True, rep_bytes = []\<rparr> \<and> q_execs q = 1"
proof -
  obtain w' where w': "rpc_run demo_codec demo_rpc_events (demo_world True) = Some (Inr w')"
    "w_reqs w' = [\<lparr>q_req = demo_req, q_status = Done \<lparr>rep_ok = True, rep_bytes = []\<rparr>, q_spawned = None, q_ech = None, q_execs = 1\<rparr>]"
    using demo_run_done by blast
  have "w_reqs (demo_world True) = []" by (simp add: demo_world_def)
  note r = rpc_at_most_once [OF w'(1) this, of "hd (w_reqs w')"]
  show ?thesis using w' r by (intro exI [of _ w'] exI [of _ "hd (w_reqs w')"]) simp
qed

text \<open>
  C17. If the end-point of a request is disabled, not connected, or its server does not run when the
  network starts to process the request, then the request is lost: no handler ever runs for it, and
  whatever happens later the caller can only see a failure.
\<close>

theorem rpc_unreachable_lost:
  assumes "rpc_run K evs w0 = Some (Inr w)" and "w_reqs w0 = []" and "rpc_step K (Begin i roll) w = Some (Inr w1)"
    and "\<not> reachable_end (endname (q_req (w_reqs w ! i))) (w_net w)" and "rpc_run K evs' w1 = Some (Inr w')"
  shows "q_execs (w_reqs w' ! i) = 0 \<and> (\<forall>rep. q_status (w_reqs w' ! i) = Done rep \<longrightarrow> \<not> rep_ok rep)"
proof -
  have "world_inv w" using rpc_run_inv [OF assms(1)] assms(2) by (simp add: world_inv_def)
  from unreachable_lost [OF this assms(3,4)] have "i < length (w_reqs w1)" "lost (w_reqs w1 ! i)" by simp_all
  from lost_run [OF assms(5) this] show ?thesis by (auto simp: lost_def no_reply_def)
qed

lemma demo_run_lost:
  "\<exists>w w1 w'. rpc_run demo_codec [Submit demo_req] (demo_world False) = Some (Inr w) \<and>
     rpc_step demo_codec (Begin 0 0) w = Some (Inr w1) \<and> \<not> reachable_end (endname (q_req (w_reqs w ! 0))) (w_net w) \<and>
     rpc_run demo_codec [Admin (OpEnable ''c'' True), Timer 0] w1 = Some (Inr w') \<and> q_status (w_reqs w' ! 0) = Done no_reply"
  by (simp add: demo_net_defs rpc_step_def accept_req_def add_bytes_def proc_begin_def readEndnameInfo_def Let_def
      proc_timer_def reachable_end_def no_reply_def)

theorem rpc_unreachable_lost_witness:
  "\<exists>w1 w'. rpc_run demo_codec [Submit demo_req, Begin 0 0] (demo_world False) = Some (Inr w1) \<and>
     rpc_run demo_codec [Admin (OpEnable ''c'' True), Timer 0] w1 = Some (Inr w') \<and> q_execs (w_reqs w' ! 0) = 0 \<and>
     q_status (w_reqs w' ! 0) = Done no_reply"
proof -
  obtain w w1 w' where w: "rpc_run demo_codec [Submit demo_req] (demo_world False) = Some (Inr w)"
    "rpc_step demo_codec (Begin 0 0) w = Some (Inr w1)" "\<not> reachable_end (endname (q_req (w_reqs w ! 0))) (w_net w)"
    "rpc_run demo_codec [Admin (OpEnable ''c'' True), Timer 0] w1 = Some (Inr w')" "q_status (w_reqs w' ! 0) = Done no_reply"
    using demo_run_lost by blast
  have e: "w_reqs (demo_world False) = []" by (simp add: demo_world_def)
  have "rpc_run demo_codec [Submit demo_req, Begin 0 0] (demo_world False) = Some (Inr w1)"
    using w(1,2) by (auto split: option.splits sum.splits)
  with w rpc_unreachable_lost [OF w(1) e w(2,3,4)] show ?thesis by (intro exI [of _ w1] exI [of _ w']) simp
qed

text \<open>
  C18. Over a reliable network, with nothing else interfering, a call to a method of a registered
  service runs that method once on the argument that was passed, and returns what it returned; the
  codec only has to decode what it encoded.
\<close>

theorem rpc_reliable_call:
  assumes "\<And>v. c_decode K (c_encode K v) = (v, True)"
    and "reliable (w_net w)" and "\<not> longReordering (w_net w)" and "w_listening w" and "enabled (w_net w) en"
    and "connections (w_net w) en = Some sn" and "servers (w_net w) sn = Some srv"
    and "srv < length (w_store w)" and "services (w_store w ! srv) sname = Some svc" and "sv_methods svc meth = Some f"
    and "f (sv_rcvr svc) args = (o', reply)" and "CHR ''.'' \<notin> set meth"
  shows "\<exists>w' rep. rpc_run K (call_events (call_request K en (sname @ CHR ''.'' # meth) args) (length (w_reqs w)) roll roll' reorder) w = Some (Inr w') \<and>
     q_status (w_reqs w' ! length (w_reqs w)) = Done rep \<and> call_return K rep = Inr (True, Some reply) \<and>
     services (w_store w' ! srv) sname = Some (svc\<lparr>sv_rcvr := o'\<rparr>) \<and> sv_count (w_store w' ! srv) = sv_count (w_store w ! srv) + 1 \<and>
     GetTotalCount (w_net w') = sint (net_count (w_net w) + 1)"
  by (rule reliable_call [OF assms])

theorem rpc_reliable_call_witness:
  "\<exists>w' rep. rpc_run demo_codec demo_rpc_events (demo_world True) = Some (Inr w') \<and> q_status (w_reqs w' ! 0) = Done rep \<and>
     call_return demo_codec rep = Inr (True, Some []) \<and> services (w_store w' ! 0) ''KV'' = Some (demo_service\<lparr>sv_rcvr := [7]\<rparr>)"
proof -
  have "\<exists>w' rep. rpc_run demo_codec (call_events (call_request demo_codec ''c'' (''KV'' @ CHR ''.'' # ''Append'') [7]) (length (w_reqs (demo_world True))) 0 0 0)
       (demo_world True) = Some (Inr w') \<and>
     q_status (w_reqs w' ! length (w_reqs (demo_world True))) = Done rep \<and> call_return demo_codec rep = Inr (True, Some []) \<and>
     services (w_store w' ! 0) ''KV'' = Some (demo_service\<lparr>sv_rcvr := [7]\<rparr>) \<and> sv_count (w_store w' ! 0) = sv_count (w_store (demo_world True) ! 0) + 1 \<and>
     GetTotalCount (w_net w') = sint (net_count (w_net (demo_world True)) + 1)"
    by (rule rpc_reliable_call [where f = "\<lambda>s a. (s @ a, s)" and sn = 0]) (simp_all add: demo_net_defs)
  then show ?thesis by (auto simp: demo_rpc_events_def demo_req_def demo_world_def)
qed

text \<open>
  C19. Where a positive reply comes from.  If, whatever else happened, a request ends with a positive reply or has one waiting to be
  delivered late, then the run has these three events in this order: the network began the request, at a moment when its end-point was
  enabled and connected to a running server; the handler ran on that very server, and the reply is what it returned; and
  the network looked again, at a moment when the end-point was enabled and that very server was still registered under its name.
  So no caller gets the reply of a server that was deleted or replaced before the network passed the reply on.
\<close>

theorem rpc_reply_server_alive:
  assumes "rpc_run K evs w0 = Some (Inr w)" and "w_reqs w0 = []" and "i < length (w_reqs w)" and "q_req (w_reqs w ! i) = req"
    and "q_status (w_reqs w ! i) = Done reply \<and> rep_ok reply \<or> q_status (w_reqs w ! i) = Delayed reply"
  shows "\<exists>es1 roll es2 es3 roll' reorder es4 w1 w2 w3 sn srv rs'.
    evs = es1 @ Begin i roll # es2 @ Handle i # es3 @ FinishReq i roll' reorder # es4 \<and>
    rpc_run K es1 w0 = Some (Inr w1) \<and> enabled (w_net w1) (endname req) \<and>
      connections (w_net w1) (endname req) = Some sn \<and> servers (w_net w1) sn = Some srv \<and>
    rpc_run K (es1 @ Begin i roll # es2) w0 = Some (Inr w2) \<and> srv < length (w_store w2) \<and>
      server_dispatch K req (w_store w2 ! srv) = Inr (rs', reply) \<and>
    rpc_run K (es1 @ Begin i roll # es2 @ Handle i # es3) w0 = Some (Inr w3) \<and> enabled (w_net w3) (endname req) \<and>
      servers (w_net w3) sn = Some srv"
proof -
  have "req_trace K w0 evs i (w_reqs w ! i)" using rpc_run_trace [OF assms(2,1)] assms(3) by (simp add: run_trace_def)
  then have "answered_at K w0 evs i req reply" using assms(4,5) by (auto simp: req_trace_def)
  then show ?thesis
  proof (rule answered_atE, goal_cases)
    case (1 es1 roll es2 es3 roll' reorder es4 w1 w2 w3 sn srv rs')
    then show ?case
      by (intro exI [of _ es1] exI [of _ roll] exI [of _ es2] exI [of _ es3] exI [of _ roll'] exI [of _ reorder] exI [of _ es4]
          exI [of _ w1] exI [of _ w2] exI [of _ w3] exI [of _ sn] exI [of _ srv] exI [of _ rs'] conjI)
  qed
qed

theorem rpc_reply_server_alive_witness:
  "\<exists>w3 es3 es4 sn srv. rpc_run demo_codec es3 (demo_world True) = Some (Inr w3) \<and> demo_rpc_events = es3 @ FinishReq 0 0 0 # es4 \<and>
     enabled (w_net w3) ''c'' \<and> servers (w_net w3) sn = Some srv \<and> Handle 0 \<in> set es3"
proof -
  obtain w' where w': "rpc_run demo_codec demo_rpc_events (demo_world True) = Some (Inr w')"
    "w_reqs w' = [\<lparr>q_req = demo_req, q_status = Done \<lparr>rep_ok = True, rep_bytes = []\<rparr>, q_spawned = None, q_ech = None, q_execs = 1\<rparr>]"
    using demo_run_done by blast
  have e: "w_reqs (demo_world True) = []" by (simp add: demo_world_def)
  obtain es1 roll es2 es3 roll' reorder es4 w3 sn srv where r: "demo_rpc_events = es1 @ Begin 0 roll # es2 @ Handle 0 # es3 @ FinishReq 0 roll' reorder # es4"
    "rpc_run demo_codec (es1 @ Begin 0 roll # es2 @ Handle 0 # es3) (demo_world True) = Some (Inr w3)"
    "enabled (w_net w3) (endname demo_req)" "servers (w_net w3) sn = Some srv"
    using rpc_reply_server_alive [OF w'(1) e, of 0 demo_req "\<lparr>rep_ok = True, rep_bytes = []\<rparr>"] w'(2) by auto
  have "FinishReq 0 roll' reorder \<in> set demo_rpc_events" unfolding r(1) by simp
  then have "roll' = 0" "reorder = 0" by (simp_all add: demo_rpc_events_def call_events_def)
  with r show ?thesis
    by (intro exI [of _ w3] exI [of _ "es1 @ Begin 0 roll # es2 @ Handle 0 # es3"] exI [of _ es4] exI [of _ sn] exI [of _ srv])
      (simp add: demo_req_def call_request_def)
qed

text \<open>
  C20. The counters: the servers together have counted exactly the handler executions, and the
  network's counter is the number of requests it accepted, as long as the 32-bit counter does not
  wrap around.
\<close>

theorem rpc_counters:
  assumes "rpc_run K evs w = Some (Inr w')" and "w_reqs w = []" and "net_count (w_net w) = 0" and "length (w_reqs w') < 2 ^ 31"
  shows "GetTotalCount (w_net w') = int (length (w_reqs w')) \<and>
    sum_list (map server_GetCount (w_store w')) = sum_list (map server_GetCount (w_store w)) + (\<Sum>q\<leftarrow>w_reqs w'. int (q_execs q))"
proof -
  have "exec_balance w' = exec_balance w" "count_balance w' = count_balance w" using rpc_run_balance [OF assms(1)] by simp_all
  then have "net_count (w_net w') = of_nat (length (w_reqs w'))"
    and "sum_list (map sv_count (w_store w')) = sum_list (map sv_count (w_store w)) + (\<Sum>q\<leftarrow>w_reqs w'. int (q_execs q))"
    using assms(2,3) by (simp_all add: count_balance_def exec_balance_def)
  then show ?thesis using sint_of_nat_small [OF assms(4)] by (simp add: GetTotalCount_def server_GetCount_def [abs_def])
qed

theorem rpc_counters_witness:
  "\<exists>w'. rpc_run demo_codec demo_rpc_events (demo_world True) = Some (Inr w') \<and> GetTotalCount (w_net w') = 1 \<and>
     sum_list (map server_GetCount (w_store w')) = 1"
proof -
  obtain w' where w': "rpc_run demo_codec demo_rpc_events (demo_world True) = Some (Inr w')"
    "w_reqs w' = [\<lparr>q_req = demo_req, q_status = Done \<lparr>rep_ok = True, rep_bytes = []\<rparr>, q_spawned = None, q_ech = None, q_execs = 1\<rparr>]"
    using demo_run_done by blast
  have "w_reqs (demo_world True) = []" "net_count (w_net (demo_world True)) = 0" "length (w_reqs w') < 2 ^ 31"
    using w'(2) by (simp_all add: demo_net_defs)
  from rpc_counters [OF w'(1) this] w' show ?thesis
    by (intro exI [of _ w']) (simp add: demo_world_def AddService_def MakeServer_def server_GetCount_def)
qed


section \<open>The harness: connectivity\<close>

definition demo_names :: "nat \<Rightarrow> string list" where
  "demo_names i = (if i = 0 then [''a'', ''b''] else [''c'', ''d''])"

text \<open>A restart of server 0 with a new instance, and a partition.\<close>

definition demo_restart :: "(nat, bytes, bytes) harness_op list" where
  "demo_restart = [HStart [''e'', ''f''] 5 demo_service 0, HConnect 0, HDisconnect 1]"

definition demo_make :: "(nat, nat, bytes, bytes) config res" where
  "demo_make = make_config demo_names (\<lambda>i. i) (\<lambda>_. demo_service) 2 False"

lemma demo_make_ok: "case demo_make of Inl _ \<Rightarrow> False | Inr cfg \<Rightarrow> harness_ok demo_restart cfg"
  by code_simp

text \<open>
  C21. Whatever the tests do (start, restart, crash, connect and disconnect servers in any order), the
  harness does not panic, and a request can reach a server over an end-point exactly if the end-point
  belongs to the current instance of a connected server and leads to a connected server that runs.
\<close>

theorem harness_connectivity:
  assumes "names_ok n names" and "make_config names rf svc n unrel = Inr cfg" and "harness_ok ops cfg"
  shows "\<exists>cfg'. harness_run ops cfg = Inr cfg' \<and> cn cfg' = n \<and>
    (\<forall>e. reachable_end e (cnet cfg') \<longleftrightarrow>
      (\<exists>i<n. \<exists>j<n. connected cfg' ! i \<and> connected cfg' ! j \<and> servers (cnet cfg') j \<noteq> None \<and>
         (\<exists>row. endnames cfg' ! i = Some row \<and> length row = n \<and> e = row ! j)))"
proof -
  note mk = make_config_facts [OF assms(1,2)]
  from harness_run_inv [OF mk(1) assms(3)] mk(2) obtain cfg' where c: "harness_run ops cfg = Inr cfg'" "conn_inv cfg'" "cn cfg' = n" by auto
  have row: "\<exists>row. endnames cfg' ! i = Some row \<and> length row = n" if "i < n" "connected cfg' ! i" for i
    using c(2,3) that by (auto simp: conn_inv_def cfg_shape_def)
  have "reachable_end e (cnet cfg') \<longleftrightarrow> (\<exists>i<n. \<exists>j<n. connected cfg' ! i \<and> connected cfg' ! j \<and> servers (cnet cfg') j \<noteq> None \<and>
         (\<exists>row. endnames cfg' ! i = Some row \<and> length row = n \<and> e = row ! j))" for e
    unfolding conn_inv_reachable [OF c(2)] name_of_def c(3) using row by (metis option.sel)
  with c show ?thesis by blast
qed

lemma demo_names_ok: "names_ok 2 demo_names"
  by (simp add: names_ok_def used_names_def demo_names_def upt_rec)

lemma demo_make_Inr:
  obtains cfg :: "(nat, nat, bytes, bytes) config" where "make_config demo_names (\<lambda>i. i) (\<lambda>_. demo_service) 2 False = Inr cfg" and "harness_ok demo_restart cfg"
  using demo_make_ok by (auto simp: demo_make_def split: sum.splits)

theorem harness_connectivity_witness:
  "\<exists>cfg cfg'. make_config demo_names (\<lambda>i. i) (\<lambda>_. demo_service) 2 False = Inr (cfg :: (nat, nat, bytes, bytes) config) \<and>
     harness_run demo_restart cfg = Inr cfg' \<and> cn cfg' = 2 \<and>
     (reachable_end ''b'' (cnet cfg') \<longleftrightarrow>
      (\<exists>i<2. \<exists>j<2. connected cfg' ! i \<and> connected cfg' ! j \<and> servers (cnet cfg') j \<noteq> None \<and>
         (\<exists>row. endnames cfg' ! i = Some row \<and> length row = 2 \<and> ''b'' = row ! j)))"
proof -
  obtain cfg :: "(nat, nat, bytes, bytes) config" where c: "make_config demo_names (\<lambda>i. i) (\<lambda>_. demo_service) 2 False = Inr cfg"
    "harness_ok demo_restart cfg" by (rule demo_make_Inr)
  from harness_connectivity [OF demo_names_ok c] c(1) show ?thesis by blast
qed

text \<open>
  C22. An instance that was replaced cannot send: once an end-point is no longer one of the current
  instances' (its server was restarted), no later sequence of operations makes it reach any server.
\<close>

theorem harness_stale_instance:
  assumes "names_ok n names" and "make_config names rf svc n unrel = Inr cfg" and "harness_ok (ops @ ops') cfg"
    and "harness_run ops cfg = Inr cfg1" and "stale_end cfg1 e"
  shows "\<exists>cfg'. harness_run (ops @ ops') cfg = Inr cfg' \<and> \<not> reachable_end e (cnet cfg')"
proof -
  note mk = make_config_facts [OF assms(1,2)]
  have ok: "harness_ok ops cfg" "harness_ok ops' cfg1" using assms(3,4) by (auto simp: harness_ok_append)
  from harness_run_inv [OF mk(1) ok(1)] assms(4) have "conn_inv cfg1" by auto
  from harness_run_inv [OF this ok(2)] assms(5) obtain cfg' where c: "harness_run ops' cfg1 = Inr cfg'" "conn_inv cfg'" "stale_end cfg' e" by auto
  have "harness_run (ops @ ops') cfg = Inr cfg'" using assms(4) c(1) by (simp add: harness_run_append)
  with stale_end_unreachable [OF c(2,3)] show ?thesis by blast
qed

lemma demo_stale: "case demo_make of Inl _ \<Rightarrow> False | Inr cfg \<Rightarrow>
    (case harness_run (take 1 demo_restart) cfg of Inl _ \<Rightarrow> False
     | Inr cfg1 \<Rightarrow> ends (cnet cfg1) ''b'' = Some () \<and> endnames cfg1 = [Some [''e'', ''f''], Some [''c'', ''d'']] \<and> cn cfg1 = 2)"
  by code_simp

theorem harness_stale_instance_witness:
  "\<exists>cfg cfg'. make_config demo_names (\<lambda>i. i) (\<lambda>_. demo_service) 2 False = Inr (cfg :: (nat, nat, bytes, bytes) config) \<and>
     harness_run demo_restart cfg = Inr cfg' \<and> \<not> reachable_end ''b'' (cnet cfg')"
proof -
  obtain cfg :: "(nat, nat, bytes, bytes) config" where c: "make_config demo_names (\<lambda>i. i) (\<lambda>_. demo_service) 2 False = Inr cfg"
    "harness_ok demo_restart cfg" by (rule demo_make_Inr)
  from demo_stale c(1) obtain cfg1 where c1: "harness_run (take 1 demo_restart) cfg = Inr cfg1" "ends (cnet cfg1) ''b'' = Some ()"
    "endnames cfg1 = [Some [''e'', ''f''], Some [''c'', ''d'']]" "cn cfg1 = 2"
    by (auto simp: demo_make_def split: sum.splits)
  have "stale_end cfg1 ''b''" using c1 by (auto simp: stale_end_def current_end_def name_of_def less_2_cases_iff nth_Cons')
  moreover have "harness_ok (take 1 demo_restart @ drop 1 demo_restart) cfg" using c(2) by simp
  ultimately show ?thesis using harness_stale_instance [OF demo_names_ok c(1) _ c1(1), of "drop 1 demo_restart" "''b''"] c(1) by auto
qed

text \<open>
  C23. A (re)started server gets a persister of its own that holds the Raft state last saved through
  the pointer the harness kept and an empty snapshot (\<open>crash1\<close> drops the snapshot); everything an old instance saves
  afterwards through the pointers it holds leaves the new persister, and hence the new instance, untouched.
\<close>

theorem start1_persister:
  assumes "conn_inv cfg" and "i < cn cfg" and "fresh_names cfg names"
  shows "\<exists>cfg' a. start1 names rf svc i cfg = Inr cfg' \<and> saved cfg' ! i = Some a \<and> length (pheap cfg) \<le> a \<and> a < length (pheap cfg') \<and>
    ReadRaftState (pheap cfg' ! a) = (case saved cfg ! i of None \<Rightarrow> [] | Some b \<Rightarrow> ReadRaftState (pheap cfg ! b)) \<and>
    SnapshotSize (pheap cfg' ! a) = 0 \<and>
    (\<forall>b f. b < length (pheap cfg) \<longrightarrow> psave b f (pheap cfg') ! a = pheap cfg' ! a)"
proof -
  from start1_result [OF assms, of rf svc] obtain cfg' a where r: "start1 names rf svc i cfg = Inr cfg'" "saved cfg' = (saved cfg)[i := Some a]"
    "length (pheap cfg) \<le> a" "Suc a = length (pheap cfg')" "pheap cfg' ! a = kept_persister i cfg" by blast
  have "i < length (saved cfg)" using conn_inv_stores [OF assms(1)] assms(2) by (simp add: stores_ok_def)
  moreover have "\<forall>b f. b < length (pheap cfg) \<longrightarrow> psave b f (pheap cfg') ! a = pheap cfg' ! a" using r(3) by (auto intro: psave_other)
  ultimately show ?thesis using r
    by (intro exI [of _ cfg'] exI [of _ a]) (auto simp: kept_persister_def persister_defs split: option.splits)
qed

theorem start1_persister_witness:
  "\<exists>cfg' a. start1 [''x''] (0 :: nat) demo_service 0 (zero_config 1 :: (nat, nat, bytes, bytes) config) = Inr cfg' \<and> saved cfg' ! 0 = Some a \<and>
     ReadRaftState (pheap cfg' ! a) = []"
  using start1_persister [OF zero_config_inv, of 0 1 "[''x'']" "0 :: nat" demo_service]
  by (auto simp: fresh_names_def zero_config_def MakeNetwork_def)

section \<open>The harness: checks\<close>

definition cmd_msg :: "int \<Rightarrow> nat \<Rightarrow> nat ApplyMsg" where
  "cmd_msg idx c = \<lparr>CommandValid = True, Command = c, CommandIndex = idx\<rparr>"

text \<open>
  C24. The readers of the apply channels stop the test exactly if the servers do not apply one
  sequence of commands: some index has two different commands, or a server applies an index after the
  first without having applied the one before.  Otherwise \<open>nCommitted\<close> returns how many servers have
  applied the index, and the command they agree on.
\<close>

theorem apply_check_exact:
  assumes "names_ok n names" and "make_config names rf svc n unrel = Inr cfg" and "list_all (\<lambda>p. fst p < n) ms"
  shows "(applies_ok ms \<longleftrightarrow> (\<exists>cfg'. apply_run ms cfg = Inr cfg')) \<and> (\<not> applies_ok ms \<longleftrightarrow> (\<exists>s. apply_run ms cfg = Inl (Fatal s))) \<and>
    (\<forall>cfg' idx. apply_run ms cfg = Inr cfg' \<longrightarrow>
       (\<exists>cmd. nCommitted idx cfg' = Inr (card {i. \<exists>c. entry_applied ms i idx c}, cmd) \<and>
          (\<forall>c. cmd = Some c \<longleftrightarrow> (\<exists>i. entry_applied ms i idx c))))"
proof -
  note mk = make_config_facts [OF assms(1,2)]
  have bd: "\<forall>p\<in>set ms. fst p < length (logs cfg)" using assms(3) mk(3) by (simp add: list_all_iff)
  have lm: "logs_match [] cfg" using mk(3) by (simp add: logs_match_def entry_applied_def)
  note ex = apply_run_exact [OF bd lm]
  have "\<exists>cmd. nCommitted idx cfg' = Inr (card {i. \<exists>c. entry_applied ms i idx c}, cmd) \<and> (\<forall>c. cmd = Some c \<longleftrightarrow> (\<exists>i. entry_applied ms i idx c))"
    if run: "apply_run ms cfg = Inr cfg'" for cfg' idx
  proof -
    from ex run have r: "logs_match ms cfg'" "applies_ok ms" "length (logs cfg') = length (logs cfg)" "applyErr cfg' = applyErr cfg" by auto
    have "applyErr cfg' = replicate (length (logs cfg')) []" using r mk(3,4) by simp
    then show ?thesis using nCommitted_agree [OF r(1,2)] bd r(3) by simp
  qed
  with ex show ?thesis by auto
qed

theorem apply_check_exact_witness:
  "\<exists>cfg s. make_config demo_names (\<lambda>i. i) (\<lambda>_. demo_service) 2 False = Inr (cfg :: (nat, nat, bytes, bytes) config) \<and>
     apply_run [(0, cmd_msg 1 5), (1, cmd_msg 1 6)] cfg = Inl (Fatal s) \<and> \<not> applies_ok [(0, cmd_msg 1 5), (1 :: nat, cmd_msg 1 6)]"
proof -
  obtain cfg :: "(nat, nat, bytes, bytes) config" where c: "make_config demo_names (\<lambda>i. i) (\<lambda>_. demo_service) 2 False = Inr cfg"
    "harness_ok demo_restart cfg" by (rule demo_make_Inr)
  have "\<not> next_ok [(0, cmd_msg 1 5)] (1 :: nat) (cmd_msg 1 6)" by (auto simp: next_ok_def entry_applied_def cmd_msg_def)
  then have "\<not> applies_ok [(0, cmd_msg 1 5), (1 :: nat, cmd_msg 1 6)]"
    using applies_ok_snoc [of "[(0, cmd_msg 1 5)]" 1 "cmd_msg 1 6"] by simp
  with apply_check_exact [OF demo_names_ok c(1), of "[(0, cmd_msg 1 5), (1, cmd_msg 1 6)]"] c(1) show ?thesis by auto
qed

text \<open>
  C25. \<open>checkOneLeader\<close> returns a connected server that claims to be the leader, of a later term than
  every other connected claimant at that moment; it keeps trying only while no connected server claims
  leadership, and it stops the test when it sees two connected leaders of one term.
\<close>

theorem checkOneLeader_exact:
  assumes "\<And>k i. 0 \<le> fst (obs k i)"
  shows "(\<forall>i. checkOneLeader 10 obs cfg = Inr i \<longrightarrow>
      (\<exists>l\<le>10. claims (obs l) cfg i \<and> (\<forall>j. claims (obs l) cfg j \<and> j \<noteq> i \<longrightarrow> fst (obs l j) < fst (obs l i)) \<and>
         (\<forall>l'. l < l' \<and> l' \<le> 10 \<longrightarrow> (\<forall>j. \<not> claims (obs l') cfg j)))) \<and>
    (rival_leaders (obs 10) cfg \<longrightarrow> checkOneLeader 10 obs cfg = Inl (Fatal ''term has more than one leader'')) \<and>
    ((\<forall>l j. \<not> claims (obs l) cfg j) \<longrightarrow> checkOneLeader 10 obs cfg = Inl (Fatal ''expected one leader, got none''))"
proof (intro conjI allI impI)
  fix i assume "checkOneLeader 10 obs cfg = Inr i"
  then show "\<exists>l\<le>10. claims (obs l) cfg i \<and> (\<forall>j. claims (obs l) cfg j \<and> j \<noteq> i \<longrightarrow> fst (obs l j) < fst (obs l i)) \<and>
         (\<forall>l'. l < l' \<and> l' \<le> 10 \<longrightarrow> (\<forall>j. \<not> claims (obs l') cfg j))"
    by (rule checkOneLeader_result [rotated]) (rule assms)
next
  have ten: "10 = Suc 9" by simp
  assume "rival_leaders (obs 10) cfg"
  then show "checkOneLeader 10 obs cfg = Inl (Fatal ''term has more than one leader'')"
    unfolding ten by (rule checkOneLeader_rival)
next
  assume "\<forall>l j. \<not> claims (obs l) cfg j"
  then show "checkOneLeader 10 obs cfg = Inl (Fatal ''expected one leader, got none'')"
    by (intro checkOneLeader_none) blast
qed

theorem checkOneLeader_exact_witness:
  "checkOneLeader 10 (\<lambda>_ i. (1, True)) ((zero_config 2 :: (nat, nat, bytes, bytes) config)\<lparr>connected := [True, True]\<rparr>) =
     Inl (Fatal ''term has more than one leader'')"
proof -
  let ?cfg = "(zero_config 2 :: (nat, nat, bytes, bytes) config)\<lparr>connected := [True, True]\<rparr>"
  have "claims (\<lambda>_. (1, True)) ?cfg 0" "claims (\<lambda>_. (1, True)) ?cfg 1" by (simp_all add: claims_def zero_config_def)
  then have "rival_leaders (\<lambda>_. (1, True)) ?cfg" unfolding rival_leaders_def by (intro exI [of _ 0] exI [of _ 1]) simp
  then show ?thesis using checkOneLeader_exact [of "\<lambda>_ i. (1, True)" ?cfg] by simp
qed

text \<open>
  \<open>checkTerms\<close> returns -1 if no server is connected and otherwise the one term all connected
  servers report; it stops the test exactly if two of them report different terms.
\<close>

theorem checkTerms_exact:
  assumes "\<And>i. 0 \<le> fst (gs i)"
  shows "checkTerms gs cfg = Inr t \<longleftrightarrow>
    (if \<exists>i<cn cfg. connected cfg ! i then (\<forall>i<cn cfg. connected cfg ! i \<longrightarrow> fst (gs i) = t) else t = -1)"
proof -
  let ?ps = "map (\<lambda>i. (connected cfg ! i, fst (gs i))) [0..<cn cfg]"
  have pos: "\<forall>p\<in>set ?ps. 0 \<le> snd p" using assms by auto
  have ex: "(\<exists>p\<in>set ?ps. fst p) \<longleftrightarrow> (\<exists>i<cn cfg. connected cfg ! i)" by auto
  have all: "(\<forall>p\<in>set ?ps. fst p \<longrightarrow> snd p = t) \<longleftrightarrow> (\<forall>i<cn cfg. connected cfg ! i \<longrightarrow> fst (gs i) = t)" by auto
  have "terms_loop (-1) ?ps = Inr t \<longleftrightarrow> (if \<exists>p\<in>set ?ps. fst p then (\<forall>p\<in>set ?ps. fst p \<longrightarrow> snd p = t) else t = -1)"
    by (rule terms_loop_exact [OF pos])
  then show ?thesis unfolding checkTerms_def ex all .
qed

theorem checkTerms_exact_witness:
  "checkTerms (\<lambda>i. (int i, False)) ((zero_config 2 :: (nat, nat, bytes, bytes) config)\<lparr>connected := [False, True]\<rparr>) = Inr 1"
  using checkTerms_exact [of "\<lambda>i. (int i, False)" "(zero_config 2 :: (nat, nat, bytes, bytes) config)\<lparr>connected := [False, True]\<rparr>" 1]
  by (auto simp: zero_config_def less_2_cases_iff)

end
