(* ===== verification/Agreement.thy ===== *)
theory Agreement
  imports RaftChecks
begin

text \<open>
  What the Raft tests conclude from \<open>one\<close> and \<open>wait\<close> of \<^verbatim>\<open>raft/config.go\<close> (modelled in RaftConfig): that a command was agreed
  on, by how many servers and at which index.
\<close>

section \<open>Counting without assumptions\<close>

lemma count_committed_sound:
  assumes "count_committed idx cnt cmd ps = Inr (nd, cmd')"
  shows "nd = cnt + length (filter (\<lambda>p. snd p idx \<noteq> None) ps) \<and> (\<forall>p\<in>set ps. fst p = [] \<and> snd p idx \<in> {None, cmd'}) \<and> (0 < cnt \<longrightarrow> cmd' = cmd)"
  using assms
proof (induction idx cnt cmd ps rule: count_committed.induct)
  case (2 idx cnt cmd err log ps)
  then show ?case by (auto split: if_splits option.splits)
qed simp

definition holders :: "('r, 'c, 'o, 'v) config \<Rightarrow> int \<Rightarrow> nat set" where
  "holders cfg idx = {i. i < length (logs cfg) \<and> (logs cfg ! i) idx \<noteq> None}"

lemma nCommitted_sound:
  assumes "nCommitted idx cfg = Inr (nd, cmd)" and len: "length (applyErr cfg) = length (logs cfg)"
  shows "nd = card (holders cfg idx) \<and> (\<forall>i\<in>holders cfg idx. (logs cfg ! i) idx = cmd)"
proof -
  let ?ps = "zip (applyErr cfg) (logs cfg)"
  note s = count_committed_sound [OF assms(1) [unfolded nCommitted_def]]
  have "(logs cfg ! i) idx = cmd" if "i \<in> holders cfg idx" for i
  proof -
    have "i < length ?ps" "?ps ! i = (applyErr cfg ! i, logs cfg ! i)" using that len by (simp_all add: holders_def)
    then have "(applyErr cfg ! i, logs cfg ! i) \<in> set ?ps" by (metis nth_mem)
    then show ?thesis using s that by (force simp: holders_def)
  qed
  then show ?thesis using s card_filter_zip [OF len, of "\<lambda>l. l idx \<noteq> None"] by (simp add: holders_def)
qed

lemma count_committed_none:
  "count_committed idx 0 None ps = Inr (0, cmd) \<Longrightarrow> cmd = None"
proof (induction ps)
  case (Cons p ps)
  then show ?case using count_committed_sound [of idx "Suc 0"] by (cases p) (auto split: if_splits option.splits dest!: count_committed_sound)
qed simp

lemma nCommitted_none: "nCommitted idx cfg = Inr (0, cmd) \<Longrightarrow> cmd = None"
  unfolding nCommitted_def by (rule count_committed_none)

section \<open>Choosing a leader\<close>

definition starter :: "(nat \<Rightarrow> int \<times> bool) \<Rightarrow> ('r, 'c, 'o, 'v) config \<Rightarrow> nat \<Rightarrow> bool" where
  "starter st cfg s \<longleftrightarrow> s < cn cfg \<and> connected cfg ! s \<and> rafts cfg ! s \<noteq> None \<and> snd (st s)"

text \<open>\<open>one_pick\<close> asks the servers after \<open>starts\<close> in a circle.\<close>

lemma one_pick_result:
  assumes "one_pick k starts st cfg = (index, s)" and "0 < cn cfg"
  shows "starter st cfg s \<and> index = fst (st s) \<or> index = -1 \<and> (\<forall>j. 1 \<le> j \<and> j \<le> k \<longrightarrow> \<not> starter st cfg ((starts + j) mod cn cfg))"
  using assms
proof (induction k starts st cfg rule: one_pick.induct)
  case (2 k starts st cfg)
  let ?s = "(starts + 1) mod cn cfg"
  show ?case
  proof (cases "starter st cfg ?s")
    case True
    then have "one_pick (Suc k) starts st cfg = (fst (st ?s), ?s)" by (simp add: starter_def Let_def)
    then have "index = fst (st ?s)" "s = ?s" using 2(2) by (metis prod.inject)+
    then show ?thesis using True by simp
  next
    case False
    then have no: "\<not> (connected cfg ! ?s \<and> rafts cfg ! ?s \<noteq> None \<and> snd (st ?s))" using 2(3) by (simp add: starter_def)
    then have go: "one_pick k ?s st cfg = (index, s)" using 2(2) by (auto simp: Let_def split: if_splits)
    have "\<not> starter st cfg ((starts + j) mod cn cfg)"
      if later: "\<forall>j. 1 \<le> j \<and> j \<le> k \<longrightarrow> \<not> starter st cfg ((?s + j) mod cn cfg)" and j: "1 \<le> j" "j \<le> Suc k" for j
    proof (cases "j = 1")
      case True
      then show ?thesis using False by simp
    next
      case False
      then obtain i where "j = 1 + i" "1 \<le> i" "i \<le> k" using j by (cases j) auto
      moreover have "(?s + i) mod cn cfg = (starts + (1 + i)) mod cn cfg" unfolding mod_add_left_eq by (simp add: add.assoc)
      ultimately show ?thesis using later by metis
    qed
    then show ?thesis using 2(1) [OF refl no go 2(3)] by blast
  qed
qed simp

lemma circle_reaches:
  assumes "s < n"
  shows "\<exists>j. 1 \<le> j \<and> j \<le> n \<and> (starts + j) mod n = (s :: nat)"
proof -
  let ?r = "starts mod n"
  have r: "?r < n" using assms by simp
  show ?thesis
  proof (cases "?r < s")
    case True
    have "(starts + (s - ?r)) mod n = (?r + (s - ?r)) mod n" by (simp add: mod_add_left_eq)
    also have "\<dots> = s" using True assms by simp
    finally show ?thesis using True assms by (intro exI [of _ "s - ?r"] conjI) linarith+
  next
    case False
    have "(starts + (n + s - ?r)) mod n = (?r + (n + s - ?r)) mod n" by (simp add: mod_add_left_eq)
    also have "?r + (n + s - ?r) = s + n" using r by simp
    also have "(s + n) mod n = s" using assms by simp
    finally show ?thesis using False r by (intro exI [of _ "n + s - ?r"] conjI) linarith+
  qed
qed

lemma one_pick_all:
  assumes "one_pick (cn cfg) starts st cfg = (index, s)" and "starter st cfg s'"
  shows "starter st cfg s \<and> index = fst (st s)"
proof -
  have "s' < cn cfg" using assms(2) by (simp add: starter_def)
  then obtain j where "1 \<le> j" "j \<le> cn cfg" "(starts + j) mod cn cfg = s'" using circle_reaches by blast
  then show ?thesis using one_pick_result [OF assms(1)] assms(2) \<open>s' < cn cfg\<close> by auto
qed

section \<open>Waiting for agreement\<close>

definition agreed :: "'c \<Rightarrow> nat \<Rightarrow> int \<Rightarrow> ('r, 'c, 'o, 'v) config \<Rightarrow> bool" where
  "agreed cmd n index cfg \<longleftrightarrow> (\<exists>nd. nCommitted index cfg = Inr (nd, Some cmd) \<and> 0 < nd \<and> n \<le> nd)"

lemma one_wait_sound: "one_wait cmd n index obs = Inr True \<Longrightarrow> \<exists>c\<in>set obs. agreed cmd n index c"
  by (induction cmd n index obs rule: one_wait.induct) (auto simp: agreed_def rbind_eq_Inr split: if_splits)

lemma one_wait_total:
  assumes "\<forall>c\<in>set obs. \<exists>r. nCommitted index c = Inr r"
  shows "one_wait cmd n index obs = Inr (\<exists>c\<in>set obs. agreed cmd n index c)"
  using assms
proof (induction obs)
  case (Cons c obs)
  then obtain nd v where r: "nCommitted index c = Inr (nd, v)" by auto
  then have "agreed cmd n index c \<longleftrightarrow> nd > 0 \<and> nd \<ge> n \<and> v = Some cmd" by (auto simp: agreed_def)
  with Cons r show ?case by auto
qed simp

text \<open>
  \<open>wait\<close> counts down its iterations: \<open>wait_gives_up\<close> says that in some iteration a server is in a later term than the one
  the test started in, and that up to then there were too few servers with the entry and no server in a later term.
\<close>

definition moved_on :: "int \<Rightarrow> (nat \<Rightarrow> int list) \<Rightarrow> nat \<Rightarrow> bool" where
  "moved_on t0 trms j \<longleftrightarrow> -1 < t0 \<and> (\<exists>t\<in>set (trms j). t0 < t)"

definition wait_gives_up :: "int \<Rightarrow> nat \<Rightarrow> int \<Rightarrow> (nat \<Rightarrow> ('r, 'c, 'o, 'v) config) \<Rightarrow> (nat \<Rightarrow> int list) \<Rightarrow> nat \<Rightarrow> bool" where
  "wait_gives_up index n t0 obs trms k \<longleftrightarrow>
     (\<exists>j. 0 < j \<and> j \<le> k \<and> moved_on t0 trms j \<and> (\<forall>i. j \<le> i \<and> i \<le> k \<longrightarrow> card (holders (obs i) index) < n) \<and>
        (\<forall>i. j < i \<and> i \<le> k \<longrightarrow> \<not> moved_on t0 trms i))"

lemma wait_gives_up_Suc:
  "wait_gives_up index n t0 obs trms (Suc k) \<longleftrightarrow>
     card (holders (obs (Suc k)) index) < n \<and> (moved_on t0 trms (Suc k) \<or> wait_gives_up index n t0 obs trms k)"
proof
  assume "wait_gives_up index n t0 obs trms (Suc k)"
  then obtain j where j: "0 < j" "j \<le> Suc k" "moved_on t0 trms j" "\<forall>i. j \<le> i \<and> i \<le> Suc k \<longrightarrow> card (holders (obs i) index) < n"
    "\<forall>i. j < i \<and> i \<le> Suc k \<longrightarrow> \<not> moved_on t0 trms i" unfolding wait_gives_up_def by blast
  then show "card (holders (obs (Suc k)) index) < n \<and> (moved_on t0 trms (Suc k) \<or> wait_gives_up index n t0 obs trms k)"
    unfolding wait_gives_up_def by (cases "j = Suc k") auto
next
  assume r: "card (holders (obs (Suc k)) index) < n \<and> (moved_on t0 trms (Suc k) \<or> wait_gives_up index n t0 obs trms k)"
  show "wait_gives_up index n t0 obs trms (Suc k)"
  proof (cases "moved_on t0 trms (Suc k)")
    case True
    with r show ?thesis unfolding wait_gives_up_def by (intro exI [of _ "Suc k"]) (auto simp: le_Suc_eq)
  next
    case False
    with r obtain j where "0 < j" "j \<le> k" "moved_on t0 trms j" "\<forall>i. j \<le> i \<and> i \<le> k \<longrightarrow> card (holders (obs i) index) < n"
      "\<forall>i. j < i \<and> i \<le> k \<longrightarrow> \<not> moved_on t0 trms i" unfolding wait_gives_up_def by blast
    with r False show ?thesis unfolding wait_gives_up_def by (intro exI [of _ j]) (auto simp: le_Suc_eq)
  qed
qed

lemma wait_loop_exact:
  assumes "\<And>j. length (applyErr (obs j)) = length (logs (obs j)) \<and> (\<exists>r. nCommitted index (obs j) = Inr r)"
  shows "wait_loop index n t0 obs trms k = Inr (\<not> wait_gives_up index n t0 obs trms k)"
proof (induction k)
  case 0
  then show ?case by (simp add: wait_gives_up_def)
next
  case (Suc k)
  obtain nd v where r: "nCommitted index (obs (Suc k)) = Inr (nd, v)" using assms [of "Suc k"] by auto
  then have "nd = card (holders (obs (Suc k)) index)" using nCommitted_sound [OF r] assms [of "Suc k"] by simp
  with Suc r show ?case by (auto simp: wait_gives_up_Suc moved_on_def list_ex_iff)
qed

text \<open>
  C11. \<open>wait\<close>, on every path: it gives up with -1 exactly if a server is seen in a term later than the one the test started in while
  fewer than \<open>n\<close> servers have had the entry; otherwise it returns the command that all servers with the entry have, if at least
  \<open>n\<close> of them have it in the end, and stops the test if they are fewer.  It always returns, and what it
  returns depends on nothing else, as long as no two servers hold different commands at the index.
\<close>

theorem wait_exact:
  assumes "\<And>j. length (applyErr (obs j)) = length (logs (obs j)) \<and> (\<exists>r. nCommitted index (obs j) = Inr r)"
    and "length (applyErr final) = length (logs final) \<and> (\<exists>r. nCommitted index final = Inr r)"
  shows "(wait index n t0 obs trms final = Inr None \<longleftrightarrow> wait_gives_up index n t0 obs trms 30) \<and>
    (\<forall>cmd. wait index n t0 obs trms final = Inr (Some cmd) \<longleftrightarrow>
       \<not> wait_gives_up index n t0 obs trms 30 \<and> n \<le> card (holders final index) \<and>
       (if holders final index = {} then cmd = None else \<forall>i\<in>holders final index. (logs final ! i) index = cmd)) \<and>
    (wait index n t0 obs trms final = Inl (Fatal ''only some decided'') \<longleftrightarrow>
       \<not> wait_gives_up index n t0 obs trms 30 \<and> card (holders final index) < n)"
proof -
  obtain nd v where r: "nCommitted index final = Inr (nd, v)" using assms(2) by auto
  have nd: "nd = card (holders final index)" and v: "\<forall>i\<in>holders final index. (logs final ! i) index = v"
    using nCommitted_sound [OF r] assms(2) by simp_all
  have none: "v = None" if "holders final index = {}" using nCommitted_none [of index final v] r nd that by simp
  have "wait index n t0 obs trms final = (if wait_gives_up index n t0 obs trms 30 then Inr None
      else if nd < n then Inl (Fatal ''only some decided'') else Inr (Some v))"
    by (simp add: wait_def wait_loop_exact [OF assms(1)] r)
  then show ?thesis using nd v none by (auto split: if_splits)
qed

section \<open>A complete agreement\<close>

lemma one_sound:
  assumes "one cmd n retry starts rounds = Inr index"
  shows "\<exists>st cfg obs c s. (st, cfg, obs) \<in> set rounds \<and> c \<in> set obs \<and> starter st cfg s \<and> fst (st s) = index \<and> agreed cmd n index c"
  using assms
proof (induction rounds arbitrary: starts)
  case (Cons round rounds)
  obtain st cfg obs where rd: "round = (st, cfg, obs)" by (cases round)
  obtain i s where p: "one_pick (cn cfg) starts st cfg = (i, s)" by force
  show ?case
  proof (cases "i \<noteq> -1 \<and> one_wait cmd n i obs = Inr True")
    case True
    then have "0 < cn cfg" using p by (cases "cn cfg") auto
    with True have "starter st cfg s" "fst (st s) = i" using one_pick_result [OF p] by auto
    moreover have "index = i" using Cons.prems True p by (simp add: rd)
    ultimately show ?thesis using one_wait_sound [of cmd n i obs] True rd by (metis list.set_intros(1))
  next
    case False
    then have "one cmd n retry s rounds = Inr index" using Cons.prems p by (auto simp: rd rbind_eq_Inr split: if_splits)
    from Cons.IH [OF this] show ?thesis by (simp only: list.set insert_iff) blast
  qed
qed simp

lemma one_complete:
  assumes "\<forall>(st, cfg, obs)\<in>set rounds. \<forall>c\<in>set obs. \<forall>idx. \<exists>r. nCommitted idx c = Inr r"
    and "(st, cfg, obs) \<in> set rounds" and "starter st cfg s0"
    and "\<forall>s. starter st cfg s \<longrightarrow> fst (st s) \<noteq> -1 \<and> (\<exists>c\<in>set obs. agreed cmd n (fst (st s)) c)"
  shows "\<exists>index. one cmd n True starts rounds = Inr index"
  using assms(1,2)
proof (induction rounds arbitrary: starts)
  case (Cons round rounds)
  obtain st1 cfg1 obs1 where rd: "round = (st1, cfg1, obs1)" by (cases round)
  obtain i s where p: "one_pick (cn cfg1) starts st1 cfg1 = (i, s)" by force
  have w: "one_wait cmd n i obs1 = Inr (\<exists>c\<in>set obs1. agreed cmd n i c)"
    by (rule one_wait_total) (use Cons.prems(1) rd in auto)
  show ?case
  proof (cases "i \<noteq> -1 \<and> (\<exists>c\<in>set obs1. agreed cmd n i c)")
    case True
    then show ?thesis using w p by (simp add: rd)
  next
    case False
    have "(st, cfg, obs) \<noteq> round"
    proof
      assume "(st, cfg, obs) = round"
      then have e: "st1 = st" "cfg1 = cfg" "obs1 = obs" using rd by simp_all
      from one_pick_all [OF p [unfolded e] assms(3)] have "starter st cfg s" "i = fst (st s)" by auto
      with assms(4) False e show False by auto
    qed
    then have "\<exists>index. one cmd n True s rounds = Inr index" using Cons by auto
    then show ?thesis using False w p by (auto simp: rd)
  qed
qed simp

text \<open>
  C32. If \<open>one\<close> returns an index, a connected server that claims to be the leader gave it for the command, and at a moment while
  the test waited at least the expected number of servers (and at least one) had the command there and no server another one.
  With retries, and if the servers' logs never conflict, \<open>one\<close> does return as soon as in one round every connected server that claims
  to be the leader gives an index at which that agreement is seen.
\<close>

theorem one_agreement:
  assumes "\<forall>(st, cfg, obs)\<in>set rounds. \<forall>c\<in>set obs. length (applyErr c) = length (logs c)"
  shows "(\<forall>index. one cmd n retry starts rounds = Inr index \<longrightarrow>
       (\<exists>st cfg obs c s. (st, cfg, obs) \<in> set rounds \<and> c \<in> set obs \<and> starter st cfg s \<and> fst (st s) = index \<and>
          holders c index \<noteq> {} \<and> n \<le> card (holders c index) \<and> (\<forall>i\<in>holders c index. (logs c ! i) index = Some cmd))) \<and>
    ((\<forall>(st, cfg, obs)\<in>set rounds. \<forall>c\<in>set obs. \<forall>idx. \<exists>r. nCommitted idx c = Inr r) \<and>
       (\<exists>(st, cfg, obs)\<in>set rounds. (\<exists>s. starter st cfg s) \<and>
          (\<forall>s. starter st cfg s \<longrightarrow> fst (st s) \<noteq> -1 \<and> (\<exists>c\<in>set obs. agreed cmd n (fst (st s)) c))) \<longrightarrow>
       (\<exists>index. one cmd n True starts rounds = Inr index))"
proof (intro conjI allI impI)
  fix index assume "one cmd n retry starts rounds = Inr index"
  from one_sound [OF this] obtain st cfg obs c s where r: "(st, cfg, obs) \<in> set rounds" "c \<in> set obs" "starter st cfg s" "fst (st s) = index"
    and a: "agreed cmd n index c" by blast
  have "length (applyErr c) = length (logs c)" using assms r(1,2) by auto
  moreover obtain nd where "nCommitted index c = Inr (nd, Some cmd)" "0 < nd" "n \<le> nd" using a by (auto simp: agreed_def)
  ultimately have "n \<le> card (holders c index)" "0 < card (holders c index)" "\<forall>i\<in>holders c index. (logs c ! i) index = Some cmd"
    using nCommitted_sound [of index c nd "Some cmd"] by simp_all
  then show "\<exists>st cfg obs c s. (st, cfg, obs) \<in> set rounds \<and> c \<in> set obs \<and> starter st cfg s \<and> fst (st s) = index \<and>
      holders c index \<noteq> {} \<and> n \<le> card (holders c index) \<and> (\<forall>i\<in>holders c index. (logs c ! i) index = Some cmd)"
    using r by (intro exI [of _ st] exI [of _ cfg] exI [of _ obs] exI [of _ c] exI [of _ s]) auto
next
  assume "(\<forall>(st, cfg, obs)\<in>set rounds. \<forall>c\<in>set obs. \<forall>idx. \<exists>r. nCommitted idx c = Inr r) \<and>
    (\<exists>(st, cfg, obs)\<in>set rounds. (\<exists>s. starter st cfg s) \<and>
       (\<forall>s. starter st cfg s \<longrightarrow> fst (st s) \<noteq> -1 \<and> (\<exists>c\<in>set obs. agreed cmd n (fst (st s)) c)))"
  then obtain st cfg obs s where ok: "\<forall>(st, cfg, obs)\<in>set rounds. \<forall>c\<in>set obs. \<forall>idx. \<exists>r. nCommitted idx c = Inr r"
    "(st, cfg, obs) \<in> set rounds" "starter st cfg s"
    "\<forall>s. starter st cfg s \<longrightarrow> fst (st s) \<noteq> -1 \<and> (\<exists>c\<in>set obs. agreed cmd n (fst (st s)) c)" by auto
  show "\<exists>index. one cmd n True starts rounds = Inr index" by (rule one_complete [OF ok])
qed

text \<open>Two servers, of which the second claims to be the leader; both have the command 7 at index 1.\<close>

definition agree_config :: "(nat, nat, bytes, bytes) config" where
  "agree_config = (zero_config 2)\<lparr>connected := [True, True], rafts := [Some 0, Some 1], logs := [[1 \<mapsto> 7], [1 \<mapsto> 7]]\<rparr>"

theorem one_agreement_witness:
  "one 7 2 True 0 [(\<lambda>s. (1, s = 1), agree_config, [agree_config])] = Inr 1 \<and> 2 \<le> card (holders agree_config 1)"
proof -
  have sim: "one 7 2 True 0 [(\<lambda>s. (1, s = 1), agree_config, [agree_config])] = Inr 1"
    by (simp add: agree_config_def zero_config_def numeral_2_eq_2 nCommitted_def)
  have "\<forall>(st, cfg, obs)\<in>set [(\<lambda>s. (1 :: int, s = (1 :: nat)), agree_config, [agree_config])]. \<forall>c\<in>set obs. length (applyErr c) = length (logs c)"
    by (simp add: agree_config_def zero_config_def)
  from one_agreement [OF this, THEN conjunct1, rule_format, OF sim] have "2 \<le> card (holders agree_config 1)" by auto
  with sim show ?thesis by simp
qed

text \<open>A third server is in term 5 and the entry is at two servers only: a test that started in term 4 and waits for three gives up.\<close>

theorem wait_exact_witness:
  "wait 1 3 4 (\<lambda>_. agree_config) (\<lambda>k. if k = 29 then [4, 5] else [4]) agree_config = Inr None \<and>
   wait 1 2 4 (\<lambda>_. agree_config) (\<lambda>_. [5]) agree_config = Inr (Some (Some 7))"
proof -
  have ok: "length (applyErr agree_config) = length (logs agree_config) \<and> (\<exists>r. nCommitted 1 agree_config = Inr r)"
    by (simp add: agree_config_def zero_config_def numeral_2_eq_2 nCommitted_def)
  have h: "holders agree_config 1 = {0, 1}" by (auto simp: holders_def agree_config_def zero_config_def less_2_cases_iff nth_Cons' split: if_splits)
  have "wait_gives_up 1 3 4 (\<lambda>_. agree_config) (\<lambda>k. if k = 29 then [4, 5] else [4]) 30"
    unfolding wait_gives_up_def by (intro exI [of _ 29]) (auto simp: h moved_on_def)
  moreover have "\<not> wait_gives_up 1 2 4 (\<lambda>_. agree_config) (\<lambda>_. [5]) 30" by (auto simp: wait_gives_up_def h)
  moreover have "\<forall>i\<in>{0, 1}. (logs agree_config ! i) 1 = Some 7" by (simp add: agree_config_def)
  ultimately show ?thesis
    using wait_exact [OF ok ok, THEN conjunct1, of 3 4] wait_exact [OF ok ok, THEN conjunct2, THEN conjunct1, rule_format, of 2 4 "\<lambda>_. [5]" "Some 7"] h by simp
qed

end
