(* ===== verification/KvConfig.thy ===== *)
theory KvConfig
  imports RaftWiring
begin

text \<open>
  The test harness of the key-value service, \<^verbatim>\<open>kvraft/config.go\<close> (\<^verbatim>\<open>shardmaster/config.go\<close> has the same code for
  its servers): servers and clerks on the simulated network, partitions, shutdown and restart.

  A key-value server is opaque (\<open>'s\<close>); \<open>svcs\<close> are the two services made from it.  Clerks are numbered, and
  \<open>clerks\<close> maps them to the names of their end-points.  Server numbers are natural numbers.
\<close>

section \<open>State\<close>

record ('s, 'o, 'v) kv_config =
  k_net :: "(string, nat) Network"
  k_n :: nat
  kvservers :: "'s option list"
  k_saved :: "nat option list"
  k_endnames :: "string list option list"
  clerks :: "nat \<Rightarrow> string list option"
  nextClientId :: int
  maxraftstate :: int
  k_pheap :: "Persister list"
  k_sheap :: "('o, 'v) Server list"
  k_killed :: "'s list"
  k_rpcs0 :: int
  k_ops :: "32 word"

definition k_endname :: "('s, 'o, 'v) kv_config \<Rightarrow> nat \<Rightarrow> nat \<Rightarrow> string res" where
  "k_endname cfg i j =
     rbind (slice_get (k_endnames cfg) (int i)) (\<lambda>row.
     case row of None \<Rightarrow> Inl IndexOutOfRange | Some names \<Rightarrow> slice_get names (int j))"

definition k_enable :: "string \<Rightarrow> bool \<Rightarrow> ('s, 'o, 'v) kv_config \<Rightarrow> ('s, 'o, 'v) kv_config" where
  "k_enable en b cfg = cfg\<lparr>k_net := Enable en b (k_net cfg)\<rparr>"

text \<open>\<open>random_handles\<close>: \<open>rs\<close> are the numbers \<open>rand.Intn(i + 1)\<close> returns.\<close>

fun shuffle :: "nat \<Rightarrow> nat list \<Rightarrow> 'a list \<Rightarrow> 'a list" where
  "shuffle i [] sa = sa"
| "shuffle i (j # rs) sa = shuffle (i + 1) rs (sa[i := sa ! j, j := sa ! i])"

definition random_handles :: "nat list \<Rightarrow> 'a list \<Rightarrow> 'a list" where
  "random_handles rs kvh = shuffle 0 (take (length kvh) rs) kvh"

section \<open>Sizes\<close>

fun max_size :: "(Persister \<Rightarrow> nat) \<Rightarrow> nat \<Rightarrow> nat option list \<Rightarrow> ('s, 'o, 'v) kv_config \<Rightarrow> nat res" where
  "max_size sz acc [] cfg = Inr acc"
| "max_size sz acc (None # ps) cfg = Inl NilDeref"
| "max_size sz acc (Some a # ps) cfg =
     rbind (slice_get (k_pheap cfg) (int a)) (\<lambda>p. max_size sz (if sz p > acc then sz p else acc) ps cfg)"

definition LogSize :: "('s, 'o, 'v) kv_config \<Rightarrow> nat res" where
  "LogSize cfg = max_size RaftStateSize 0 (take (k_n cfg) (k_saved cfg)) cfg"

definition k_SnapshotSize :: "('s, 'o, 'v) kv_config \<Rightarrow> nat res" where
  "k_SnapshotSize cfg = max_size SnapshotSize 0 (take (k_n cfg) (k_saved cfg)) cfg"

section \<open>Connections\<close>

fun k_connect_out :: "nat \<Rightarrow> nat list \<Rightarrow> ('s, 'o, 'v) kv_config \<Rightarrow> ('s, 'o, 'v) kv_config res" where
  "k_connect_out i [] cfg = Inr cfg"
| "k_connect_out i (t # ts) cfg = rbind (k_endname cfg i t) (\<lambda>en. k_connect_out i ts (k_enable en True cfg))"

fun k_connect_in :: "nat \<Rightarrow> nat list \<Rightarrow> ('s, 'o, 'v) kv_config \<Rightarrow> ('s, 'o, 'v) kv_config res" where
  "k_connect_in i [] cfg = Inr cfg"
| "k_connect_in i (t # ts) cfg = rbind (k_endname cfg t i) (\<lambda>en. k_connect_in i ts (k_enable en True cfg))"

definition connectUnlocked :: "nat \<Rightarrow> nat list \<Rightarrow> ('s, 'o, 'v) kv_config \<Rightarrow> ('s, 'o, 'v) kv_config res" where
  "connectUnlocked i to cfg = rbind (k_connect_out i to cfg) (k_connect_in i to)"

fun k_disconnect_out :: "nat \<Rightarrow> nat list \<Rightarrow> ('s, 'o, 'v) kv_config \<Rightarrow> ('s, 'o, 'v) kv_config res" where
  "k_disconnect_out i [] cfg = Inr cfg"
| "k_disconnect_out i (t # ts) cfg =
     rbind (slice_get (k_endnames cfg) (int i)) (\<lambda>row.
     if row \<noteq> None then rbind (k_endname cfg i t) (\<lambda>en. k_disconnect_out i ts (k_enable en False cfg))
     else k_disconnect_out i ts cfg)"

text \<open>The test looks at row \<open>j\<close>, the position in the list, and not at row \<open>from[j]\<close>.\<close>

fun k_disconnect_in :: "nat \<Rightarrow> nat \<Rightarrow> nat list \<Rightarrow> ('s, 'o, 'v) kv_config \<Rightarrow> ('s, 'o, 'v) kv_config res" where
  "k_disconnect_in i j [] cfg = Inr cfg"
| "k_disconnect_in i j (t # ts) cfg =
     rbind (slice_get (k_endnames cfg) (int j)) (\<lambda>row.
     if row \<noteq> None then rbind (k_endname cfg t i) (\<lambda>en. k_disconnect_in i (j + 1) ts (k_enable en False cfg))
     else k_disconnect_in i (j + 1) ts cfg)"

definition disconnectUnlocked :: "nat \<Rightarrow> nat list \<Rightarrow> ('s, 'o, 'v) kv_config \<Rightarrow> ('s, 'o, 'v) kv_config res" where
  "disconnectUnlocked i from_list cfg = rbind (k_disconnect_out i from_list cfg) (k_disconnect_in i 0 from_list)"

definition All_servers :: "('s, 'o, 'v) kv_config \<Rightarrow> nat list" where
  "All_servers cfg = [0..<k_n cfg]"

fun connect_each :: "nat list \<Rightarrow> ('s, 'o, 'v) kv_config \<Rightarrow> ('s, 'o, 'v) kv_config res" where
  "connect_each [] cfg = Inr cfg"
| "connect_each (i # is) cfg = rbind (connectUnlocked i (All_servers cfg) cfg) (connect_each is)"

definition ConnectAll :: "('s, 'o, 'v) kv_config \<Rightarrow> ('s, 'o, 'v) kv_config res" where
  "ConnectAll cfg = connect_each [0..<k_n cfg] cfg"

fun isolate_each :: "nat list \<Rightarrow> nat list \<Rightarrow> nat list \<Rightarrow> ('s, 'o, 'v) kv_config \<Rightarrow> ('s, 'o, 'v) kv_config res" where
  "isolate_each own other [] cfg = Inr cfg"
| "isolate_each own other (i # is) cfg =
     rbind (disconnectUnlocked i other cfg) (\<lambda>cfg1.
     rbind (connectUnlocked i own cfg1) (isolate_each own other is))"

definition kv_partition_net :: "nat list \<Rightarrow> nat list \<Rightarrow> ('s, 'o, 'v) kv_config \<Rightarrow> ('s, 'o, 'v) kv_config res" where
  "kv_partition_net p1 p2 cfg = rbind (isolate_each p1 p2 p1 cfg) (isolate_each p2 p1 p2)"

section \<open>Clerks\<close>

text \<open>\<open>cfg.clerks[ck]\<close> of an unknown clerk is a nil slice.\<close>

definition clerk_names :: "nat \<Rightarrow> ('s, 'o, 'v) kv_config \<Rightarrow> string list" where
  "clerk_names ck cfg = (case clerks cfg ck of None \<Rightarrow> [] | Some ns \<Rightarrow> ns)"

fun client_enable :: "bool \<Rightarrow> string list \<Rightarrow> nat list \<Rightarrow> ('s, 'o, 'v) kv_config \<Rightarrow> ('s, 'o, 'v) kv_config res" where
  "client_enable b names [] cfg = Inr cfg"
| "client_enable b names (t # ts) cfg = rbind (slice_get names (int t)) (\<lambda>s. client_enable b names ts (k_enable s b cfg))"

definition ConnectClientUnlocked :: "nat \<Rightarrow> nat list \<Rightarrow> ('s, 'o, 'v) kv_config \<Rightarrow> ('s, 'o, 'v) kv_config res" where
  "ConnectClientUnlocked ck to cfg = client_enable True (clerk_names ck cfg) to cfg"

definition DisconnectClientUnlocked :: "nat \<Rightarrow> nat list \<Rightarrow> ('s, 'o, 'v) kv_config \<Rightarrow> ('s, 'o, 'v) kv_config res" where
  "DisconnectClientUnlocked ck from_list cfg = client_enable False (clerk_names ck cfg) from_list cfg"

text \<open>
  \<open>makeClient\<close>: \<open>names\<close> are the new names, \<open>ck\<close> the new clerk; the second result is the list of end-points it
  is made with.
\<close>

definition makeClient :: "string list \<Rightarrow> nat list \<Rightarrow> nat \<Rightarrow> nat list \<Rightarrow> ('s, 'o, 'v) kv_config \<Rightarrow> (('s, 'o, 'v) kv_config \<times> string list) res" where
  "makeClient names rs ck to cfg =
     rbind (make_ends (zip [0..<k_n cfg] names) (k_net cfg)) (\<lambda>rn.
     let handles = random_handles rs (take (k_n cfg) names);
         cfg1 = cfg\<lparr>k_net := rn, clerks := (clerks cfg)(ck \<mapsto> take (k_n cfg) names), nextClientId := nextClientId cfg + 1\<rparr>
     in rbind (ConnectClientUnlocked ck to cfg1) (\<lambda>cfg2. Inr (cfg2, handles)))"

definition deleteClient :: "nat \<Rightarrow> ('s, 'o, 'v) kv_config \<Rightarrow> ('s, 'o, 'v) kv_config" where
  "deleteClient ck cfg = cfg\<lparr>clerks := (clerks cfg)(ck := None)\<rparr>"

section \<open>Servers\<close>

definition k_new_saved :: "nat \<Rightarrow> Persister \<Rightarrow> ('s, 'o, 'v) kv_config \<Rightarrow> ('s, 'o, 'v) kv_config res" where
  "k_new_saved i p cfg =
     rbind (slice_set (k_saved cfg) (int i) (Some (length (k_pheap cfg)))) (\<lambda>sv.
     Inr (cfg\<lparr>k_pheap := k_pheap cfg @ [p], k_saved := sv\<rparr>))"

definition k_copy_saved :: "nat \<Rightarrow> ('s, 'o, 'v) kv_config \<Rightarrow> ('s, 'o, 'v) kv_config res" where
  "k_copy_saved i cfg =
     rbind (slice_get (k_saved cfg) (int i)) (\<lambda>p.
     case p of None \<Rightarrow> Inr cfg | Some a \<Rightarrow> rbind (slice_get (k_pheap cfg) (int a)) (\<lambda>ps. k_new_saved i (Copy ps) cfg))"

definition ShutdownServer :: "nat \<Rightarrow> ('s, 'o, 'v) kv_config \<Rightarrow> ('s, 'o, 'v) kv_config res" where
  "ShutdownServer i cfg =
     rbind (disconnectUnlocked i (All_servers cfg) cfg) (\<lambda>cfg1.
     let cfg2 = cfg1\<lparr>k_net := DeleteServer i (k_net cfg1)\<rparr> in
     rbind (k_copy_saved i cfg2) (\<lambda>cfg3.
     rbind (slice_get (kvservers cfg3) (int i)) (\<lambda>kv.
     case kv of
       None \<Rightarrow> Inr cfg3
     | Some s \<Rightarrow> rbind (slice_set (kvservers cfg3) (int i) None) (\<lambda>ks. Inr (cfg3\<lparr>k_killed := s # k_killed cfg3, kvservers := ks\<rparr>)))))"

definition StartServer :: "string list \<Rightarrow> 's \<Rightarrow> ('o, 'v) Service \<times> ('o, 'v) Service \<Rightarrow> nat \<Rightarrow> ('s, 'o, 'v) kv_config \<Rightarrow> ('s, 'o, 'v) kv_config res" where
  "StartServer names kv svcs i cfg0 =
     rbind (slice_set (k_endnames cfg0) (int i) (Some (take (k_n cfg0) names))) (\<lambda>rows.
     rbind (make_ends (zip [0..<k_n cfg0] names) (k_net cfg0)) (\<lambda>rn.
     let cfg1 = cfg0\<lparr>k_endnames := rows, k_net := rn\<rparr> in
     rbind (slice_get (k_saved cfg1) (int i)) (\<lambda>p.
     rbind (case p of Some _ \<Rightarrow> k_copy_saved i cfg1 | None \<Rightarrow> k_new_saved i MakePersister cfg1) (\<lambda>cfg2.
     rbind (slice_set (kvservers cfg2) (int i) (Some kv)) (\<lambda>ks.
     let srv = AddService (snd svcs) (AddService (fst svcs) MakeServer) in
     Inr (cfg2\<lparr>kvservers := ks, k_sheap := k_sheap cfg2 @ [srv], k_net := AddServer i (length (k_sheap cfg2)) (k_net cfg2)\<rparr>))))))"

text \<open>\<open>gs i\<close> is whether \<open>cfg.kvservers[i].rf.GetState()\<close> reports a leader; a nil server panics.\<close>

fun leader_loop :: "(nat \<Rightarrow> bool) \<Rightarrow> (nat \<times> 's option) list \<Rightarrow> (bool \<times> nat) res" where
  "leader_loop gs [] = Inr (False, 0)"
| "leader_loop gs ((i, None) # ks) = Inl NilDeref"
| "leader_loop gs ((i, Some s) # ks) = (if gs i then Inr (True, i) else leader_loop gs ks)"

definition Leader :: "(nat \<Rightarrow> bool) \<Rightarrow> ('s, 'o, 'v) kv_config \<Rightarrow> (bool \<times> nat) res" where
  "Leader gs cfg = leader_loop gs (zip [0..<k_n cfg] (kvservers cfg))"

fun part_loop :: "nat \<Rightarrow> nat list \<Rightarrow> int \<Rightarrow> int list \<Rightarrow> int list \<Rightarrow> (int \<times> int list \<times> int list) res" where
  "part_loop l [] j p1 p2 = Inr (j, p1, p2)"
| "part_loop l (i # is) j p1 p2 =
     (if i \<noteq> l then
        (if j < int (length p1) then rbind (slice_set p1 j (int i)) (\<lambda>p1'. part_loop l is (j + 1) p1' p2)
         else rbind (slice_set p2 (j - int (length p1)) (int i)) (\<lambda>p2'. part_loop l is (j + 1) p1 p2'))
      else part_loop l is j p1 p2)"

definition make_partition :: "(nat \<Rightarrow> bool) \<Rightarrow> ('s, 'o, 'v) kv_config \<Rightarrow> (int list \<times> int list) res" where
  "make_partition gs cfg =
     rbind (Leader gs cfg) (\<lambda>(_, l).
     rbind (part_loop l [0..<k_n cfg] 0 (replicate (k_n cfg div 2 + 1) 0) (replicate (k_n cfg div 2) 0)) (\<lambda>(j, p1, p2).
     rbind (slice_set p2 (int (length p2) - 1) (int l)) (\<lambda>p2'. Inr (p1, p2'))))"

definition k_zero :: "nat \<Rightarrow> int \<Rightarrow> ('s, 'o, 'v) kv_config" where
  "k_zero n maxr = \<lparr>k_net = MakeNetwork, k_n = n, kvservers = replicate n None, k_saved = replicate n None, k_endnames = replicate n None,
     clerks = Map.empty, nextClientId = int n + 1000, maxraftstate = maxr, k_pheap = [], k_sheap = [], k_killed = [], k_rpcs0 = 0, k_ops = 0\<rparr>"

fun start_each :: "(nat \<Rightarrow> string list) \<Rightarrow> (nat \<Rightarrow> 's) \<Rightarrow> (nat \<Rightarrow> ('o, 'v) Service \<times> ('o, 'v) Service) \<Rightarrow> nat list \<Rightarrow> ('s, 'o, 'v) kv_config
    \<Rightarrow> ('s, 'o, 'v) kv_config res" where
  "start_each names kv svcs [] cfg = Inr cfg"
| "start_each names kv svcs (i # is) cfg = rbind (StartServer (names i) (kv i) (svcs i) i cfg) (start_each names kv svcs is)"

definition kv_make_config :: "(nat \<Rightarrow> string list) \<Rightarrow> (nat \<Rightarrow> 's) \<Rightarrow> (nat \<Rightarrow> ('o, 'v) Service \<times> ('o, 'v) Service) \<Rightarrow> nat \<Rightarrow> bool \<Rightarrow> int
    \<Rightarrow> ('s, 'o, 'v) kv_config res" where
  "kv_make_config names kv svcs n unreliable maxr =
     rbind (start_each names kv svcs [0..<n] (k_zero n maxr)) (\<lambda>cfg1.
     rbind (ConnectAll cfg1) (\<lambda>cfg2.
     Inr (cfg2\<lparr>k_net := Reliable (\<not> unreliable) (k_net cfg2)\<rparr>)))"

definition k_checkTimeout :: "bool \<Rightarrow> int \<Rightarrow> unit res" where
  "k_checkTimeout failed elapsed =
     (if \<not> failed \<and> elapsed > 120 * 10 ^ 9 then Inl (Fatal ''test took longer than 120 seconds'') else Inr ())"

definition kv_cleanup :: "bool \<Rightarrow> int \<Rightarrow> ('s, 'o, 'v) kv_config \<Rightarrow> ('s, 'o, 'v) kv_config res" where
  "kv_cleanup failed elapsed cfg =
     rbind (Cleanup (k_net cfg)) (\<lambda>rn.
     rbind (k_checkTimeout failed elapsed) (\<lambda>_.
     Inr (cfg\<lparr>k_killed := rev (List.map_filter (\<lambda>s. s) (kvservers cfg)) @ k_killed cfg, k_net := rn\<rparr>)))"

definition k_rpcTotal :: "('s, 'o, 'v) kv_config \<Rightarrow> int" where
  "k_rpcTotal cfg = GetTotalCount (k_net cfg)"

definition kv_begin :: "('s, 'o, 'v) kv_config \<Rightarrow> ('s, 'o, 'v) kv_config" where
  "kv_begin cfg = cfg\<lparr>k_rpcs0 := k_rpcTotal cfg, k_ops := 0\<rparr>"

definition kv_count_op :: "('s, 'o, 'v) kv_config \<Rightarrow> ('s, 'o, 'v) kv_config" where
  "kv_count_op cfg = cfg\<lparr>k_ops := k_ops cfg + 1\<rparr>"

definition kv_end :: "bool \<Rightarrow> int \<Rightarrow> ('s, 'o, 'v) kv_config \<Rightarrow> (nat \<times> int \<times> int) option res" where
  "kv_end failed elapsed cfg =
     rbind (k_checkTimeout failed elapsed) (\<lambda>_.
     Inr (if failed = False then Some (k_n cfg, k_rpcTotal cfg - k_rpcs0 cfg, sint (k_ops cfg)) else None))"


section \<open>Enabling and disabling end-points\<close>

definition k_name :: "('s, 'o, 'v) kv_config \<Rightarrow> nat \<Rightarrow> nat \<Rightarrow> string" where
  "k_name cfg i j = the (k_endnames cfg ! i) ! j"

definition all_started :: "('s, 'o, 'v) kv_config \<Rightarrow> bool" where
  "all_started cfg \<longleftrightarrow> length (k_endnames cfg) = k_n cfg \<and> (\<forall>i<k_n cfg. \<exists>row. k_endnames cfg ! i = Some row \<and> length row = k_n cfg)"

text \<open>A sequence of calls of \<open>Enable\<close>.\<close>

definition k_apply :: "(string \<times> bool) list \<Rightarrow> ('s, 'o, 'v) kv_config \<Rightarrow> ('s, 'o, 'v) kv_config" where
  "k_apply ops cfg = cfg\<lparr>k_net := (k_net cfg)\<lparr>enabled := fold (\<lambda>(e, b) en. en(e := b)) ops (enabled (k_net cfg))\<rparr>\<rparr>"

lemma k_apply_simps [simp]:
  "k_apply [] cfg = cfg" "k_n (k_apply ops cfg) = k_n cfg" "k_endnames (k_apply ops cfg) = k_endnames cfg"
  "k_name (k_apply ops cfg) = k_name cfg" "all_started (k_apply ops cfg) = all_started cfg"
  "connections (k_net (k_apply ops cfg)) = connections (k_net cfg)" "servers (k_net (k_apply ops cfg)) = servers (k_net cfg)"
  "kvservers (k_apply ops cfg) = kvservers cfg" "net_done (k_net (k_apply ops cfg)) = net_done (k_net cfg)"
  by (simp_all add: k_apply_def k_name_def all_started_def fun_eq_iff)

lemma k_apply_enable: "k_enable e b cfg = k_apply [(e, b)] cfg"
  by (simp add: k_enable_def k_apply_def Enable_def)

lemma k_apply_append: "k_apply ops' (k_apply ops cfg) = k_apply (ops @ ops') cfg"
  by (simp add: k_apply_def)

lemma k_endname_ok: "all_started cfg \<Longrightarrow> i < k_n cfg \<Longrightarrow> j < k_n cfg \<Longrightarrow> k_endname cfg i j = Inr (k_name cfg i j)"
  by (force simp: k_endname_def all_started_def k_name_def)

definition out_ops :: "('s, 'o, 'v) kv_config \<Rightarrow> bool \<Rightarrow> nat \<Rightarrow> nat list \<Rightarrow> (string \<times> bool) list" where
  "out_ops cfg b i ts = map (\<lambda>t. (k_name cfg i t, b)) ts @ map (\<lambda>t. (k_name cfg t i, b)) ts"

lemma out_ops_apply [simp]: "out_ops (k_apply ops cfg) = out_ops cfg"
  by (simp add: out_ops_def fun_eq_iff)

lemma k_connect_out_ops:
  "all_started cfg \<Longrightarrow> i < k_n cfg \<Longrightarrow> set ts \<subseteq> {..<k_n cfg} \<Longrightarrow> k_connect_out i ts cfg = Inr (k_apply (map (\<lambda>t. (k_name cfg i t, True)) ts) cfg)"
  by (induction ts arbitrary: cfg) (simp_all add: k_endname_ok k_apply_enable k_apply_append)

lemma k_connect_in_ops:
  "all_started cfg \<Longrightarrow> i < k_n cfg \<Longrightarrow> set ts \<subseteq> {..<k_n cfg} \<Longrightarrow> k_connect_in i ts cfg = Inr (k_apply (map (\<lambda>t. (k_name cfg t i, True)) ts) cfg)"
  by (induction ts arbitrary: cfg) (simp_all add: k_endname_ok k_apply_enable k_apply_append)

lemma k_disconnect_out_ops:
  "all_started cfg \<Longrightarrow> i < k_n cfg \<Longrightarrow> set ts \<subseteq> {..<k_n cfg} \<Longrightarrow> k_disconnect_out i ts cfg = Inr (k_apply (map (\<lambda>t. (k_name cfg i t, False)) ts) cfg)"
proof (induction ts arbitrary: cfg)
  case (Cons t ts)
  then have "slice_get (k_endnames cfg) (int i) = Inr (k_endnames cfg ! i)" "k_endnames cfg ! i \<noteq> None" by (auto simp: all_started_def)
  with Cons show ?case by (simp add: k_endname_ok k_apply_enable k_apply_append)
qed simp

lemma k_disconnect_in_ops:
  "all_started cfg \<Longrightarrow> i < k_n cfg \<Longrightarrow> set ts \<subseteq> {..<k_n cfg} \<Longrightarrow> j + length ts \<le> k_n cfg \<Longrightarrow>
   k_disconnect_in i j ts cfg = Inr (k_apply (map (\<lambda>t. (k_name cfg t i, False)) ts) cfg)"
proof (induction ts arbitrary: j cfg)
  case (Cons t ts)
  then have j: "j < k_n cfg" by simp
  have "slice_get (k_endnames cfg) (int j) = Inr (k_endnames cfg ! j)" using j Cons.prems(1) by (simp add: all_started_def)
  moreover have "k_endnames cfg ! j \<noteq> None" using j Cons.prems(1) unfolding all_started_def by (metis option.distinct(1))
  ultimately
  show ?case using Cons by (simp add: k_endname_ok k_apply_enable k_apply_append)
qed simp

lemma connectUnlocked_ops:
  "all_started cfg \<Longrightarrow> i < k_n cfg \<Longrightarrow> set ts \<subseteq> {..<k_n cfg} \<Longrightarrow> connectUnlocked i ts cfg = Inr (k_apply (out_ops cfg True i ts) cfg)"
  by (simp add: connectUnlocked_def k_connect_out_ops k_connect_in_ops k_apply_append out_ops_def)

lemma disconnectUnlocked_ops:
  "all_started cfg \<Longrightarrow> i < k_n cfg \<Longrightarrow> set ts \<subseteq> {..<k_n cfg} \<Longrightarrow> length ts \<le> k_n cfg \<Longrightarrow>
   disconnectUnlocked i ts cfg = Inr (k_apply (out_ops cfg False i ts) cfg)"
  by (simp add: disconnectUnlocked_def k_disconnect_out_ops k_disconnect_in_ops k_apply_append out_ops_def)

definition side_ops :: "('s, 'o, 'v) kv_config \<Rightarrow> nat list \<Rightarrow> nat list \<Rightarrow> nat list \<Rightarrow> (string \<times> bool) list" where
  "side_ops cfg own other is = concat (map (\<lambda>i. out_ops cfg False i other @ out_ops cfg True i own) is)"

lemma isolate_each_ops:
  assumes "all_started cfg" and "set own \<subseteq> {..<k_n cfg}" and "set other \<subseteq> {..<k_n cfg}" and "length other \<le> k_n cfg" and "set is \<subseteq> {..<k_n cfg}"
  shows "isolate_each own other is cfg = Inr (k_apply (side_ops cfg own other is) cfg)"
  using assms
proof (induction "is" arbitrary: cfg)
  case (Cons i "is")
  then show ?case
    by (simp add: connectUnlocked_ops disconnectUnlocked_ops k_apply_append side_ops_def)
qed (simp add: side_ops_def)

lemma connect_each_ops:
  assumes "all_started cfg" and "set is \<subseteq> {..<k_n cfg}"
  shows "connect_each is cfg = Inr (k_apply (concat (map (\<lambda>i. out_ops cfg True i [0..<k_n cfg]) is)) cfg)"
  using assms by (induction "is" arbitrary: cfg) (simp_all add: connectUnlocked_ops k_apply_append All_servers_def subset_eq)

lemma fold_enable:
  assumes "\<forall>(e, b)\<in>set ops. b = g e"
  shows "fold (\<lambda>(e, b) en. en(e := b)) ops f e = (if e \<in> fst ` set ops then g e else f e)"
  using assms by (induction ops arbitrary: f) auto

section \<open>Partitions\<close>

definition names_inj :: "('s, 'o, 'v) kv_config \<Rightarrow> bool" where
  "names_inj cfg \<longleftrightarrow> inj_on (\<lambda>(i, j). k_name cfg i j) ({..<k_n cfg} \<times> {..<k_n cfg})"

lemma names_injD:
  assumes "names_inj cfg" and "k_name cfg i j = k_name cfg i' j'" and "i < k_n cfg" "j < k_n cfg" "i' < k_n cfg" "j' < k_n cfg"
  shows "i = i' \<and> j = j'"
  using inj_onD [OF assms(1) [unfolded names_inj_def], of "(i, j)" "(i', j')"] assms(2-) by simp

definition same_side :: "nat list \<Rightarrow> nat list \<Rightarrow> nat \<Rightarrow> nat \<Rightarrow> bool" where
  "same_side p1 p2 i j \<longleftrightarrow> i \<in> set p1 \<and> j \<in> set p1 \<or> i \<in> set p2 \<and> j \<in> set p2"

lemma kv_partition_enabled:
  assumes st: "all_started cfg" and inj: "names_inj cfg" and sub: "set p1 \<subseteq> {..<k_n cfg}" "set p2 \<subseteq> {..<k_n cfg}"
    and len: "length p1 \<le> k_n cfg" "length p2 \<le> k_n cfg" and dis: "set p1 \<inter> set p2 = {}"
  shows "\<exists>ops. kv_partition_net p1 p2 cfg = Inr (k_apply ops cfg) \<and>
    (\<forall>i j. i \<in> set p1 \<union> set p2 \<and> j \<in> set p1 \<union> set p2 \<longrightarrow> enabled (k_net (k_apply ops cfg)) (k_name cfg i j) = same_side p1 p2 i j) \<and>
    (\<forall>e. (\<forall>i\<in>set p1 \<union> set p2. \<forall>j\<in>set p1 \<union> set p2. e \<noteq> k_name cfg i j) \<longrightarrow> enabled (k_net (k_apply ops cfg)) e = enabled (k_net cfg) e)"
proof -
  let ?ops = "side_ops cfg p1 p2 p1 @ side_ops cfg p2 p1 p2"
  let ?g = "\<lambda>e. \<exists>i j. i < k_n cfg \<and> j < k_n cfg \<and> e = k_name cfg i j \<and> same_side p1 p2 i j"
  have run: "kv_partition_net p1 p2 cfg = Inr (k_apply ?ops cfg)"
  proof -
    have "isolate_each p2 p1 p2 (k_apply (side_ops cfg p1 p2 p1) cfg) = Inr (k_apply (side_ops cfg p2 p1 p2) (k_apply (side_ops cfg p1 p2 p1) cfg))"
      using isolate_each_ops [of "k_apply (side_ops cfg p1 p2 p1) cfg" p2 p1 p2] st sub len by (simp add: side_ops_def)
    then show ?thesis unfolding kv_partition_net_def using isolate_each_ops [of cfg p1 p2 p1] st sub len by (simp add: k_apply_append)
  qed
  have g: "?g (k_name cfg i j) = same_side p1 p2 i j" if "i < k_n cfg" "j < k_n cfg" for i j
  proof
    assume "?g (k_name cfg i j)"
    then obtain i' j' where "i' < k_n cfg" "j' < k_n cfg" "k_name cfg i j = k_name cfg i' j'" "same_side p1 p2 i' j'" by blast
    with names_injD [OF inj] that show "same_side p1 p2 i j" by metis
  qed (use that in blast)
  have mem: "(e, b) \<in> set ?ops \<longleftrightarrow> (\<exists>i j. i \<in> set p1 \<union> set p2 \<and> j \<in> set p1 \<union> set p2 \<and> e = k_name cfg i j \<and> b = same_side p1 p2 i j)" for e b
    using dis unfolding side_ops_def out_ops_def same_side_def by auto
  have lt: "i < k_n cfg" if "i \<in> set p1 \<union> set p2" for i using that sub by auto
  have "\<forall>(e, b)\<in>set ?ops. b = ?g e" using g lt unfolding Ball_def split_paired_All mem by auto
  note fe = fold_enable [OF this]
  have "enabled (k_net (k_apply ?ops cfg)) (k_name cfg i j) = same_side p1 p2 i j" if "i \<in> set p1 \<union> set p2" "j \<in> set p1 \<union> set p2" for i j
  proof -
    have "(k_name cfg i j, same_side p1 p2 i j) \<in> set ?ops" using that unfolding mem by blast
    then have "k_name cfg i j \<in> fst ` set ?ops" by force
    then show ?thesis using fe [of "enabled (k_net cfg)" "k_name cfg i j"] g [OF lt lt] that by (simp add: k_apply_def)
  qed
  moreover have "enabled (k_net (k_apply ?ops cfg)) e = enabled (k_net cfg) e"
    if o: "\<forall>i\<in>set p1 \<union> set p2. \<forall>j\<in>set p1 \<union> set p2. e \<noteq> k_name cfg i j" for e
  proof -
    have "e \<notin> fst ` set ?ops"
    proof
      assume "e \<in> fst ` set ?ops"
      then obtain b where "(e, b) \<in> set ?ops" by force
      with o show False unfolding mem by blast
    qed
    then show ?thesis using fe [of "enabled (k_net cfg)" e] by (simp add: k_apply_def)
  qed
  ultimately show ?thesis using run by blast
qed


section \<open>The initial configuration\<close>

text \<open>Starting servers one after the other; \<open>ds\<close> have been started before.\<close>

definition rows_wired :: "(nat \<Rightarrow> string list) \<Rightarrow> nat set \<Rightarrow> ('s, 'o, 'v) kv_config \<Rightarrow> bool" where
  "rows_wired names ds cfg \<longleftrightarrow> (\<forall>i\<in>ds. i < k_n cfg \<and> k_endnames cfg ! i = Some (names i) \<and> length (names i) = k_n cfg \<and> servers (k_net cfg) i \<noteq> None \<and>
     kvservers cfg ! i \<noteq> None \<and> (\<forall>j<k_n cfg. ends (k_net cfg) (names i ! j) \<noteq> None \<and> connections (k_net cfg) (names i ! j) = Some j))"

definition k_shape :: "('s, 'o, 'v) kv_config \<Rightarrow> bool" where
  "k_shape cfg \<longleftrightarrow> length (k_endnames cfg) = k_n cfg \<and> length (k_saved cfg) = k_n cfg \<and> length (kvservers cfg) = k_n cfg \<and>
     (\<forall>i<k_n cfg. \<forall>a. k_saved cfg ! i = Some a \<longrightarrow> a < length (k_pheap cfg))"

lemma StartServer_result:
  assumes sh: "k_shape cfg" and i: "i < k_n cfg" and len: "length names = k_n cfg"
    and rn: "make_ends (zip [0..<k_n cfg] names) (k_net cfg) = Inr rn"
  shows "\<exists>p. StartServer names kv svcs i cfg = Inr (cfg\<lparr>k_endnames := (k_endnames cfg)[i := Some names],
      k_pheap := k_pheap cfg @ [p], k_saved := (k_saved cfg)[i := Some (length (k_pheap cfg))], kvservers := (kvservers cfg)[i := Some kv],
      k_sheap := k_sheap cfg @ [AddService (snd svcs) (AddService (fst svcs) MakeServer)], k_net := AddServer i (length (k_sheap cfg)) rn\<rparr>)"
proof -
  have lens: "i < length (k_endnames cfg)" "i < length (k_saved cfg)" "i < length (kvservers cfg)" using sh i by (simp_all add: k_shape_def)
  show ?thesis
  proof (cases "k_saved cfg ! i")
    case None
    then show ?thesis using lens len rn by (intro exI [of _ MakePersister]) (simp add: StartServer_def k_new_saved_def Let_def)
  next
    case (Some a)
    moreover have "a < length (k_pheap cfg)" using Some sh i by (simp add: k_shape_def)
    ultimately show ?thesis using lens len rn
      by (intro exI [of _ "k_pheap cfg ! a"]) (simp add: StartServer_def k_copy_saved_def k_new_saved_def Let_def)
  qed
qed

lemma StartServer_wires:
  assumes sh: "k_shape cfg" and w: "rows_wired names ds cfg" and i: "i < k_n cfg" "i \<notin> ds"
    and fr: "length (names i) = k_n cfg" "distinct (names i)" "list_all (\<lambda>e. ends (k_net cfg) e = None) (names i)"
  shows "\<exists>cfg'. StartServer (names i) kv svcs i cfg = Inr cfg' \<and> k_shape cfg' \<and> rows_wired names (insert i ds) cfg' \<and> k_n cfg' = k_n cfg \<and>
    ends (k_net cfg') = (\<lambda>e. if e \<in> set (names i) then Some () else ends (k_net cfg) e)"
proof -
  from make_ends_row [OF fr] obtain rn where rn: "make_ends (zip [0..<k_n cfg] (names i)) (k_net cfg) = Inr rn" "servers rn = servers (k_net cfg)"
    "ends rn = (\<lambda>e. if e \<in> set (names i) then Some () else ends (k_net cfg) e)" "\<forall>j<k_n cfg. connections rn (names i ! j) = Some j"
    "\<forall>e. e \<notin> set (names i) \<longrightarrow> connections rn e = connections (k_net cfg) e" unfolding row_made_def fr(1) by blast
  have len: "i < length (k_endnames cfg)" "i < length (k_saved cfg)" "i < length (kvservers cfg)" using sh i by (simp_all add: k_shape_def)
  from StartServer_result [OF sh i(1) fr(1) rn(1)] obtain p where run: "StartServer (names i) kv svcs i cfg =
      Inr (cfg\<lparr>k_endnames := (k_endnames cfg)[i := Some (names i)],
      k_pheap := k_pheap cfg @ [p], k_saved := (k_saved cfg)[i := Some (length (k_pheap cfg))], kvservers := (kvservers cfg)[i := Some kv],
      k_sheap := k_sheap cfg @ [AddService (snd svcs) (AddService (fst svcs) MakeServer)], k_net := AddServer i (length (k_sheap cfg)) rn\<rparr>)"
    (is "_ = Inr ?cfg") by blast
  have "k_shape ?cfg" using sh by (auto simp: k_shape_def nth_update_if split: if_splits intro: less_SucI)
  moreover have "rows_wired names (insert i ds) ?cfg"
    unfolding rows_wired_def
  proof (intro ballI)
    fix d assume d: "d \<in> insert i ds"
    show "d < k_n ?cfg \<and> k_endnames ?cfg ! d = Some (names d) \<and> length (names d) = k_n ?cfg \<and> servers (k_net ?cfg) d \<noteq> None \<and> kvservers ?cfg ! d \<noteq> None \<and>
      (\<forall>j<k_n ?cfg. ends (k_net ?cfg) (names d ! j) \<noteq> None \<and> connections (k_net ?cfg) (names d ! j) = Some j)"
    proof (cases "d = i")
      case True
      then show ?thesis using i fr(1) len rn by (simp add: AddServer_def)
    next
      case False
      with d w have o: "d < k_n cfg" "k_endnames cfg ! d = Some (names d)" "length (names d) = k_n cfg" "servers (k_net cfg) d \<noteq> None" "kvservers cfg ! d \<noteq> None"
        "\<forall>j<k_n cfg. ends (k_net cfg) (names d ! j) \<noteq> None \<and> connections (k_net cfg) (names d ! j) = Some j" by (auto simp: rows_wired_def)
      have "names d ! j \<notin> set (names i)" if "j < k_n cfg" for j using o(6) that fr(3) by (auto simp: list_all_iff)
      with o False rn show ?thesis by (simp add: AddServer_def)
    qed
  qed
  ultimately show ?thesis using run rn(3) by (simp add: AddServer_def)
qed

lemma start_each_wires:
  assumes "k_shape cfg" and "rows_wired names ds cfg" and "set is \<subseteq> {..<k_n cfg}" and "distinct is" and "set is \<inter> ds = {}"
    and "\<forall>i\<in>set is. length (names i) = k_n cfg" and "distinct (used_names names is)" and "list_all (\<lambda>e. ends (k_net cfg) e = None) (used_names names is)"
  shows "\<exists>cfg'. start_each names kv svcs is cfg = Inr cfg' \<and> k_shape cfg' \<and> rows_wired names (set is \<union> ds) cfg' \<and> k_n cfg' = k_n cfg"
  using assms
proof (induction "is" arbitrary: cfg ds)
  case (Cons i "is")
  have fr: "length (names i) = k_n cfg" "distinct (names i)" "list_all (\<lambda>e. ends (k_net cfg) e = None) (names i)" "i < k_n cfg" "i \<notin> ds"
    using Cons.prems by (auto simp: used_names_def)
  from StartServer_wires [OF Cons.prems(1,2) fr(4,5,1-3)] obtain c1 where c1: "StartServer (names i) (kv i) (svcs i) i cfg = Inr c1" "k_shape c1"
    "rows_wired names (insert i ds) c1" "k_n c1 = k_n cfg" "ends (k_net c1) = (\<lambda>e. if e \<in> set (names i) then Some () else ends (k_net cfg) e)" by blast
  have "list_all (\<lambda>e. ends (k_net c1) e = None) (used_names names is)"
    using Cons.prems(7,8) by (auto simp: c1(5) used_names_def list_all_iff)
  moreover have "set is \<subseteq> {..<k_n c1}" "distinct is" "set is \<inter> insert i ds = {}" "\<forall>i\<in>set is. length (names i) = k_n c1" "distinct (used_names names is)"
    using Cons.prems c1(4) by (auto simp: used_names_def)
  ultimately obtain c2 where "start_each names kv svcs is c1 = Inr c2" "k_shape c2" "rows_wired names (set is \<union> insert i ds) c2" "k_n c2 = k_n c1"
    using Cons.IH [OF c1(2,3)] by blast
  then show ?case using c1 by (intro exI [of _ c2]) simp
qed simp

lemma distinct_used_names:
  assumes "names_ok n names" and "a < n" "b < n" "a' < n" "b' < n" and "names a ! b = names a' ! b'"
  shows "a = a' \<and> b = b'"
proof -
  have len: "length (names k) = n" if "k < n" for k using assms(1) that by (simp add: names_ok_def list_all_iff)
  have d: "distinct (concat (map names [0..<n]))" using assms(1) by (simp add: names_ok_def used_names_def)
  have mem: "names a ! b \<in> set (names a)" "names a' ! b' \<in> set (names a')" using len assms(2-5) by simp_all
  have ne: "[] \<notin> set (map names [0..<n])"
  proof
    assume "[] \<in> set (map names [0..<n])"
    then obtain x where "x < n" "names x = []" by auto
    then show False using len [of x] assms(2) by simp
  qed
  from d have "distinct (map names [0..<n])" and dis: "\<And>ys zs. ys \<in> set (map names [0..<n]) \<Longrightarrow> zs \<in> set (map names [0..<n]) \<Longrightarrow> ys \<noteq> zs \<Longrightarrow> set ys \<inter> set zs = {}"
    and row: "\<And>ys. ys \<in> set (map names [0..<n]) \<Longrightarrow> distinct ys"
    unfolding distinct_concat_iff using ne by (simp_all add: removeAll_id)
  then have inj: "inj_on names {0..<n}" by (simp add: distinct_map)
  have "names a = names a'" using dis [of "names a" "names a'"] mem assms(2-6) by auto
  then have "a = a'" using inj_onD [OF inj] assms(2,4) by simp
  moreover have "distinct (names a)" using row assms(2) by simp
  ultimately show ?thesis using nth_eq_iff_index_eq len assms(2-6) by metis
qed

lemma kv_make_config_facts:
  assumes ok: "names_ok n names" and run: "kv_make_config names kv svcs n unrel maxr = Inr cfg"
  shows "all_started cfg" and "names_inj cfg" and "k_n cfg = n" and "list_all (\<lambda>s. s \<noteq> None) (kvservers cfg)" and "length (kvservers cfg) = n"
    and "i < n \<Longrightarrow> j < n \<Longrightarrow> connections (k_net cfg) (k_name cfg i j) = Some j" and "j < n \<Longrightarrow> servers (k_net cfg) j \<noteq> None"
    and "i < n \<Longrightarrow> j < n \<Longrightarrow> ends (k_net cfg) (k_name cfg i j) \<noteq> None" and "k_shape cfg"
proof -
  let ?z = "k_zero n maxr :: ('a, 'b, 'c) kv_config"
  have "\<exists>c1. start_each names kv svcs [0..<n] ?z = Inr c1 \<and> k_shape c1 \<and> rows_wired names (set [0..<n] \<union> {}) c1 \<and> k_n c1 = k_n ?z"
    by (rule start_each_wires) (use ok in \<open>auto simp: names_ok_def list_all_iff k_zero_def k_shape_def rows_wired_def MakeNetwork_def\<close>)
  then obtain c1 where c1: "start_each names kv svcs [0..<n] ?z = Inr c1" "k_shape c1" "rows_wired names {..<n} c1" "k_n c1 = n"
    by (auto simp: k_zero_def atLeast0LessThan)
  have row: "k_endnames c1 ! i = Some (names i)" "length (names i) = n" "servers (k_net c1) i \<noteq> None" "kvservers c1 ! i \<noteq> None"
    "\<forall>j<n. connections (k_net c1) (names i ! j) = Some j" "\<forall>j<n. ends (k_net c1) (names i ! j) \<noteq> None" if "i < n" for i
    using c1(3,4) that by (auto simp: rows_wired_def)
  have st: "all_started c1" using c1(2,4) row by (auto simp: all_started_def k_shape_def)
  have nm: "k_name c1 i j = names i ! j" if "i < n" for i j using row(1) [OF that] by (simp add: k_name_def)
  have "set [0..<n] \<subseteq> {..<k_n c1}" using c1(4) by auto
  from connect_each_ops [OF st this] obtain ops where ops: "ConnectAll c1 = Inr (k_apply ops c1)" using c1(4) by (simp add: ConnectAll_def)
  with run c1(1) have cfg: "cfg = (k_apply ops c1)\<lparr>k_net := Reliable (\<not> unrel) (k_net (k_apply ops c1))\<rparr>" by (simp add: kv_make_config_def)
  have eq: "k_name cfg = k_name c1" "k_n cfg = n" "kvservers cfg = kvservers c1" "connections (k_net cfg) = connections (k_net c1)" "servers (k_net cfg) = servers (k_net c1)"
    unfolding cfg by (simp_all add: Reliable_def k_name_def fun_eq_iff c1(4))
  show "all_started cfg" using st unfolding cfg by (simp add: all_started_def)
  show "k_n cfg = n" by (rule eq)
  show "length (kvservers cfg) = n" using c1(2,4) by (simp add: eq k_shape_def)
  then show "list_all (\<lambda>s. s \<noteq> None) (kvservers cfg)" using row(4) unfolding list_all_length eq by simp
  show "connections (k_net cfg) (k_name cfg i j) = Some j" if "i < n" "j < n" using row(5) [OF that(1)] that by (simp add: eq nm)
  show "servers (k_net cfg) j \<noteq> None" if "j < n" using row(3) [OF that] by (simp add: eq)
  show "ends (k_net cfg) (k_name cfg i j) \<noteq> None" if "i < n" "j < n"
    using row(6) [OF that(1)] that by (simp add: eq nm) (simp add: cfg Reliable_def k_apply_def)
  show "k_shape cfg" using c1(2) unfolding cfg by (simp add: k_shape_def k_apply_def)
  show "names_inj cfg" unfolding names_inj_def eq
  proof (rule inj_onI, clarsimp)
    fix a b a' b' assume lt: "a < n" "b < n" "a' < n" "b' < n" and e: "k_name c1 a b = k_name c1 a' b'"
    then show "a = a' \<and> b = b'" using distinct_used_names [OF ok, of a b a' b'] nm by simp
  qed
qed


section \<open>The leader and the split into a majority and a minority\<close>

lemma leader_loop_first:
  assumes "list_all (\<lambda>p. snd p \<noteq> None) ps"
  shows "leader_loop gs ps = (case filter (\<lambda>p. gs (fst p)) ps of [] \<Rightarrow> Inr (False, 0) | p # _ \<Rightarrow> Inr (True, fst p))"
  using assms by (induction gs ps rule: leader_loop.induct) auto

lemma Leader_result:
  assumes all: "list_all (\<lambda>s. s \<noteq> None) (kvservers cfg)" and len: "length (kvservers cfg) = k_n cfg" and n: "0 < k_n cfg"
  shows "\<exists>b l. Leader gs cfg = Inr (b, l) \<and> l < k_n cfg \<and> (b \<longrightarrow> gs l) \<and> (\<not> b \<longrightarrow> l = 0 \<and> (\<forall>i<k_n cfg. \<not> gs i))"
proof -
  let ?ps = "zip [0..<k_n cfg] (kvservers cfg)"
  have "list_all (\<lambda>p. snd p \<noteq> None) ?ps" using all by (auto simp: list_all_iff dest: set_zip_rightD)
  note ll = leader_loop_first [OF this, of gs]
  have ps: "?ps ! i = (i, kvservers cfg ! i)" "i < length ?ps" if "i < k_n cfg" for i using that len by simp_all
  show ?thesis
  proof (cases "filter (\<lambda>p. gs (fst p)) ?ps")
    case Nil
    then have "\<not> gs i" if "i < k_n cfg" for i
      using ps [OF that] unfolding filter_empty_conv by (metis fst_conv nth_mem)
    then show ?thesis using ll Nil n by (intro exI [of _ False] exI [of _ 0]) (simp add: Leader_def)
  next
    case (Cons p qs)
    then have "p \<in> set (filter (\<lambda>p. gs (fst p)) ?ps)" by simp
    then have "p \<in> set ?ps" "gs (fst p)" by auto
    then have "fst p \<in> set [0..<k_n cfg]" by (metis prod.collapse set_zip_leftD)
    then have "fst p < k_n cfg" by simp
    then show ?thesis using ll Cons \<open>gs (fst p)\<close> by (intro exI [of _ True] exI [of _ "fst p"]) (simp add: Leader_def)
  qed
qed

text \<open>\<open>part_loop\<close> writes the servers other than \<open>l\<close> into the two slices as if they were one.\<close>

definition written :: "nat \<Rightarrow> 'a list \<Rightarrow> 'a list \<Rightarrow> 'a list" where
  "written j ns arr = take j arr @ ns @ drop (j + length ns) arr"

lemma written_Nil [simp]: "written j [] arr = arr"
  by (simp add: written_def)

lemma written_Cons: "j < length arr \<Longrightarrow> written (Suc j) ns (arr[j := x]) = written j (x # ns) arr"
  by (simp add: written_def take_Suc_conv_app_nth take_update_cancel drop_update_cancel)

lemma part_loop_fill:
  assumes "j + length (filter (\<lambda>i. i \<noteq> l) is) \<le> length arr" and "L \<le> length arr"
  shows "part_loop l is (int j) (take L arr) (drop L arr) =
    Inr (int (j + length (filter (\<lambda>i. i \<noteq> l) is)), take L (written j (map int (filter (\<lambda>i. i \<noteq> l) is)) arr),
         drop L (written j (map int (filter (\<lambda>i. i \<noteq> l) is)) arr))"
  using assms
proof (induction "is" arbitrary: j arr)
  case (Cons i "is")
  show ?case
  proof (cases "i = l")
    case True
    with Cons show ?thesis by simp
  next
    case False
    have j: "j < length arr" using Cons.prems False by simp
    let ?arr = "arr[j := int i]"
    have "part_loop l (i # is) (int j) (take L arr) (drop L arr) = part_loop l is (int (Suc j)) (take L ?arr) (drop L ?arr)"
    proof (cases "j < L")
      case True
      then show ?thesis using False Cons.prems(2) by (simp add: take_update_swap drop_update_cancel add.commute)
    next
      case ge: False
      then have "slice_set (drop L arr) (int j - int L) (int i) = Inr (drop L ?arr)"
        using j by (simp add: slice_set_def drop_update_swap nat_diff_distrib)
      then show ?thesis using False ge Cons.prems(2) by (simp add: take_update_cancel min_absorb2 add.commute)
    qed
    also have "\<dots> = Inr (int (Suc j + length (filter (\<lambda>i. i \<noteq> l) is)), take L (written (Suc j) (map int (filter (\<lambda>i. i \<noteq> l) is)) ?arr),
         drop L (written (Suc j) (map int (filter (\<lambda>i. i \<noteq> l) is)) ?arr))"
      by (rule Cons.IH) (use Cons.prems False in simp_all)
    finally show ?thesis using False by (simp add: written_Cons [OF j])
  qed
qed simp

lemma make_partition_odd:
  assumes n: "k_n cfg = 2 * h + 1" "0 < h" and L: "Leader gs cfg = Inr (b, l)" "l < k_n cfg"
  shows "make_partition gs cfg = Inr (map int (take (h + 1) (filter (\<lambda>i. i \<noteq> l) [0..<k_n cfg])), map int (drop (h + 1) (filter (\<lambda>i. i \<noteq> l) [0..<k_n cfg]) @ [l]))"
proof -
  let ?ns = "filter (\<lambda>i. i \<noteq> l) [0..<k_n cfg]"
  have len: "length ?ns = 2 * h"
  proof -
    have "length ?ns = card {i. i < k_n cfg \<and> i \<noteq> l}" by (simp add: length_filter_conv_card cong: conj_cong)
    also have "{i. i < k_n cfg \<and> i \<noteq> l} = {..<k_n cfg} - {l}" by auto
    finally show ?thesis using L(2) n(1) by simp
  qed
  have arr: "replicate (h + 1) 0 = take (h + 1) (replicate (2 * h + 1) (0 :: int))" "replicate h 0 = drop (h + 1) (replicate (2 * h + 1) (0 :: int))"
    by (simp_all add: min_def)
  have "part_loop l [0..<k_n cfg] (int 0) (replicate (h + 1) 0) (replicate h 0) =
      Inr (int (2 * h), take (h + 1) (map int ?ns @ [0]), drop (h + 1) (map int ?ns @ [0]))"
  proof -
    have "drop (2 * h) (replicate (2 * h + 1) (0 :: int)) = [0]" by (simp only: drop_replicate) simp
    then have w: "written 0 (map int ?ns) (replicate (2 * h + 1) 0) = map int ?ns @ [0]"
      using len by (simp only: written_def take_0 append_Nil length_map add_0)
    show ?thesis unfolding arr using part_loop_fill [of 0 l "[0..<k_n cfg]" "replicate (2 * h + 1) 0" "h + 1"] unfolding w len by simp
  qed
  moreover have "take (h + 1) (map int ?ns @ [0]) = map int (take (h + 1) ?ns)" "drop (h + 1) (map int ?ns @ [0]) = map int (drop (h + 1) ?ns) @ [0]"
    using len n(2) by (simp_all add: take_map drop_map)
  moreover have "slice_set (map int (drop (h + 1) ?ns) @ [0]) (int (length (map int (drop (h + 1) ?ns) @ [0])) - 1) (int l) = Inr (map int (drop (h + 1) ?ns) @ [int l])"
    by (simp add: slice_set_def list_update_append nat_add_distrib)
  ultimately show ?thesis using L(1) n(1) by (simp add: make_partition_def)
qed


lemma shuffle_mset:
  "list_all2 (\<le>) rs [i..<i + length rs] \<Longrightarrow> i + length rs \<le> length sa \<Longrightarrow> mset (shuffle i rs sa) = mset sa"
proof (induction i rs sa rule: shuffle.induct)
  case (2 i j rs sa)
  then have "j \<le> i" "i < length sa" by (simp_all add: upt_rec)
  then have "mset (sa[i := sa ! j, j := sa ! i]) = mset sa" by (intro mset_swap) simp_all
  moreover have "list_all2 (\<le>) rs [i + 1..<i + 1 + length rs]" using 2(2) by (simp add: upt_rec)
  ultimately show ?case using 2(1,3) by simp
qed simp

section \<open>Properties\<close>

definition kv_demo_names :: "nat \<Rightarrow> string list" where
  "kv_demo_names i = map (\<lambda>j. [char_of (97 + 3 * i + j)]) [0..<3]"

lemma kv_demo_names_ok: "names_ok 3 kv_demo_names"
  by code_simp

definition kv_demo :: "(nat, nat, nat) kv_config res" where
  "kv_demo = kv_make_config kv_demo_names (\<lambda>i. i) (\<lambda>_. (MakeService ''KVServer'' 0 [], MakeService ''Raft'' 0 [])) 3 False (-1)"

lemma kv_demo_Inr: "case kv_demo of Inl _ \<Rightarrow> False | Inr _ \<Rightarrow> True"
  by code_simp

lemma kv_demo_made:
  obtains cfg :: "(nat, nat, nat) kv_config" where
    "kv_make_config kv_demo_names (\<lambda>i. i) (\<lambda>_. (MakeService ''KVServer'' 0 [], MakeService ''Raft'' 0 [])) 3 False (-1) = Inr cfg"
  using kv_demo_Inr by (auto simp: kv_demo_def split: sum.splits)

text \<open>
  C37. With an odd number \<open>n\<close> of servers, at least three, \<open>make_partition\<close> splits them into a majority of \<open>n/2 + 1\<close>
  servers without the leader and a minority of \<open>n/2\<close> servers with it.
\<close>

theorem make_partition_leader_minority:
  assumes "names_ok n names" and "kv_make_config names kv svcs n unrel maxr = Inr cfg" and "n = 2 * h + 1" and "0 < h"
  shows "\<exists>b l q1 q2. Leader gs cfg = Inr (b, l) \<and> make_partition gs cfg = Inr (map int q1, map int q2) \<and> length q1 = h + 1 \<and> length q2 = h \<and>
    distinct (q1 @ q2) \<and> set (q1 @ q2) = {..<n} \<and> l \<in> set q2 \<and> (b \<longrightarrow> gs l)"
proof -
  note mk = kv_make_config_facts [OF assms(1,2)]
  have "length (kvservers cfg) = k_n cfg" "0 < k_n cfg" using mk(3,5) assms(3) by simp_all
  from Leader_result [OF mk(4) this, of gs] obtain b l where L: "Leader gs cfg = Inr (b, l)" "l < k_n cfg" "b \<longrightarrow> gs l" by blast
  let ?ns = "filter (\<lambda>i. i \<noteq> l) [0..<k_n cfg]"
  have n: "k_n cfg = 2 * h + 1" using mk(3) assms(3) by simp
  have dn: "distinct (?ns @ [l])" "set (?ns @ [l]) = {..<n}" using L(2) mk(3) by auto
  then have len: "length ?ns = 2 * h" using distinct_card [OF dn(1)] assms(3) by simp
  have split: "?ns @ [l] = take (h + 1) ?ns @ (drop (h + 1) ?ns @ [l])" by simp
  show ?thesis
    by (rule exI [of _ b], rule exI [of _ l], rule exI [of _ "take (h + 1) ?ns"], rule exI [of _ "drop (h + 1) ?ns @ [l]"])
      (use L make_partition_odd [OF n assms(4) L(1,2)] len dn [unfolded split] assms(4) in simp)
qed

theorem make_partition_leader_minority_witness:
  "\<exists>(cfg :: (nat, nat, nat) kv_config) q1 q2. make_partition (\<lambda>i. i = 1) cfg = Inr (map int q1, map int q2) \<and> length q1 = 2 \<and> length q2 = 1 \<and> set (q1 @ q2) = {..<3}"
proof -
  obtain cfg :: "(nat, nat, nat) kv_config" where
    c: "kv_make_config kv_demo_names (\<lambda>i. i) (\<lambda>_. (MakeService ''KVServer'' 0 [], MakeService ''Raft'' 0 [])) 3 False (-1) = Inr cfg"
    by (rule kv_demo_made)
  from make_partition_leader_minority [OF kv_demo_names_ok c, of 1 "\<lambda>i. i = 1"] show ?thesis by auto
qed

text \<open>With four servers and the last one the leader, server 0 is in both parts.\<close>

lemma make_partition_even:
  "make_partition (\<lambda>i. i = 3) ((k_zero 4 0 :: (nat, nat, nat) kv_config)\<lparr>kvservers := [Some 0, Some 1, Some 2, Some 3]\<rparr>) = Inr ([0, 1, 2], [0, 3])"
  by code_simp

end
