(* ===== verification/Clerks.thy ===== *)
theory Clerks
  imports Labrpc
begin

text \<open>
  The clients of the shard master (\<^verbatim>\<open>shardmaster/client.go\<close>) and of the sharded key-value service
  (\<^verbatim>\<open>shardkv/client.go\<close>): their retry loops, which run until some server gives a final answer.

  A call over the network takes a state \<open>'w\<close> of the world to a new one and returns the reply, or nothing if
  \<open>Call\<close> returns false; \<open>sleep\<close> is what happens to the world during the pause of 100 ms, and \<open>make_end\<close> the
  function the clerk was given.  The loops may not end, so they return options.
\<close>

section \<open>Messages\<close>

definition NShards :: int where
  "NShards = 10"

record Config =
  cfgNum :: int
  Shards :: "int list"
  Groups :: "int \<Rightarrow> string list option"

record JoinArgs =
  jServers :: "int \<Rightarrow> string list option"

record LeaveArgs =
  GIDs :: "int list"

record MoveArgs =
  mvShard :: int
  mvGID :: int

record QueryArgs =
  qNum :: int

text \<open>\<open>JoinReply\<close>, \<open>LeaveReply\<close> and \<open>MoveReply\<close> have the same fields, and \<open>QueryReply\<close> one more.\<close>

record sm_Reply =
  WrongLeader :: bool
  smErr :: string

record QueryReply = sm_Reply +
  qrConfig :: Config

record GetArgs =
  gKey :: string

record GetReply =
  gErr :: string
  gValue :: string

record PutAppendArgs =
  paKey :: string
  paValue :: string
  paOp :: string

record PutAppendReply =
  paErr :: string

datatype wire =
    WJoin JoinArgs | WLeave LeaveArgs | WMove MoveArgs | WQuery QueryArgs
  | RJoin sm_Reply | RLeave sm_Reply | RMove sm_Reply | RQuery QueryReply
  | WGet GetArgs | RGet GetReply | WPutAppend PutAppendArgs | RPutAppend PutAppendReply

text \<open>Decoding a reply of another type is an error, which is fatal in \<open>Call\<close>.\<close>

definition decode_error :: gofault where
  "decode_error = Fatal ''ClientEnd.Call(): decode reply''"

type_synonym ('w, 'e) transport = "'w \<Rightarrow> 'e \<Rightarrow> string \<Rightarrow> wire \<Rightarrow> ('w \<times> wire option) res"

section \<open>The shard master's clerk\<close>

record 'e sm_Clerk =
  ck_servers :: "'e list"

definition sm_MakeClerk :: "'e list \<Rightarrow> 'e sm_Clerk" where
  "sm_MakeClerk srvs = \<lparr>ck_servers = srvs\<rparr>"

text \<open>
  One round over the known servers; \<open>accept\<close> reads the reply and returns the result if the loop is to
  return.
\<close>

fun sm_round :: "('w, 'e) transport \<Rightarrow> string \<Rightarrow> wire \<Rightarrow> (wire \<Rightarrow> 'a option res) \<Rightarrow> 'e list \<Rightarrow> 'w \<Rightarrow> ('w \<times> 'a option) res" where
  "sm_round call meth args accept [] w = Inr (w, None)"
| "sm_round call meth args accept (srv # srvs) w =
     rbind (call w srv meth args) (\<lambda>(w1, rep).
     case rep of
       None \<Rightarrow> sm_round call meth args accept srvs w1
     | Some m \<Rightarrow> rbind (accept m) (\<lambda>r. case r of Some x \<Rightarrow> Inr (w1, Some x) | None \<Rightarrow> sm_round call meth args accept srvs w1))"

partial_function (option) sm_loop :: "('w, 'e) transport \<Rightarrow> ('w \<Rightarrow> 'w) \<Rightarrow> string \<Rightarrow> wire \<Rightarrow> (wire \<Rightarrow> 'a option res) \<Rightarrow> 'e list \<Rightarrow> 'w
    \<Rightarrow> ('w \<times> 'a) res option" where
  "sm_loop call sleep meth args accept srvs w =
     (case sm_round call meth args accept srvs w of
        Inl f \<Rightarrow> Some (Inl f)
      | Inr (w1, Some x) \<Rightarrow> Some (Inr (w1, x))
      | Inr (w1, None) \<Rightarrow> sm_loop call sleep meth args accept srvs (sleep w1))"

declare sm_loop.simps [code]

definition take_query :: "wire \<Rightarrow> Config option res" where
  "take_query m = (case m of RQuery r \<Rightarrow> Inr (if WrongLeader r = False then Some (qrConfig r) else None) | _ \<Rightarrow> Inl decode_error)"

definition take_join :: "wire \<Rightarrow> unit option res" where
  "take_join m = (case m of RJoin r \<Rightarrow> Inr (if WrongLeader r = False then Some () else None) | _ \<Rightarrow> Inl decode_error)"

definition take_leave :: "wire \<Rightarrow> unit option res" where
  "take_leave m = (case m of RLeave r \<Rightarrow> Inr (if WrongLeader r = False then Some () else None) | _ \<Rightarrow> Inl decode_error)"

definition take_move :: "wire \<Rightarrow> unit option res" where
  "take_move m = (case m of RMove r \<Rightarrow> Inr (if WrongLeader r = False then Some () else None) | _ \<Rightarrow> Inl decode_error)"

definition Query :: "('w, 'e) transport \<Rightarrow> ('w \<Rightarrow> 'w) \<Rightarrow> 'e sm_Clerk \<Rightarrow> int \<Rightarrow> 'w \<Rightarrow> ('w \<times> Config) res option" where
  "Query call sleep ck num w =
     (let args = WQuery \<lparr>qNum = num\<rparr> in sm_loop call sleep ''ShardMaster.Query'' args take_query (ck_servers ck) w)"

definition Join_ck :: "('w, 'e) transport \<Rightarrow> ('w \<Rightarrow> 'w) \<Rightarrow> 'e sm_Clerk \<Rightarrow> (int \<Rightarrow> string list option) \<Rightarrow> 'w \<Rightarrow> ('w \<times> unit) res option" where
  "Join_ck call sleep ck srvs w =
     (let args = WJoin \<lparr>jServers = srvs\<rparr> in sm_loop call sleep ''ShardMaster.Join'' args take_join (ck_servers ck) w)"

definition Leave_ck :: "('w, 'e) transport \<Rightarrow> ('w \<Rightarrow> 'w) \<Rightarrow> 'e sm_Clerk \<Rightarrow> int list \<Rightarrow> 'w \<Rightarrow> ('w \<times> unit) res option" where
  "Leave_ck call sleep ck gids w =
     (let args = WLeave \<lparr>GIDs = gids\<rparr> in sm_loop call sleep ''ShardMaster.Leave'' args take_leave (ck_servers ck) w)"

definition Move_ck :: "('w, 'e) transport \<Rightarrow> ('w \<Rightarrow> 'w) \<Rightarrow> 'e sm_Clerk \<Rightarrow> int \<Rightarrow> int \<Rightarrow> 'w \<Rightarrow> ('w \<times> unit) res option" where
  "Move_ck call sleep ck shard gid w =
     (let args = WMove \<lparr>mvShard = shard, mvGID = gid\<rparr> in sm_loop call sleep ''ShardMaster.Move'' args take_move (ck_servers ck) w)"

section \<open>The key-value clerk\<close>

definition key2shard :: "string \<Rightarrow> int" where
  "key2shard k = (let shard = (if length k > 0 then int (of_char (k ! 0)) else 0) in shard mod NShards)"

record 'e kv_Clerk =
  kck_sm :: "'e sm_Clerk"
  kck_config :: Config

text \<open>A new clerk has the zero configuration: no shard is assigned and no group known.\<close>

definition zero_Config :: Config where
  "zero_Config = \<lparr>cfgNum = 0, Shards = replicate (nat NShards) 0, Groups = Map.empty\<rparr>"

definition kv_MakeClerk :: "'e list \<Rightarrow> 'e kv_Clerk" where
  "kv_MakeClerk masters = \<lparr>kck_sm = sm_MakeClerk masters, kck_config = zero_Config\<rparr>"

text \<open>What the loop over the servers of a group does with a reply.\<close>

datatype 'a verdict = ReturnWith 'a | BreakLoop | TryNext

fun kv_try :: "('w, 'e) transport \<Rightarrow> (string \<Rightarrow> 'w \<Rightarrow> ('w \<times> 'e) res) \<Rightarrow> string \<Rightarrow> wire \<Rightarrow> (wire \<Rightarrow> 'a verdict res) \<Rightarrow> string list \<Rightarrow> 'w
    \<Rightarrow> ('w \<times> 'a option) res" where
  "kv_try call make_end meth args judge [] w = Inr (w, None)"
| "kv_try call make_end meth args judge (s # ss) w =
     rbind (make_end s w) (\<lambda>(w0, srv).
     rbind (call w0 srv meth args) (\<lambda>(w1, rep).
     case rep of
       None \<Rightarrow> kv_try call make_end meth args judge ss w1
     | Some m \<Rightarrow> rbind (judge m) (\<lambda>v.
         case v of
           ReturnWith x \<Rightarrow> Inr (w1, Some x)
         | BreakLoop \<Rightarrow> Inr (w1, None)
         | TryNext \<Rightarrow> kv_try call make_end meth args judge ss w1)))"

text \<open>The body of the loop up to the pause: look up the group of the key's shard and try its servers.\<close>

definition kv_ask :: "('w, 'e) transport \<Rightarrow> (string \<Rightarrow> 'w \<Rightarrow> ('w \<times> 'e) res) \<Rightarrow> string \<Rightarrow> wire \<Rightarrow> (wire \<Rightarrow> 'a verdict res) \<Rightarrow> string \<Rightarrow> Config \<Rightarrow> 'w
    \<Rightarrow> ('w \<times> 'a option) res" where
  "kv_ask call make_end meth args judge k cfg w =
     (let shard = key2shard k in
      rbind (slice_get (Shards cfg) shard) (\<lambda>gid.
      case Groups cfg gid of
        Some srvs \<Rightarrow> kv_try call make_end meth args judge srvs w
      | None \<Rightarrow> Inr (w, None)))"

partial_function (option) kv_loop :: "('w, 'e) transport \<Rightarrow> ('w \<Rightarrow> 'w) \<Rightarrow> (string \<Rightarrow> 'w \<Rightarrow> ('w \<times> 'e) res) \<Rightarrow> string \<Rightarrow> wire
    \<Rightarrow> (wire \<Rightarrow> 'a verdict res) \<Rightarrow> string \<Rightarrow> 'e kv_Clerk \<Rightarrow> 'w \<Rightarrow> ('w \<times> 'e kv_Clerk \<times> 'a) res option" where
  "kv_loop call sleep make_end meth args judge k ck w =
     (case kv_ask call make_end meth args judge k (kck_config ck) w of
        Inl f \<Rightarrow> Some (Inl f)
      | Inr (w1, Some x) \<Rightarrow> Some (Inr (w1, ck, x))
      | Inr (w1, None) \<Rightarrow>
          Option.bind (Query call sleep (kck_sm ck) (-1) (sleep w1)) (\<lambda>q.
          case q of
            Inl f \<Rightarrow> Some (Inl f)
          | Inr (w2, cfg) \<Rightarrow> kv_loop call sleep make_end meth args judge k (ck\<lparr>kck_config := cfg\<rparr>) w2))"

declare kv_loop.simps [code]

definition judge_get :: "wire \<Rightarrow> string verdict res" where
  "judge_get m =
     (case m of
        RGet reply \<Rightarrow>
          Inr (if gErr reply = ''OK'' \<or> gErr reply = ''ErrNoKey'' then ReturnWith (gValue reply)
               else if gErr reply = ''ErrWrongGroup'' then BreakLoop else TryNext)
      | _ \<Rightarrow> Inl decode_error)"

definition judge_put :: "wire \<Rightarrow> unit verdict res" where
  "judge_put m =
     (case m of
        RPutAppend reply \<Rightarrow>
          Inr (if paErr reply = ''OK'' then ReturnWith ()
               else if paErr reply = ''ErrWrongGroup'' then BreakLoop else TryNext)
      | _ \<Rightarrow> Inl decode_error)"

definition Get_ck :: "('w, 'e) transport \<Rightarrow> ('w \<Rightarrow> 'w) \<Rightarrow> (string \<Rightarrow> 'w \<Rightarrow> ('w \<times> 'e) res) \<Rightarrow> 'e kv_Clerk \<Rightarrow> string \<Rightarrow> 'w
    \<Rightarrow> ('w \<times> 'e kv_Clerk \<times> string) res option" where
  "Get_ck call sleep make_end ck k w = kv_loop call sleep make_end ''ShardKV.Get'' (WGet \<lparr>gKey = k\<rparr>) judge_get k ck w"

definition PutAppend_ck :: "('w, 'e) transport \<Rightarrow> ('w \<Rightarrow> 'w) \<Rightarrow> (string \<Rightarrow> 'w \<Rightarrow> ('w \<times> 'e) res) \<Rightarrow> 'e kv_Clerk \<Rightarrow> string \<Rightarrow> string \<Rightarrow> string
    \<Rightarrow> 'w \<Rightarrow> ('w \<times> 'e kv_Clerk \<times> unit) res option" where
  "PutAppend_ck call sleep make_end ck k v opn w =
     kv_loop call sleep make_end ''ShardKV.PutAppend'' (WPutAppend \<lparr>paKey = k, paValue = v, paOp = opn\<rparr>) judge_put k ck w"

definition Put_ck :: "('w, 'e) transport \<Rightarrow> ('w \<Rightarrow> 'w) \<Rightarrow> (string \<Rightarrow> 'w \<Rightarrow> ('w \<times> 'e) res) \<Rightarrow> 'e kv_Clerk \<Rightarrow> string \<Rightarrow> string
    \<Rightarrow> 'w \<Rightarrow> ('w \<times> 'e kv_Clerk \<times> unit) res option" where
  "Put_ck call sleep make_end ck k v w = PutAppend_ck call sleep make_end ck k v ''Put'' w"

definition Append_ck :: "('w, 'e) transport \<Rightarrow> ('w \<Rightarrow> 'w) \<Rightarrow> (string \<Rightarrow> 'w \<Rightarrow> ('w \<times> 'e) res) \<Rightarrow> 'e kv_Clerk \<Rightarrow> string \<Rightarrow> string
    \<Rightarrow> 'w \<Rightarrow> ('w \<times> 'e kv_Clerk \<times> unit) res option" where
  "Append_ck call sleep make_end ck k v w = PutAppend_ck call sleep make_end ck k v ''Append'' w"

section \<open>When the shard master's clerk returns\<close>

text \<open>\<open>settled k w\<close>: round number \<open>k\<close>, counted from the state \<open>w\<close>, ends the loop.\<close>

primrec settled :: "('w \<Rightarrow> ('w \<times> 'a option) res) \<Rightarrow> ('w \<Rightarrow> 'w) \<Rightarrow> nat \<Rightarrow> 'w \<Rightarrow> bool" where
  "settled rnd sleep 0 w \<longleftrightarrow> (case rnd w of Inr (_, None) \<Rightarrow> False | _ \<Rightarrow> True)"
| "settled rnd sleep (Suc k) w \<longleftrightarrow> (case rnd w of Inr (w1, None) \<Rightarrow> settled rnd sleep k (sleep w1) | _ \<Rightarrow> False)"

lemma settled_returns:
  "settled (sm_round call meth args accept srvs) sleep k w \<Longrightarrow> \<exists>y. sm_loop call sleep meth args accept srvs w = Some y"
proof (induction k arbitrary: w)
  case 0
  then show ?case by (subst sm_loop.simps) (auto split: sum.splits option.splits)
next
  case (Suc k)
  then show ?case by (subst sm_loop.simps) (auto split: sum.splits option.splits)
qed

lemma sm_loop_settled:
  "sm_loop call sleep meth args accept srvs w = Some y \<Longrightarrow> \<exists>k. settled (sm_round call meth args accept srvs) sleep k w"
proof (induction arbitrary: rule: sm_loop.raw_induct [rotated 1, consumes 1])
  case (1 loop call sleep meth args accept srvs w y)
  show ?case
  proof (cases "settled (sm_round call meth args accept srvs) sleep 0 w")
    case False
    then obtain w1 where w1: "sm_round call meth args accept srvs w = Inr (w1, None)" by (auto split: sum.splits option.splits)
    with 1(2) have "loop call sleep meth args accept srvs (sleep w1) = Some y" by simp
    from 1(1) [OF this] obtain k where "settled (sm_round call meth args accept srvs) sleep k (sleep w1)" by blast
    with w1 show ?thesis by (intro exI [of _ "Suc k"]) simp
  qed blast
qed


lemma sm_round_answer:
  "sm_round call meth args accept srvs w = Inr (w', Some x) \<Longrightarrow>
   \<exists>w1 srv m. srv \<in> set srvs \<and> call w1 srv meth args = Inr (w', Some m) \<and> accept m = Inr (Some x)"
proof (induction srvs arbitrary: w)
  case (Cons srv srvs)
  then obtain w1 rep where c: "call w srv meth args = Inr (w1, rep)" by (auto simp: rbind_eq_Inr)
  show ?case
  proof (cases "\<exists>m. rep = Some m \<and> accept m = Inr (Some x)")
    case True
    then obtain m where "rep = Some m" "accept m = Inr (Some x)" by blast
    moreover from this Cons.prems c have "w1 = w'" by simp
    ultimately show ?thesis using c by (intro exI [of _ w] exI [of _ srv] exI [of _ m]) simp
  next
    case False
    with Cons.prems c have "sm_round call meth args accept srvs w1 = Inr (w', Some x)"
      by (auto simp: rbind_eq_Inr split: option.splits)
    from Cons.IH [OF this] show ?thesis by auto
  qed
qed simp

lemma sm_loop_answer:
  "sm_loop call sleep meth args accept srvs w = Some (Inr (w', x)) \<Longrightarrow>
   \<exists>w1 srv m. srv \<in> set srvs \<and> call w1 srv meth args = Inr (w', Some m) \<and> accept m = Inr (Some x)"
proof (induction "Inr (w', x) :: ('a \<times> 'b) res" rule: sm_loop.raw_induct [rotated 1, consumes 1])
  case (1 loop call sleep meth args accept srvs w)
  then show ?case
    using sm_round_answer [of call meth args accept srvs w w' x] by (auto split: sum.splits prod.splits option.splits)
qed

section \<open>The key-value clerk's answers\<close>

lemma kv_try_answer:
  "kv_try call make_end meth args judge ss w = Inr (w', Some x) \<Longrightarrow>
   \<exists>s w0 w1 srv m. s \<in> set ss \<and> make_end s w0 = Inr (w1, srv) \<and> call w1 srv meth args = Inr (w', Some m) \<and> judge m = Inr (ReturnWith x)"
proof (induction ss arbitrary: w)
  case (Cons s ss)
  then obtain w0 srv w1 rep where c: "make_end s w = Inr (w0, srv)" "call w0 srv meth args = Inr (w1, rep)"
    by (auto simp: rbind_eq_Inr)
  show ?case
  proof (cases "\<exists>m. rep = Some m \<and> judge m = Inr (ReturnWith x)")
    case True
    then obtain m where "rep = Some m" "judge m = Inr (ReturnWith x)" by blast
    moreover from this Cons.prems c have "w1 = w'" by simp
    ultimately show ?thesis using c by (intro exI [of _ s] exI [of _ w] exI [of _ w0] exI [of _ srv] exI [of _ m]) simp
  next
    case False
    have "kv_try call make_end meth args judge ss w1 = Inr (w', Some x)"
    proof (cases rep)
      case None
      with Cons.prems c show ?thesis by simp
    next
      case (Some m)
      with Cons.prems c obtain v where v: "judge m = Inr v" by (auto simp: rbind_eq_Inr)
      with Some False Cons.prems c show ?thesis by (cases v) simp_all
    qed
    from Cons.IH [OF this] show ?thesis unfolding list.set(2) insert_iff by blast
  qed
qed simp

definition group_servers :: "Config \<Rightarrow> string \<Rightarrow> string list" where
  "group_servers cfg k = (case slice_get (Shards cfg) (key2shard k) of
     Inl _ \<Rightarrow> [] | Inr gid \<Rightarrow> (case Groups cfg gid of None \<Rightarrow> [] | Some srvs \<Rightarrow> srvs))"

lemma kv_ask_answer:
  "kv_ask call make_end meth args judge k cfg w = Inr (w', Some x) \<Longrightarrow>
   \<exists>s w0 w1 srv m. s \<in> set (group_servers cfg k) \<and> make_end s w0 = Inr (w1, srv) \<and>
     call w1 srv meth args = Inr (w', Some m) \<and> judge m = Inr (ReturnWith x)"
  using kv_try_answer [of call make_end meth args judge _ w w' x]
  by (auto simp: kv_ask_def group_servers_def Let_def rbind_eq_Inr split: option.splits)

lemma kv_loop_answer:
  "kv_loop call sleep make_end meth args judge k ck w = Some (Inr (w', ck', x)) \<Longrightarrow>
   \<exists>s w0 w1 srv m. s \<in> set (group_servers (kck_config ck') k) \<and> make_end s w0 = Inr (w1, srv) \<and>
     call w1 srv meth args = Inr (w', Some m) \<and> judge m = Inr (ReturnWith x)"
proof (induction "Inr (w', ck', x) :: ('a \<times> 'b kv_Clerk \<times> 'c) res" rule: kv_loop.raw_induct [rotated 1, consumes 1])
  case (1 loop call sleep make_end meth args judge k ck w)
  then show ?case
    using kv_ask_answer [of call make_end meth args judge k "kck_config ck" w w' x]
    by (auto split: sum.splits prod.splits option.splits bind_splits)
qed


section \<open>Calls over the simulated network\<close>

text \<open>
  What the clerks rely on.  \<open>view\<close> is what a call depends on of the state of the world; \<open>up\<close> tells whether an end-point
  reaches a server, and \<open>answer\<close> what that server does.
\<close>

inductive passed_over :: "('s \<Rightarrow> 'e \<Rightarrow> bool) \<Rightarrow> ('s \<Rightarrow> 'e \<Rightarrow> string \<Rightarrow> wire \<Rightarrow> ('s \<times> wire) option) \<Rightarrow> string \<Rightarrow> wire \<Rightarrow> (wire \<Rightarrow> 'a option res)
    \<Rightarrow> 's \<Rightarrow> 'e list \<Rightarrow> 's \<Rightarrow> bool"
  for up answer meth args accept where
  nobody: "passed_over up answer meth args accept s [] s"
| unreachable: "\<not> up s e \<Longrightarrow> passed_over up answer meth args accept s es s' \<Longrightarrow> passed_over up answer meth args accept s (e # es) s'"
| refused: "answer s e meth args = Some (s1, m) \<Longrightarrow> accept m = Inr None \<Longrightarrow> passed_over up answer meth args accept s1 es s'
    \<Longrightarrow> passed_over up answer meth args accept s (e # es) s'"

lemma all_unreachable: "list_all (\<lambda>e. \<not> up s e) es \<Longrightarrow> passed_over up answer meth args accept s es s"
  by (induction es) (auto intro: passed_over.intros)

locale rpc_transport =
  fixes call :: "('w, 'e) transport"
    and view :: "'w \<Rightarrow> 's" and up :: "'s \<Rightarrow> 'e \<Rightarrow> bool" and answer :: "'s \<Rightarrow> 'e \<Rightarrow> string \<Rightarrow> wire \<Rightarrow> ('s \<times> wire) option"
  assumes call_up: "answer (view w) e meth args = Some (s', m) \<Longrightarrow> \<exists>w'. call w e meth args = Inr (w', Some m) \<and> view w' = s'"
    and call_down: "\<not> up (view w) e \<Longrightarrow> \<exists>w'. call w e meth args = Inr (w', None) \<and> view w' = view w"
begin

text \<open>A server is passed over if it cannot be reached or its answer is not final.\<close>

lemma round_passes:
  assumes "passed_over up answer meth args accept (view w) pre s"
  shows "\<exists>w'. sm_round call meth args accept (pre @ srvs) w = sm_round call meth args accept srvs w' \<and> view w' = s"
  using assms
proof (induction "view w" pre s arbitrary: w rule: passed_over.induct)
  case (unreachable e es s)
  from call_down [OF unreachable(1), of meth args] obtain w1 where w1: "call w e meth args = Inr (w1, None)" "view w1 = view w" by blast
  from unreachable(3) [OF w1(2) [symmetric]] w1(1) show ?case by auto
next
  case (refused e s1 m es s)
  from call_up [OF refused(1)] obtain w1 where w1: "call w e meth args = Inr (w1, Some m)" "view w1 = s1" by blast
  from refused(4) [OF w1(2) [symmetric]] w1(1) refused(2) show ?case by auto
qed auto

text \<open>The first server that accepts decides.\<close>

lemma loop_first_accepts:
  assumes "passed_over up answer meth args accept (view w) pre s" and "answer s srv meth args = Some (s', m)" and "accept m = Inr (Some x)"
  shows "\<exists>w'. sm_loop call sleep meth args accept (pre @ srv # post) w = Some (Inr (w', x)) \<and> view w' = s'"
proof -
  from round_passes [OF assms(1)] obtain w1 where
    w1: "sm_round call meth args accept (pre @ srv # post) w = sm_round call meth args accept (srv # post) w1" "view w1 = s" by blast
  have "answer (view w1) srv meth args = Some (s', m)" using assms(2) w1(2) by simp
  from call_up [OF this] obtain w2 where "call w1 srv meth args = Inr (w2, Some m)" "view w2 = s'" by blast
  then have "sm_round call meth args accept (pre @ srv # post) w = Inr (w2, Some x)" "view w2 = s'" using assms(3) w1(1) by simp_all
  then show ?thesis by (subst sm_loop.simps) simp
qed

text \<open>If all are passed over, the loop starts again after the pause.\<close>

lemma loop_next_round:
  assumes "passed_over up answer meth args accept (view w) srvs s"
  shows "\<exists>w'. sm_loop call sleep meth args accept srvs w = sm_loop call sleep meth args accept srvs (sleep w') \<and> view w' = s"
proof -
  from round_passes [OF assms, of "[]"] obtain w' where "sm_round call meth args accept srvs w = Inr (w', None)" "view w' = s" by auto
  then show ?thesis by (subst sm_loop.simps) auto
qed

text \<open>While no server can be reached, the loop goes on.\<close>

lemma loop_all_down:
  assumes down: "list_all (\<lambda>e. \<not> up (view w) e) srvs" and sleep: "\<And>w. view (sleep w) = view w"
  shows "sm_loop call sleep meth args accept srvs w = None"
proof -
  have rnd: "\<exists>w'. sm_round call meth args accept srvs w = Inr (w', None) \<and> view w' = view w" if "list_all (\<lambda>e. \<not> up (view w) e) srvs" for w
    using round_passes [where srvs = "[]", OF all_unreachable [of up "view w" srvs, OF that]] by auto
  have "\<not> settled (sm_round call meth args accept srvs) sleep k w" if "list_all (\<lambda>e. \<not> up (view w) e) srvs" for k w
    using that
  proof (induction k arbitrary: w)
    case (Suc k)
    from rnd [OF Suc.prems] obtain w' where w': "sm_round call meth args accept srvs w = Inr (w', None)" "view w' = view w" by blast
    with Suc.prems sleep have "list_all (\<lambda>e. \<not> up (view (sleep w')) e) srvs" by simp
    from Suc.IH [OF this] w'(1) show ?case by simp
  qed (use rnd in force)
  with down sm_loop_settled [of call sleep meth args accept srvs w] show ?thesis by (cases "sm_loop call sleep meth args accept srvs w") auto
qed

end

text \<open>
  \<open>net_call\<close>: \<open>Call\<close> while nothing else happens.  \<open>rolls\<close> are the random numbers that \<open>processReq\<close> draws for each request, which on an unreliable
  network can drop the request or the reply, and delay the reply on one with long reorderings.  Once the network
  has stopped listening the call gives up.
\<close>

definition net_call :: "'v codec \<Rightarrow> (nat \<Rightarrow> nat \<times> nat \<times> nat) \<Rightarrow> ('e, 'n, 'o, 'v) world \<Rightarrow> 'e \<Rightarrow> string \<Rightarrow> 'v
    \<Rightarrow> (('e, 'n, 'o, 'v) world \<times> 'v option) res" where
  "net_call K rolls w en meth args =
     (if \<not> w_listening w then Inr (w, None)
      else
        (let req = call_request K en meth args; i = length (w_reqs w); (roll, roll', reorder) = rolls i
         in case rpc_run K [Submit req, Begin i roll] w of
              None \<Rightarrow> Inl (Panic ''no such step'')
            | Some (Inl f) \<Rightarrow> Inl f
            | Some (Inr w1) \<Rightarrow>
                (let evs = (if q_spawned (w_reqs w1 ! i) = None then [Timer i] else [Handle i, TakeReply i, FinishReq i roll' reorder, Timer i])
                 in case rpc_run K evs w1 of
                      None \<Rightarrow> Inl (Panic ''no such step'')
                    | Some (Inl f) \<Rightarrow> Inl f
                    | Some (Inr w') \<Rightarrow>
                        (case q_status (w_reqs w' ! i) of
                           Done rep \<Rightarrow> rbind (call_return K rep) (\<lambda>(ok, v). Inr (w', v))
                         | _ \<Rightarrow> Inl (Panic ''no reply'')))))"

text \<open>The services of the servers, and what of a network a call depends on; \<open>(d, rel, \<dots>)\<close>: not listening, reliable.\<close>

type_synonym ('o, 'v) stores = "(string \<Rightarrow> ('o, 'v) Service option) list"

type_synonym ('e, 'n, 'o, 'v) net_view =
  "bool \<times> bool \<times> ('e \<Rightarrow> bool) \<times> ('e \<Rightarrow> 'n option) \<times> ('n \<Rightarrow> nat option) \<times> ('o, 'v) stores"

definition net_view :: "('e, 'n, 'o, 'v) world \<Rightarrow> ('e, 'n, 'o, 'v) net_view" where
  "net_view w = (\<not> w_listening w, reliable (w_net w), enabled (w_net w), connections (w_net w), servers (w_net w), map services (w_store w))"

fun net_target :: "('e, 'n, 'o, 'v) net_view \<Rightarrow> 'e \<Rightarrow> nat option" where
  "net_target (d, rel, en, cns, sv, st) e = (if d \<or> \<not> en e then None else case cns e of None \<Rightarrow> None | Some sn \<Rightarrow> sv sn)"

definition net_up :: "('e, 'n, 'o, 'v) net_view \<Rightarrow> 'e \<Rightarrow> bool" where
  "net_up v e \<longleftrightarrow> net_target v e \<noteq> None"

fun net_answer :: "'v codec \<Rightarrow> ('e, 'n, 'o, 'v) net_view \<Rightarrow> 'e \<Rightarrow> string \<Rightarrow> 'v \<Rightarrow> (('e, 'n, 'o, 'v) net_view \<times> 'v) option" where
  "net_answer K (d, rel, en, cns, sv, st) e meth args =
     (case net_target (d, rel, en, cns, sv, st) e of
        None \<Rightarrow> None
      | Some a \<Rightarrow>
          (let dot = LastIndex_dot meth; sname = take (nat dot) meth; mname = drop (nat (dot + 1)) meth in
           if rel \<and> a < length st \<and> 0 \<le> dot then
             (case (st ! a) sname of
                None \<Rightarrow> None
              | Some svc \<Rightarrow>
                  (case sv_methods svc mname of
                     None \<Rightarrow> None
                   | Some f \<Rightarrow>
                       (let (o', r) = f (sv_rcvr svc) (fst (c_decode K (c_encode K args)));
                            (r', ok) = c_decode K (c_encode K r)
                        in if ok then Some ((d, rel, en, cns, sv, st[a := (st ! a)(sname \<mapsto> svc\<lparr>sv_rcvr := o'\<rparr>)]), r') else None)))
           else None))"

lemmas net_run_simps = rpc_step_def accept_req_def add_bytes_def proc_begin_def readEndnameInfo_def Let_def call_request_def
  proc_finish_def isServerDead_def call_return_def nth_append list_update_append proc_timer_def no_reply_def

lemma net_call_down:
  assumes "\<not> net_up (net_view w) e"
  shows "\<exists>w'. net_call K rolls w e meth args = Inr (w', None) \<and> net_view w' = net_view w"
proof (cases "w_listening w")
  case True
  with assms have "\<not> reachable_end e (w_net w)"
    by (auto simp: net_up_def net_view_def reachable_end_def split: option.splits)
  moreover obtain r1 r2 r3 where "rolls (length (w_reqs w)) = (r1, r2, r3)" by (cases "rolls (length (w_reqs w))")
  ultimately show ?thesis using True
    by (auto simp: net_call_def net_run_simps net_view_def reachable_end_def split: option.splits bool.splits)
qed (simp add: net_call_def)

lemma net_call_up:
  assumes "net_answer K (net_view w) e meth args = Some (v', m)"
  shows "\<exists>w'. net_call K rolls w e meth args = Inr (w', Some m) \<and> net_view w' = v'"
proof -
  let ?dot = "LastIndex_dot meth"
  let ?sname = "take (nat ?dot) meth" and ?mname = "drop (nat (?dot + 1)) meth" and ?req = "call_request K e meth args"
  obtain r1 r2 r3 where rl: "rolls (length (w_reqs w)) = (r1, r2, r3)" by (cases "rolls (length (w_reqs w))")
  from assms obtain sn a svc f where nd: "w_listening w" "reliable (w_net w)" "enabled (w_net w) e" "connections (w_net w) e = Some sn" "servers (w_net w) sn = Some a"
    and a: "a < length (w_store w)" "0 \<le> ?dot" "services (w_store w ! a) ?sname = Some svc" "sv_methods svc ?mname = Some f"
    by (auto simp: net_view_def Let_def split: option.splits if_splits)
  obtain o' r where f: "f (sv_rcvr svc) (fst (c_decode K (c_encode K args))) = (o', r)" by (cases "f (sv_rcvr svc) (fst (c_decode K (c_encode K args)))")
  from assms nd a f have m: "c_decode K (c_encode K r) = (m, True)"
    and v': "v' = (False, True, enabled (w_net w), connections (w_net w), servers (w_net w),
        (map services (w_store w))[a := (services (w_store w ! a))(?sname \<mapsto> svc\<lparr>sv_rcvr := o'\<rparr>)])"
    by (auto simp: net_view_def Let_def split: prod.splits if_splits)
  have d: "server_dispatch K ?req (w_store w ! a) =
      Inr ((w_store w ! a)\<lparr>sv_count := sv_count (w_store w ! a) + 1, services := (services (w_store w ! a))(?sname \<mapsto> svc\<lparr>sv_rcvr := o'\<rparr>)\<rparr>,
           \<lparr>rep_ok = True, rep_bytes = c_encode K r\<rparr>)"
    using a f by (simp add: server_dispatch_def service_dispatch_def call_request_def Let_def)
  have "\<exists>w'. net_call K rolls w e meth args = Inr (w', Some m) \<and> w_listening w' \<and> reliable (w_net w') \<and> enabled (w_net w') = enabled (w_net w) \<and>
      connections (w_net w') = connections (w_net w) \<and> servers (w_net w') = servers (w_net w) \<and>
      w_store w' = (w_store w)[a := (w_store w ! a)\<lparr>sv_count := sv_count (w_store w ! a) + 1,
        services := (services (w_store w ! a))(?sname \<mapsto> svc\<lparr>sv_rcvr := o'\<rparr>)\<rparr>]"
    using nd a(1) d m by (cases "longReordering (w_net w) \<and> r3 mod 900 < 600") (auto simp: net_call_def net_run_simps rl)
  then obtain w' where w': "net_call K rolls w e meth args = Inr (w', Some m)" "w_listening w'" "reliable (w_net w')" "enabled (w_net w') = enabled (w_net w)"
      "connections (w_net w') = connections (w_net w)" "servers (w_net w') = servers (w_net w)"
      "w_store w' = (w_store w)[a := (w_store w ! a)\<lparr>sv_count := sv_count (w_store w ! a) + 1,
        services := (services (w_store w ! a))(?sname \<mapsto> svc\<lparr>sv_rcvr := o'\<rparr>)\<rparr>]" by blast
  then have "net_view w' = v'" unfolding v' by (simp add: net_view_def map_update)
  with w'(1) show ?thesis by blast
qed

interpretation net: rpc_transport "net_call K rolls" net_view net_up "net_answer K" for K :: "wire codec" and rolls
proof
  fix w e meth args s' m
  assume "net_answer K (net_view w) e meth args = Some (s', m)"
  then show "\<exists>w'. net_call K rolls w e meth args = Inr (w', Some m) \<and> net_view w' = s'" by (rule net_call_up)
next
  fix w :: "('a, 'b, 'c, wire) world" and e meth args
  assume "\<not> net_up (net_view w) e"
  then show "\<exists>w'. net_call K rolls w e meth args = Inr (w', None) \<and> net_view w' = net_view w" by (rule net_call_down)
qed

lemma LastIndex_Query: "LastIndex_dot ''ShardMaster.Query'' = 11"
  by (simp add: LastIndex_dot_def)

section \<open>Queries over the network\<close>

definition leads_to :: "('e, 'n) Network \<Rightarrow> 'e \<Rightarrow> nat \<Rightarrow> bool" where
  "leads_to rn e a \<longleftrightarrow> enabled rn e \<and> (\<exists>sn. connections rn e = Some sn \<and> servers rn sn = Some a)"

text \<open>Server \<open>a\<close> answers the query with \<open>r\<close>, which the codec decodes as it was encoded; the handler may change the state of its receiver.\<close>

definition serves :: "wire codec \<Rightarrow> int \<Rightarrow> ('o, wire) stores \<Rightarrow> nat \<Rightarrow> QueryReply \<Rightarrow> ('o, wire) stores \<Rightarrow> bool" where
  "serves K num st a r st' \<longleftrightarrow> a < length st \<and> c_decode K (c_encode K (RQuery r)) = (RQuery r, True) \<and>
     (\<exists>svc f o'. (st ! a) ''ShardMaster'' = Some svc \<and> sv_methods svc ''Query'' = Some f \<and>
        f (sv_rcvr svc) (WQuery \<lparr>qNum = num\<rparr>) = (o', RQuery r) \<and> st' = st[a := (st ! a)(''ShardMaster'' \<mapsto> svc\<lparr>sv_rcvr := o'\<rparr>)])"

text \<open>Each of the servers is unreachable, or is reached and says that it is not the leader.\<close>

inductive turned_away :: "wire codec \<Rightarrow> ('e, 'n) Network \<Rightarrow> int \<Rightarrow> 'e list \<Rightarrow> ('o, wire) stores \<Rightarrow> ('o, wire) stores \<Rightarrow> bool"
  for K :: "wire codec" and rn :: "('e, 'n) Network" and num :: int where
  nobody_asked: "turned_away K rn num [] st st"
| not_reached: "\<not> reachable_end e rn \<Longrightarrow> turned_away K rn num es st st' \<Longrightarrow> turned_away K rn num (e # es) st st'"
| wrong_leader: "leads_to rn e a \<Longrightarrow> serves K num st a r st1 \<Longrightarrow> WrongLeader r \<Longrightarrow> turned_away K rn num es st1 st'
    \<Longrightarrow> turned_away K rn num (e # es) st st'"

definition view_of :: "('e, 'n) Network \<Rightarrow> ('o, wire) stores \<Rightarrow> ('e, 'n, 'o, wire) net_view" where
  "view_of rn st = (False, True, enabled rn, connections rn, servers rn, st)"

definition query_codec :: "wire codec \<Rightarrow> int \<Rightarrow> bool" where
  "query_codec K num \<longleftrightarrow> c_decode K (c_encode K (WQuery \<lparr>qNum = num\<rparr>)) = (WQuery \<lparr>qNum = num\<rparr>, True)"

lemma net_answer_serves:
  assumes "query_codec K num" and "leads_to rn e a" and "serves K num st a r st'"
  shows "net_answer K (view_of rn st) e ''ShardMaster.Query'' (WQuery \<lparr>qNum = num\<rparr>) = Some (view_of rn st', RQuery r)"
  using assms by (auto simp: query_codec_def leads_to_def serves_def view_of_def LastIndex_Query Let_def)

lemma turned_away_passed_over:
  assumes "query_codec K num" and "turned_away K rn num es st st'"
  shows "passed_over net_up (net_answer K) ''ShardMaster.Query'' (WQuery \<lparr>qNum = num\<rparr>) take_query (view_of rn st) es (view_of rn st')"
  using assms(2)
proof (induction rule: turned_away.induct)
  case (not_reached e es st st')
  have "\<not> net_up (view_of rn st) e"
    using not_reached(1) by (auto simp: net_up_def view_of_def reachable_end_def split: option.splits)
  with not_reached(3) show ?case by (intro passed_over.unreachable)
next
  case (wrong_leader e a st r st1 es st')
  have "take_query (RQuery r) = Inr None" using wrong_leader(3) by (simp add: take_query_def)
  from passed_over.refused [where accept = take_query, OF net_answer_serves [OF assms(1) wrong_leader(1,2)] this wrong_leader(5)] show ?case .
qed (rule passed_over.nobody)

section \<open>Properties\<close>

definition zero_QueryReply :: QueryReply where
  "zero_QueryReply = \<lparr>WrongLeader = False, smErr = [], qrConfig = zero_Config\<rparr>"

text \<open>
  Two shard masters, each counting the queries it gets: the one behind \<open>f\<close> says that it is not the leader, the one behind
  \<open>m\<close> leaves the reply as it is, as the unfinished \<open>ShardMaster.Query\<close> of the repository does.
\<close>

definition demo_master :: "bool \<Rightarrow> (nat, wire) Service" where
  "demo_master wrong = \<lparr>sv_name = ''ShardMaster'', sv_rcvr = 0,
     sv_methods = [''Query'' \<mapsto> (\<lambda>s a. (s + 1, RQuery (zero_QueryReply\<lparr>WrongLeader := wrong\<rparr>)))]\<rparr>"

definition query_demo_codec :: "wire codec" where
  "query_demo_codec = \<lparr>c_encode = (\<lambda>v. case v of RQuery r \<Rightarrow> [if WrongLeader r then 2 else 1] | _ \<Rightarrow> [0]),
     c_decode = (\<lambda>b. (if b = [0] then WQuery \<lparr>qNum = -1\<rparr> else RQuery (zero_QueryReply\<lparr>WrongLeader := (b = [2])\<rparr>), True))\<rparr>"

definition master_world :: "(string, nat, nat, wire) world" where
  "master_world = \<lparr>w_net = Reliable True (Enable ''f'' True (Enable ''m'' True (Connect ''f'' 0 (Connect ''m'' 1 (AddServer 0 0 (AddServer 1 1 MakeNetwork)))))),
     w_store = [AddService (demo_master True) MakeServer, AddService (demo_master False) MakeServer], w_reqs = [], w_listening = True\<rparr>"

lemmas master_world_defs = master_world_def Reliable_def Enable_def Connect_def AddServer_def MakeNetwork_def AddService_def MakeServer_def

text \<open>
  C33. Over the simulated network, when it is reliable and whatever random numbers it draws, \<open>Query\<close> asks the servers in turn.  It passes over those
  it cannot reach and those that answer that they are not the leader, and returns the configuration that the first other one sends;
  the handlers run on the number the clerk asked for, each server that is reached runs its handler once, and no later server
  is asked.  If all servers are passed over, it pauses and starts again from the state they left.
\<close>

theorem Query_over_network:
  assumes "query_codec K num" and "w_listening w" and "reliable (w_net w)"
  shows "(turned_away K (w_net w) num pre (map services (w_store w)) st \<and> leads_to (w_net w) srv a \<and> serves K num st a r st' \<and> \<not> WrongLeader r \<longrightarrow>
       (\<exists>w'. Query (net_call K rolls) sleep (sm_MakeClerk (pre @ srv # post)) num w = Some (Inr (w', qrConfig r)) \<and>
          map services (w_store w') = st')) \<and>
     (turned_away K (w_net w) num srvs (map services (w_store w)) st \<longrightarrow>
       (\<exists>w'. Query (net_call K rolls) sleep (sm_MakeClerk srvs) num w = Query (net_call K rolls) sleep (sm_MakeClerk srvs) num (sleep w') \<and>
          map services (w_store w') = st))"
proof (intro conjI impI)
  have v: "net_view w = view_of (w_net w) (map services (w_store w))" using assms(2,3) by (simp add: net_view_def view_of_def)
  have st: "map services (w_store w') = st'" if "net_view w' = view_of rn st'" for w' :: "('a, 'b, 'c, wire) world" and rn st'
    using that by (simp add: net_view_def view_of_def)
  note away = turned_away_passed_over [OF assms(1), of "w_net w" _ "map services (w_store w)"]
  {
    assume a: "turned_away K (w_net w) num pre (map services (w_store w)) st \<and> leads_to (w_net w) srv a \<and> serves K num st a r st' \<and> \<not> WrongLeader r"
    have acc: "take_query (RQuery r) = Inr (Some (qrConfig r))" using a by (simp add: take_query_def)
    have "passed_over net_up (net_answer K) ''ShardMaster.Query'' (WQuery \<lparr>qNum = num\<rparr>) take_query (net_view w) pre (view_of (w_net w) st)"
      unfolding v using a away by blast
    from net.loop_first_accepts [OF this net_answer_serves [OF assms(1), of "w_net w" srv a st r st'] acc, of rolls sleep post] a st
    show "\<exists>w'. Query (net_call K rolls) sleep (sm_MakeClerk (pre @ srv # post)) num w = Some (Inr (w', qrConfig r)) \<and>
          map services (w_store w') = st'" by (auto simp: Query_def sm_MakeClerk_def)
  }
  assume "turned_away K (w_net w) num srvs (map services (w_store w)) st"
  then have "passed_over net_up (net_answer K) ''ShardMaster.Query'' (WQuery \<lparr>qNum = num\<rparr>) take_query (net_view w) srvs (view_of (w_net w) st)"
    unfolding v using away by blast
  from net.loop_next_round [OF this, of rolls sleep] st
  show "\<exists>w'. Query (net_call K rolls) sleep (sm_MakeClerk srvs) num w = Query (net_call K rolls) sleep (sm_MakeClerk srvs) num (sleep w') \<and>
      map services (w_store w') = st" by (auto simp: Query_def sm_MakeClerk_def)
qed

theorem Query_over_network_witness:
  "\<exists>w'. Query (net_call query_demo_codec (\<lambda>_. (0, 0, 0))) (\<lambda>w. w) (sm_MakeClerk [''down'', ''f'', ''m'', ''f'']) (-1) master_world = Some (Inr (w', zero_Config)) \<and>
     map (\<lambda>st. map_option sv_rcvr (st ''ShardMaster'')) (map services (w_store w')) = [Some 1, Some 1]"
proof -
  let ?K = query_demo_codec and ?rn = "w_net master_world"
  let ?st = "\<lambda>i j. [[''ShardMaster'' \<mapsto> (demo_master True)\<lparr>sv_rcvr := i\<rparr>], [''ShardMaster'' \<mapsto> (demo_master False)\<lparr>sv_rcvr := j\<rparr>]] :: (nat, wire) stores"
  have codec: "query_codec ?K (-1)" by (simp add: query_codec_def query_demo_codec_def)
  have start: "map services (w_store master_world) = ?st 0 0" by (simp add: master_world_defs demo_master_def)
  have f: "serves ?K (-1) (?st 0 0) 0 (zero_QueryReply\<lparr>WrongLeader := True\<rparr>) (?st 1 0)"
    and m: "serves ?K (-1) (?st 1 0) 1 (zero_QueryReply\<lparr>WrongLeader := False\<rparr>) (?st 1 1)"
    by (simp_all add: serves_def query_demo_codec_def demo_master_def)
  have net: "\<not> reachable_end ''down'' ?rn" "leads_to ?rn ''f'' 0" "leads_to ?rn ''m'' 1" "reliable ?rn" "w_listening master_world"
    by (simp_all add: master_world_defs reachable_end_def leads_to_def)
  have "turned_away ?K ?rn (-1) [''down'', ''f''] (?st 0 0) (?st 1 0)"
    by (rule not_reached [OF net(1)], rule wrong_leader [OF net(2) f], simp, rule nobody_asked)
  then have "turned_away ?K ?rn (-1) [''down'', ''f''] (map services (w_store master_world)) (?st 1 0)" unfolding start .
  with m net(3) have "\<exists>w'. Query (net_call ?K (\<lambda>_. (0, 0, 0))) (\<lambda>w. w) (sm_MakeClerk ([''down'', ''f''] @ ''m'' # [''f''])) (-1) master_world =
      Some (Inr (w', qrConfig (zero_QueryReply\<lparr>WrongLeader := False\<rparr>))) \<and> map services (w_store w') = ?st 1 1"
    by (intro Query_over_network [OF codec net(5,4), THEN conjunct1, THEN mp]) simp
  then show ?thesis by (auto simp: zero_QueryReply_def demo_master_def)
qed

text \<open>
  C34. \<open>Query\<close> returns exactly if one of its rounds over the servers gets a final answer (or a fatal
  error), and a configuration it returns is one that a known server sent in answer to this query, without
  saying that it is the wrong leader.
\<close>

theorem Query_returns:
  "((\<exists>y. Query call sleep ck num w = Some y) \<longleftrightarrow>
      (\<exists>k. settled (sm_round call ''ShardMaster.Query'' (WQuery \<lparr>qNum = num\<rparr>) take_query (ck_servers ck)) sleep k w)) \<and>
   (\<forall>w' c. Query call sleep ck num w = Some (Inr (w', c)) \<longrightarrow>
      (\<exists>w1 srv r. srv \<in> set (ck_servers ck) \<and> call w1 srv ''ShardMaster.Query'' (WQuery \<lparr>qNum = num\<rparr>) = Inr (w', Some (RQuery r)) \<and>
         \<not> WrongLeader r \<and> c = qrConfig r))"
proof (intro conjI allI impI)
  show "(\<exists>y. Query call sleep ck num w = Some y) \<longleftrightarrow>
      (\<exists>k. settled (sm_round call ''ShardMaster.Query'' (WQuery \<lparr>qNum = num\<rparr>) take_query (ck_servers ck)) sleep k w)"
    unfolding Query_def Let_def by (blast intro: settled_returns dest: sm_loop_settled)
next
  fix w' c assume "Query call sleep ck num w = Some (Inr (w', c))"
  then have "sm_loop call sleep ''ShardMaster.Query'' (WQuery \<lparr>qNum = num\<rparr>) take_query (ck_servers ck) w = Some (Inr (w', c))"
    by (simp add: Query_def)
  from sm_loop_answer [OF this] obtain w1 srv m where "srv \<in> set (ck_servers ck)" "call w1 srv ''ShardMaster.Query'' (WQuery \<lparr>qNum = num\<rparr>) = Inr (w', Some m)"
      "take_query m = Inr (Some c)" by blast
  then show "\<exists>w1 srv r. srv \<in> set (ck_servers ck) \<and> call w1 srv ''ShardMaster.Query'' (WQuery \<lparr>qNum = num\<rparr>) = Inr (w', Some (RQuery r)) \<and>
         \<not> WrongLeader r \<and> c = qrConfig r"
    by (intro exI [of _ w1] exI [of _ srv]) (auto simp: take_query_def split: wire.splits if_splits)
qed

theorem Query_returns_witness:
  "\<exists>y. Query (\<lambda>w e meth args. Inr (w, Some (RQuery zero_QueryReply))) (\<lambda>w. w) (sm_MakeClerk [0 :: nat]) 3 (0 :: nat) = Some y"
  using Query_returns [of "\<lambda>w e meth args. Inr (w, Some (RQuery zero_QueryReply))" "\<lambda>w. w" "sm_MakeClerk [0 :: nat]" 3 "0 :: nat"]
  by (auto simp: sm_MakeClerk_def take_query_def zero_QueryReply_def intro: exI [of _ 0])

text \<open>
  C35. The shard of a key is one of the ten shards.  A value that \<open>Get\<close> of the key-value clerk returns was
  sent, with \<open>OK\<close> or \<open>ErrNoKey\<close>, by a server of the group that the clerk's configuration assigns the key's
  shard to.
\<close>

theorem Get_answer:
  assumes "Get_ck call sleep make_end ck k w = Some (Inr (w', ck', v))" and "length (Shards (kck_config ck')) = nat NShards"
  shows "\<exists>gid srvs s w0 w1 srv reply. 0 \<le> key2shard k \<and> key2shard k < NShards \<and> gid = Shards (kck_config ck') ! nat (key2shard k) \<and>
    Groups (kck_config ck') gid = Some srvs \<and> s \<in> set srvs \<and> make_end s w0 = Inr (w1, srv) \<and>
    call w1 srv ''ShardKV.Get'' (WGet \<lparr>gKey = k\<rparr>) = Inr (w', Some (RGet reply)) \<and>
    (gErr reply = ''OK'' \<or> gErr reply = ''ErrNoKey'') \<and> v = gValue reply"
proof -
  have b: "0 \<le> key2shard k" "key2shard k < NShards" by (simp_all add: key2shard_def NShards_def Let_def)
  from kv_loop_answer [OF assms(1) [unfolded Get_ck_def]] obtain s w0 w1 srv m where a: "s \<in> set (group_servers (kck_config ck') k)" "make_end s w0 = Inr (w1, srv)"
      "call w1 srv ''ShardKV.Get'' (WGet \<lparr>gKey = k\<rparr>) = Inr (w', Some m)" "judge_get m = Inr (ReturnWith v)" by blast
  from a(4) obtain reply where r: "m = RGet reply" "gErr reply = ''OK'' \<or> gErr reply = ''ErrNoKey''" "v = gValue reply"
    by (auto simp: judge_get_def split: wire.splits if_splits)
  let ?gid = "Shards (kck_config ck') ! nat (key2shard k)"
  have "slice_get (Shards (kck_config ck')) (key2shard k) = Inr ?gid" using b assms(2) by (simp add: slice_get_def)
  with a(1) obtain srvs where "Groups (kck_config ck') ?gid = Some srvs" "s \<in> set srvs"
    by (cases "Groups (kck_config ck') ?gid") (simp_all add: group_servers_def)
  with a r b show ?thesis by (intro exI [of _ ?gid] exI [of _ srvs] exI [of _ s] exI [of _ w0] exI [of _ w1] exI [of _ srv] exI [of _ reply]) simp
qed


definition get_config :: Config where
  "get_config = \<lparr>cfgNum = 1, Shards = replicate 10 7, Groups = [7 \<mapsto> [''s'']]\<rparr>"

theorem Get_answer_witness:
  "\<exists>w' ck'. Get_ck (\<lambda>w e meth args. Inr (w, Some (RGet \<lparr>gErr = ''OK'', gValue = ''v''\<rparr>))) (\<lambda>w. w) (\<lambda>s w. Inr (w, s))
     \<lparr>kck_sm = sm_MakeClerk [], kck_config = get_config\<rparr> ''k'' (0 :: nat) = Some (Inr (w', ck', ''v'')) \<and>
     Groups (kck_config ck') (Shards (kck_config ck') ! nat (key2shard ''k'')) = Some [''s'']"
proof -
  let ?call = "\<lambda>w (e :: string) (meth :: string) (args :: wire). Inr (w, Some (RGet \<lparr>gErr = ''OK'', gValue = ''v''\<rparr>)) :: (nat \<times> wire option) res"
  let ?ck = "\<lparr>kck_sm = sm_MakeClerk [], kck_config = get_config\<rparr> :: string kv_Clerk"
  have "key2shard ''k'' = 7" by (simp add: key2shard_def NShards_def)
  then have run: "Get_ck ?call (\<lambda>w. w) (\<lambda>s w. Inr (w, s)) ?ck ''k'' 0 = Some (Inr (0, ?ck, ''v''))"
    unfolding Get_ck_def by (subst kv_loop.simps) (simp add: kv_ask_def get_config_def slice_get_def judge_get_def Let_def)
  have "length (Shards (kck_config ?ck)) = nat NShards" by (simp add: get_config_def NShards_def)
  from Get_answer [OF run this] run show ?thesis by (auto simp: get_config_def split: if_splits)
qed

end
