(* ===== verification/ShardConfig.thy ===== *)
theory ShardConfig
  imports KvConfig MapReduce Clerks
begin

text \<open>
  The test harness of the sharded key-value service, \<^verbatim>\<open>shardkv/config.go\<close>: three shard masters and three
  groups of servers on one network, which can be shut down and restarted and join or leave through the
  shard master's clerk.

  Shard masters and servers are opaque (\<open>'m\<close>, \<open>'s\<close>), with the services made from them as arguments, and so are
  the names that \<open>randstring\<close> draws.  The groups are pointers in \<open>cfg.groups\<close>, none of them shared, so the record is kept
  in the slice; \<open>None\<close> is nil.  Server numbers are natural numbers.
\<close>

section \<open>State\<close>

record 's group =
  gid :: nat
  gservers :: "'s option list"
  gsaved :: "nat option list"
  gendnames :: "string list option list"
  gmendnames :: "string list option list"

record ('m, 's, 'o, 'v) shard_config =
  z_net :: "(string, string) Network"
  nmasters :: nat
  masterservers :: "'m option list"
  mck :: "string sm_Clerk"
  ngroups :: nat
  z_n :: nat
  groups :: "'s group option list"
  z_clerks :: "nat \<Rightarrow> string list option"
  z_nextClientId :: int
  z_maxraftstate :: int
  z_pheap :: "Persister list"
  z_sheap :: "('o, 'v) Server list"
  z_killed :: "'s list"

definition mastername :: "nat \<Rightarrow> string" where
  "mastername i = ''master'' @ Itoa i"

definition servername :: "nat \<Rightarrow> nat \<Rightarrow> string" where
  "servername g i = ''server-'' @ Itoa g @ ''-'' @ Itoa i"

text \<open>\<open>cfg.groups[gi]\<close>, dereferenced, and the write through that pointer.\<close>

definition the_group :: "nat \<Rightarrow> ('m, 's, 'o, 'v) shard_config \<Rightarrow> 's group res" where
  "the_group gi cfg = rbind (slice_get (groups cfg) (int gi)) (\<lambda>g. case g of None \<Rightarrow> Inl NilDeref | Some gg \<Rightarrow> Inr gg)"

definition put_group :: "nat \<Rightarrow> 's group \<Rightarrow> ('m, 's, 'o, 'v) shard_config \<Rightarrow> ('m, 's, 'o, 'v) shard_config" where
  "put_group gi gg cfg = cfg\<lparr>groups := (groups cfg)[gi := Some gg]\<rparr>"

section \<open>End-points\<close>

text \<open>\<open>MakeEnd\<close>, \<open>Connect\<close> and \<open>Enable\<close> of one name; also the function \<open>make_end\<close> that clerks and servers are given.\<close>

definition wire_end :: "string \<Rightarrow> string \<Rightarrow> (string, string) Network \<Rightarrow> (string, string) Network res" where
  "wire_end name server rn = rbind (MakeEnd name rn) (\<lambda>rn1. Inr (Enable name True (Connect name server rn1)))"

fun wire_ends :: "(string \<times> string) list \<Rightarrow> (string, string) Network \<Rightarrow> (string, string) Network res" where
  "wire_ends [] rn = Inr rn"
| "wire_ends ((name, server) # ps) rn = rbind (wire_end name server rn) (wire_ends ps)"

definition master_ends :: "string list \<Rightarrow> ('m, 's, 'o, 'v) shard_config \<Rightarrow> (string \<times> string) list" where
  "master_ends names cfg = zip names (map mastername [0..<nmasters cfg])"

definition group_ends :: "string list \<Rightarrow> nat \<Rightarrow> ('m, 's, 'o, 'v) shard_config \<Rightarrow> (string \<times> string) list" where
  "group_ends names g cfg = zip names (map (servername g) [0..<z_n cfg])"

section \<open>Clerks\<close>

text \<open>The slice \<open>endnames\<close> has \<open>cfg.n\<close> elements, and \<open>cfg.nmasters\<close> names are stored into it.\<close>

fun client_ends :: "(nat \<times> string) list \<Rightarrow> string list \<Rightarrow> (string, string) Network \<Rightarrow> (string list \<times> (string, string) Network) res" where
  "client_ends [] en rn = Inr (en, rn)"
| "client_ends ((j, name) # ps) en rn =
     rbind (slice_set en (int j) name) (\<lambda>en1.
     rbind (wire_end name (mastername j) rn) (client_ends ps en1))"

definition z_makeClient :: "string list \<Rightarrow> nat \<Rightarrow> ('m, 's, 'o, 'v) shard_config \<Rightarrow> (('m, 's, 'o, 'v) shard_config \<times> string kv_Clerk) res" where
  "z_makeClient names ck cfg =
     rbind (client_ends (zip [0..<nmasters cfg] names) (replicate (z_n cfg) []) (z_net cfg)) (\<lambda>(en, rn).
     Inr (cfg\<lparr>z_net := rn, z_clerks := (z_clerks cfg)(ck \<mapsto> en), z_nextClientId := z_nextClientId cfg + 1\<rparr>,
          kv_MakeClerk (take (nmasters cfg) names)))"

definition z_deleteClient :: "nat \<Rightarrow> ('m, 's, 'o, 'v) shard_config \<Rightarrow> ('m, 's, 'o, 'v) shard_config" where
  "z_deleteClient ck cfg = cfg\<lparr>z_clerks := (z_clerks cfg)(ck := None)\<rparr>"

definition shardclerk :: "string list \<Rightarrow> ('m, 's, 'o, 'v) shard_config \<Rightarrow> (('m, 's, 'o, 'v) shard_config \<times> string sm_Clerk) res" where
  "shardclerk names cfg =
     rbind (wire_ends (master_ends names cfg) (z_net cfg)) (\<lambda>rn. Inr (cfg\<lparr>z_net := rn\<rparr>, sm_MakeClerk (take (nmasters cfg) names)))"

section \<open>Servers\<close>

definition disable_names :: "string list \<Rightarrow> (string, string) Network \<Rightarrow> (string, string) Network" where
  "disable_names names rn = fold (\<lambda>name. Enable name False) names rn"

text \<open>\<open>gg.endnames[i][j]\<close> for all servers \<open>j\<close> of the group; a nil row panics if there is one.\<close>

definition row_names :: "string list option \<Rightarrow> nat \<Rightarrow> string list res" where
  "row_names row n = (let names = (case row of None \<Rightarrow> [] | Some ns \<Rightarrow> ns)
     in if length names < n then Inl IndexOutOfRange else Inr (take n names))"

definition z_copy_saved :: "nat \<Rightarrow> 's group \<Rightarrow> ('m, 's, 'o, 'v) shard_config \<Rightarrow> ('s group \<times> ('m, 's, 'o, 'v) shard_config) res" where
  "z_copy_saved i gg cfg =
     rbind (slice_get (gsaved gg) (int i)) (\<lambda>p.
     case p of
       None \<Rightarrow> Inr (gg, cfg)
     | Some a \<Rightarrow> rbind (slice_get (z_pheap cfg) (int a)) (\<lambda>ps.
         rbind (slice_set (gsaved gg) (int i) (Some (length (z_pheap cfg)))) (\<lambda>sv.
         Inr (gg\<lparr>gsaved := sv\<rparr>, cfg\<lparr>z_pheap := z_pheap cfg @ [Copy ps]\<rparr>))))"

definition z_ShutdownServer :: "nat \<Rightarrow> nat \<Rightarrow> ('m, 's, 'o, 'v) shard_config \<Rightarrow> ('m, 's, 'o, 'v) shard_config res" where
  "z_ShutdownServer gi i cfg =
     rbind (the_group gi cfg) (\<lambda>gg.
     rbind (slice_get (gendnames gg) (int i)) (\<lambda>row.
     rbind (row_names row (length (gservers gg))) (\<lambda>names.
     rbind (slice_get (gmendnames gg) (int i)) (\<lambda>mrow.
     let mnames = (case mrow of None \<Rightarrow> [] | Some ns \<Rightarrow> ns);
         cfg1 = cfg\<lparr>z_net := DeleteServer (servername (gid gg) i) (disable_names mnames (disable_names names (z_net cfg)))\<rparr>
     in rbind (z_copy_saved i gg cfg1) (\<lambda>(gg1, cfg2).
        rbind (slice_get (gservers gg1) (int i)) (\<lambda>kv.
        case kv of
          None \<Rightarrow> Inr (put_group gi gg1 cfg2)
        | Some s \<Rightarrow> rbind (slice_set (gservers gg1) (int i) None) (\<lambda>ks.
            Inr (put_group gi (gg1\<lparr>gservers := ks\<rparr>) (cfg2\<lparr>z_killed := s # z_killed cfg2\<rparr>)))))))))"

fun shutdown_each :: "nat \<Rightarrow> nat list \<Rightarrow> ('m, 's, 'o, 'v) shard_config \<Rightarrow> ('m, 's, 'o, 'v) shard_config res" where
  "shutdown_each gi [] cfg = Inr cfg"
| "shutdown_each gi (i # is) cfg = rbind (z_ShutdownServer gi i cfg) (shutdown_each gi is)"

definition ShutdownGroup :: "nat \<Rightarrow> ('m, 's, 'o, 'v) shard_config \<Rightarrow> ('m, 's, 'o, 'v) shard_config res" where
  "ShutdownGroup gi cfg = shutdown_each gi [0..<z_n cfg] cfg"

text \<open>
  \<open>StartServer\<close>: \<open>names\<close> and \<open>mnames\<close> are the new names of the end-points to the group and to the masters, \<open>kv\<close> the
  server and \<open>svcs\<close> its two services.
\<close>

definition z_StartServer :: "string list \<Rightarrow> string list \<Rightarrow> 's \<Rightarrow> ('o, 'v) Service \<times> ('o, 'v) Service \<Rightarrow> nat \<Rightarrow> nat
    \<Rightarrow> ('m, 's, 'o, 'v) shard_config \<Rightarrow> ('m, 's, 'o, 'v) shard_config res" where
  "z_StartServer names mnames kv svcs gi i cfg =
     rbind (the_group gi cfg) (\<lambda>gg.
     rbind (slice_set (gendnames gg) (int i) (Some (take (z_n cfg) names))) (\<lambda>rows.
     rbind (wire_ends (group_ends names (gid gg) cfg) (z_net cfg)) (\<lambda>rn.
     rbind (slice_set (gmendnames gg) (int i) (Some (take (nmasters cfg) mnames))) (\<lambda>mrows.
     rbind (wire_ends (master_ends mnames cfg) rn) (\<lambda>rn1.
     let gg1 = gg\<lparr>gendnames := rows, gmendnames := mrows\<rparr>;
         cfg1 = cfg\<lparr>z_net := rn1\<rparr> in
     rbind (slice_get (gsaved gg1) (int i)) (\<lambda>p.
     rbind (case p of
              Some _ \<Rightarrow> z_copy_saved i gg1 cfg1
            | None \<Rightarrow> rbind (slice_set (gsaved gg1) (int i) (Some (length (z_pheap cfg1)))) (\<lambda>sv.
                Inr (gg1\<lparr>gsaved := sv\<rparr>, cfg1\<lparr>z_pheap := z_pheap cfg1 @ [MakePersister]\<rparr>))) (\<lambda>(gg2, cfg2).
     rbind (slice_set (gservers gg2) (int i) (Some kv)) (\<lambda>ks.
     let srv = AddService (snd svcs) (AddService (fst svcs) MakeServer) in
     Inr (put_group gi (gg2\<lparr>gservers := ks\<rparr>)
       (cfg2\<lparr>z_sheap := z_sheap cfg2 @ [srv], z_net := AddServer (servername (gid gg2) i) (length (z_sheap cfg2)) (z_net cfg2)\<rparr>))))))))))"

text \<open>What a (re)start of server \<open>i\<close> of group \<open>gi\<close> takes from outside: its names, the instance and its services.\<close>

record ('s, 'o, 'v) start_args =
  sa_names :: "string list"
  sa_mnames :: "string list"
  sa_server :: 's
  sa_svcs :: "('o, 'v) Service \<times> ('o, 'v) Service"

fun z_start_each :: "(nat \<Rightarrow> ('s, 'o, 'v) start_args) \<Rightarrow> nat \<Rightarrow> nat list \<Rightarrow> ('m, 's, 'o, 'v) shard_config \<Rightarrow> ('m, 's, 'o, 'v) shard_config res" where
  "z_start_each args gi [] cfg = Inr cfg"
| "z_start_each args gi (i # is) cfg =
     rbind (z_StartServer (sa_names (args i)) (sa_mnames (args i)) (sa_server (args i)) (sa_svcs (args i)) gi i cfg) (z_start_each args gi is)"

definition StartGroup :: "(nat \<Rightarrow> ('s, 'o, 'v) start_args) \<Rightarrow> nat \<Rightarrow> ('m, 's, 'o, 'v) shard_config \<Rightarrow> ('m, 's, 'o, 'v) shard_config res" where
  "StartGroup args gi cfg = z_start_each args gi [0..<z_n cfg] cfg"

text \<open>The persister of a shard master is new and only the server knows it.\<close>

definition StartMasterServer :: "string list \<Rightarrow> 'm \<Rightarrow> ('o, 'v) Service \<times> ('o, 'v) Service \<Rightarrow> nat \<Rightarrow> ('m, 's, 'o, 'v) shard_config
    \<Rightarrow> ('m, 's, 'o, 'v) shard_config res" where
  "StartMasterServer names m svcs i cfg =
     rbind (wire_ends (master_ends names cfg) (z_net cfg)) (\<lambda>rn.
     rbind (slice_set (masterservers cfg) (int i) (Some m)) (\<lambda>ms.
     let srv = AddService (snd svcs) (AddService (fst svcs) MakeServer) in
     Inr (cfg\<lparr>masterservers := ms, z_pheap := z_pheap cfg @ [MakePersister], z_sheap := z_sheap cfg @ [srv],
              z_net := AddServer (mastername i) (length (z_sheap cfg)) rn\<rparr>)))"

section \<open>Joining and leaving\<close>

fun join_map :: "nat list \<Rightarrow> ('m, 's, 'o, 'v) shard_config \<Rightarrow> (int \<Rightarrow> string list option) \<Rightarrow> (int \<Rightarrow> string list option) res" where
  "join_map [] cfg m = Inr m"
| "join_map (g # gis) cfg m =
     rbind (the_group g cfg) (\<lambda>gg.
     let servernames = map (servername (gid gg)) [0..<z_n cfg]
     in join_map gis cfg (m(int (gid gg) \<mapsto> servernames)))"

definition joinm :: "('w, string) transport \<Rightarrow> ('w \<Rightarrow> 'w) \<Rightarrow> nat list \<Rightarrow> ('m, 's, 'o, 'v) shard_config \<Rightarrow> 'w \<Rightarrow> ('w \<times> unit) res option" where
  "joinm call sleep gis cfg w =
     (case join_map gis cfg Map.empty of Inl f \<Rightarrow> Some (Inl f) | Inr m \<Rightarrow> Join_ck call sleep (mck cfg) m w)"

definition join1 :: "('w, string) transport \<Rightarrow> ('w \<Rightarrow> 'w) \<Rightarrow> nat \<Rightarrow> ('m, 's, 'o, 'v) shard_config \<Rightarrow> 'w \<Rightarrow> ('w \<times> unit) res option" where
  "join1 call sleep gi cfg w = joinm call sleep [gi] cfg w"

fun leave_gids :: "nat list \<Rightarrow> ('m, 's, 'o, 'v) shard_config \<Rightarrow> int list \<Rightarrow> int list res" where
  "leave_gids [] cfg gids = Inr gids"
| "leave_gids (g # gis) cfg gids = rbind (the_group g cfg) (\<lambda>gg. leave_gids gis cfg (gids @ [int (gid gg)]))"

definition leavem :: "('w, string) transport \<Rightarrow> ('w \<Rightarrow> 'w) \<Rightarrow> nat list \<Rightarrow> ('m, 's, 'o, 'v) shard_config \<Rightarrow> 'w \<Rightarrow> ('w \<times> unit) res option" where
  "leavem call sleep gis cfg w =
     (case leave_gids gis cfg [] of Inl f \<Rightarrow> Some (Inl f) | Inr gids \<Rightarrow> Leave_ck call sleep (mck cfg) gids w)"

definition leave1 :: "('w, string) transport \<Rightarrow> ('w \<Rightarrow> 'w) \<Rightarrow> nat \<Rightarrow> ('m, 's, 'o, 'v) shard_config \<Rightarrow> 'w \<Rightarrow> ('w \<times> unit) res option" where
  "leave1 call sleep gi cfg w = leavem call sleep [gi] cfg w"

section \<open>Making and checking a configuration\<close>

fun start_masters :: "(nat \<Rightarrow> string list) \<Rightarrow> (nat \<Rightarrow> 'm) \<Rightarrow> (nat \<Rightarrow> ('o, 'v) Service \<times> ('o, 'v) Service) \<Rightarrow> nat list
    \<Rightarrow> ('m, 's, 'o, 'v) shard_config \<Rightarrow> ('m, 's, 'o, 'v) shard_config res" where
  "start_masters names ms svcs [] cfg = Inr cfg"
| "start_masters names ms svcs (i # is) cfg = rbind (StartMasterServer (names i) (ms i) (svcs i) i cfg) (start_masters names ms svcs is)"

definition new_group :: "nat \<Rightarrow> ('m, 's, 'o, 'v) shard_config \<Rightarrow> 's group" where
  "new_group gi cfg = \<lparr>gid = 100 + gi, gservers = replicate (z_n cfg) None, gsaved = replicate (z_n cfg) None,
     gendnames = replicate (z_n cfg) None, gmendnames = replicate (nmasters cfg) None\<rparr>"

fun make_groups :: "(nat \<Rightarrow> nat \<Rightarrow> ('s, 'o, 'v) start_args) \<Rightarrow> nat list \<Rightarrow> ('m, 's, 'o, 'v) shard_config \<Rightarrow> ('m, 's, 'o, 'v) shard_config res" where
  "make_groups args [] cfg = Inr cfg"
| "make_groups args (gi # gis) cfg =
     rbind (slice_set (groups cfg) (int gi) (Some (new_group gi cfg))) (\<lambda>gs.
     rbind (z_start_each (args gi) gi [0..<z_n cfg] (cfg\<lparr>groups := gs\<rparr>)) (make_groups args gis))"

definition z_zero :: "int \<Rightarrow> ('m, 's, 'o, 'v) shard_config" where
  "z_zero maxr = \<lparr>z_net = MakeNetwork, nmasters = 3, masterservers = replicate 3 None, mck = sm_MakeClerk [], ngroups = 0, z_n = 0,
     groups = [], z_clerks = Map.empty, z_nextClientId = 0, z_maxraftstate = maxr, z_pheap = [], z_sheap = [], z_killed = []\<rparr>"

definition z_make_config :: "(nat \<Rightarrow> string list) \<Rightarrow> (nat \<Rightarrow> 'm) \<Rightarrow> (nat \<Rightarrow> ('o, 'v) Service \<times> ('o, 'v) Service) \<Rightarrow> string list
    \<Rightarrow> (nat \<Rightarrow> nat \<Rightarrow> ('s, 'o, 'v) start_args) \<Rightarrow> nat \<Rightarrow> bool \<Rightarrow> int \<Rightarrow> ('m, 's, 'o, 'v) shard_config res" where
  "z_make_config mnames ms msvcs cknames args n unreliable maxr =
     rbind (start_masters mnames ms msvcs [0..<3] (z_zero maxr)) (\<lambda>cfg1.
     rbind (shardclerk cknames cfg1) (\<lambda>(cfg2, ck).
     rbind (make_groups args [0..<3] (cfg2\<lparr>mck := ck, ngroups := 3, groups := replicate 3 None, z_n := n\<rparr>)) (\<lambda>cfg3.
     Inr (cfg3\<lparr>z_nextClientId := int n + 1000, z_net := Reliable (\<not> unreliable) (z_net cfg3)\<rparr>))))"

fun cleanup_groups :: "nat list \<Rightarrow> ('m, 's, 'o, 'v) shard_config \<Rightarrow> ('m, 's, 'o, 'v) shard_config res" where
  "cleanup_groups [] cfg = Inr cfg"
| "cleanup_groups (gi # gis) cfg = rbind (ShutdownGroup gi cfg) (cleanup_groups gis)"

definition z_checkTimeout :: "bool \<Rightarrow> int \<Rightarrow> unit res" where
  "z_checkTimeout failed elapsed =
     (if \<not> failed \<and> elapsed > 120 * 10 ^ 9 then Inl (Fatal ''test took longer than 120 seconds'') else Inr ())"

definition z_cleanup :: "bool \<Rightarrow> int \<Rightarrow> ('m, 's, 'o, 'v) shard_config \<Rightarrow> ('m, 's, 'o, 'v) shard_config res" where
  "z_cleanup failed elapsed cfg =
     rbind (cleanup_groups [0..<ngroups cfg] cfg) (\<lambda>cfg1.
     rbind (Cleanup (z_net cfg1)) (\<lambda>rn.
     rbind (z_checkTimeout failed elapsed) (\<lambda>_. Inr (cfg1\<lparr>z_net := rn\<rparr>))))"

text \<open>One iteration of \<open>checklogs\<close>; a nil persister panics.\<close>

definition check_log :: "('m, 's, 'o, 'v) shard_config \<Rightarrow> nat \<Rightarrow> nat \<Rightarrow> unit res" where
  "check_log cfg gi i =
     rbind (the_group gi cfg) (\<lambda>gg.
     rbind (slice_get (gsaved gg) (int i)) (\<lambda>p.
     case p of
       None \<Rightarrow> Inl NilDeref
     | Some a \<Rightarrow> rbind (slice_get (z_pheap cfg) (int a)) (\<lambda>ps.
         let rft = int (RaftStateSize ps); snap = length (ReadSnapshot ps) in
         if z_maxraftstate cfg \<ge> 0 \<and> rft > 8 * z_maxraftstate cfg then Inl (Fatal ''persister.RaftStateSize(), but maxraftstate'')
         else if z_maxraftstate cfg < 0 \<and> snap > 0 then Inl (Fatal ''maxraftstate is -1, but snapshot is non-empty!'')
         else Inr ())))"

fun check_each :: "('m, 's, 'o, 'v) shard_config \<Rightarrow> (nat \<times> nat) list \<Rightarrow> unit res" where
  "check_each cfg [] = Inr ()"
| "check_each cfg ((gi, i) # ps) = rbind (check_log cfg gi i) (\<lambda>_. check_each cfg ps)"

definition checklogs :: "('m, 's, 'o, 'v) shard_config \<Rightarrow> unit res" where
  "checklogs cfg = check_each cfg (List.product [0..<ngroups cfg] [0..<z_n cfg])"

section \<open>Wiring\<close>

text \<open>
  \<open>net_wired wl S rn\<close>: the end-points of the network are exactly those of \<open>wl\<close>, each enabled and connected to its
  server, and the servers \<open>S\<close> are running.
\<close>

definition net_wired :: "(string \<times> string) list \<Rightarrow> string set \<Rightarrow> (string, string) Network \<Rightarrow> bool" where
  "net_wired wl S rn \<longleftrightarrow> ends rn = (\<lambda>e. if e \<in> fst ` set wl then Some () else None) \<and>
     (\<forall>(e, s)\<in>set wl. enabled rn e \<and> connections rn e = Some s) \<and> (\<forall>s\<in>S. servers rn s \<noteq> None)"

lemma wire_end_wired:
  assumes "net_wired wl S rn" and "name \<notin> fst ` set wl"
  shows "\<exists>rn'. wire_end name srv rn = Inr rn' \<and> net_wired (wl @ [(name, srv)]) S rn'"
proof -
  let ?rn = "rn\<lparr>ends := (ends rn)(name \<mapsto> ()), enabled := (enabled rn)(name := True), connections := (connections rn)(name \<mapsto> srv)\<rparr>"
  have "wire_end name srv rn = Inr ?rn" using assms by (simp add: wire_end_def MakeEnd_def Connect_def Enable_def net_wired_def)
  moreover have "net_wired (wl @ [(name, srv)]) S ?rn"
    using assms by (auto simp: net_wired_def fun_eq_iff image_iff split: prod.splits)
  ultimately show ?thesis by blast
qed

lemma wire_ends_wired:
  assumes "net_wired wl S rn" and "distinct (map fst (wl @ ps))"
  shows "\<exists>rn'. wire_ends ps rn = Inr rn' \<and> net_wired (wl @ ps) S rn'"
  using assms
proof (induction ps arbitrary: wl rn)
  case Nil
  then show ?case by simp
next
  case (Cons p ps)
  obtain name srv where p: "p = (name, srv)" by (cases p)
  have "name \<notin> fst ` set wl" using Cons.prems(2) p by auto
  from wire_end_wired [OF Cons.prems(1) this] obtain rn1 where rn1: "wire_end name srv rn = Inr rn1" "net_wired (wl @ [p]) S rn1"
    using p by blast
  with Cons.IH [OF rn1(2)] Cons.prems(2) show ?case by (simp add: p)
qed

lemma AddServer_wired: "net_wired wl S rn \<Longrightarrow> net_wired wl (insert s S) (AddServer s a rn)"
  by (auto simp: net_wired_def AddServer_def)

lemma net_wired_reach:
  assumes "net_wired wl S rn" "(e, s) \<in> set wl" "s \<in> S"
  shows "reachable_end e rn \<and> connections rn e = Some s"
  using assms by (fastforce simp: net_wired_def reachable_end_def)

lemma distinct_map_prefix: "distinct (map f (xs @ ys @ zs)) \<Longrightarrow> distinct (map f xs) \<and> distinct (map f (xs @ ys))"
  by (metis append_assoc distinct_append map_append)

definition master_pairs :: "string list \<Rightarrow> (string \<times> string) list" where
  "master_pairs names = zip names (map mastername [0..<3])"

definition server_pairs :: "('s, 'o, 'v) start_args \<Rightarrow> nat \<Rightarrow> nat \<Rightarrow> (string \<times> string) list" where
  "server_pairs a n gi = zip (sa_names a) (map (servername (100 + gi)) [0..<n]) @ master_pairs (sa_mnames a)"

lemma start_masters_wired:
  assumes "net_wired wl S (z_net cfg)" "distinct (map fst (wl @ concat (map (\<lambda>i. master_pairs (names i)) is)))"
    and "nmasters cfg = 3" "length (masterservers cfg) = 3" "list_all (\<lambda>i. i < 3) is"
  shows "\<exists>cfg'. start_masters names ms svcs is cfg = Inr cfg' \<and> nmasters cfg' = 3 \<and>
     net_wired (wl @ concat (map (\<lambda>i. master_pairs (names i)) is)) (S \<union> mastername ` set is) (z_net cfg')"
  using assms
proof (induction "is" arbitrary: wl S cfg)
  case Nil
  then show ?case by simp
next
  case (Cons i "is")
  have "distinct (map fst (wl @ master_pairs (names i)))" using Cons.prems(2) by auto
  from wire_ends_wired [OF Cons.prems(1) this] obtain rn where
    rn: "wire_ends (master_pairs (names i)) (z_net cfg) = Inr rn" "net_wired (wl @ master_pairs (names i)) S rn" by blast
  obtain cfg1 where cfg1: "StartMasterServer (names i) (ms i) (svcs i) i cfg = Inr cfg1" "nmasters cfg1 = 3" "length (masterservers cfg1) = 3"
    "z_net cfg1 = AddServer (mastername i) (length (z_sheap cfg)) rn"
    using Cons.prems(3-5) rn(1) by (simp add: StartMasterServer_def master_ends_def master_pairs_def)
  have "net_wired (wl @ master_pairs (names i)) (insert (mastername i) S) (z_net cfg1)"
    using AddServer_wired [OF rn(2)] cfg1(4) by simp
  from Cons.IH [OF this _ cfg1(2,3)] Cons.prems(2,5) cfg1(1) show ?case by simp
qed

text \<open>\<open>group_ok n gi is cfg\<close>: group \<open>gi\<close> is made, and the servers \<open>is\<close> have never been started.\<close>

definition group_ok :: "nat \<Rightarrow> nat \<Rightarrow> nat list \<Rightarrow> ('m, 's, 'o, 'v) shard_config \<Rightarrow> bool" where
  "group_ok n gi is cfg \<longleftrightarrow> z_n cfg = n \<and> nmasters cfg = 3 \<and> length (groups cfg) = 3 \<and> gi < 3 \<and>
     (case groups cfg ! gi of None \<Rightarrow> False | Some gg \<Rightarrow> gid gg = 100 + gi \<and> length (gservers gg) = n \<and> length (gsaved gg) = n \<and>
        length (gendnames gg) = n \<and> length (gmendnames gg) = 3 \<and> list_all (\<lambda>i. i < n \<and> gsaved gg ! i = None) is)"

lemma StartServer_wired:
  assumes w: "net_wired wl S (z_net cfg)" and d: "distinct (map fst (wl @ server_pairs a n gi))" and g: "group_ok n gi (i # is) cfg"
    and i: "i < 3" "i \<notin> set is"
  shows "\<exists>cfg'. z_StartServer (sa_names a) (sa_mnames a) kv svcs gi i cfg = Inr cfg' \<and> group_ok n gi is cfg' \<and>
     net_wired (wl @ server_pairs a n gi) (insert (servername (100 + gi) i) S) (z_net cfg')"
proof -
  let ?ps = "zip (sa_names a) (map (servername (100 + gi)) [0..<n])" and ?ms = "master_pairs (sa_mnames a)"
  from g obtain gg where gg: "groups cfg ! gi = Some gg" "gid gg = 100 + gi" "length (gservers gg) = n" "length (gsaved gg) = n"
    "length (gendnames gg) = n" "length (gmendnames gg) = 3" "i < n" "gsaved gg ! i = None" "list_all (\<lambda>i. i < n \<and> gsaved gg ! i = None) is"
    by (auto simp: group_ok_def split: option.splits)
  have sz: "z_n cfg = n" "nmasters cfg = 3" "length (groups cfg) = 3" "gi < 3" using g by (simp_all add: group_ok_def)
  have d1: "distinct (map fst (wl @ ?ps))" "distinct (map fst ((wl @ ?ps) @ ?ms))" using d by (auto simp: server_pairs_def)
  from wire_ends_wired [OF w d1(1)] obtain rn where rn: "wire_ends ?ps (z_net cfg) = Inr rn" "net_wired (wl @ ?ps) S rn" by blast
  from wire_ends_wired [OF rn(2) d1(2)] obtain rn1 where rn1: "wire_ends ?ms rn = Inr rn1" "net_wired (wl @ server_pairs a n gi) S rn1"
    by (auto simp: server_pairs_def)
  have "list_all (\<lambda>j. j < n \<and> (gsaved gg)[i := x] ! j = None) is" for x using gg(9) i(2) unfolding list_all_iff by (metis nth_list_update_neq)
  then obtain cfg' where "z_StartServer (sa_names a) (sa_mnames a) kv svcs gi i cfg = Inr cfg'" "group_ok n gi is cfg'"
    "z_net cfg' = AddServer (servername (100 + gi) i) (length (z_sheap cfg)) rn1"
    using gg sz rn(1) rn1(1) i(1)
    by (simp add: z_StartServer_def the_group_def group_ends_def master_ends_def Let_def put_group_def group_ok_def flip: master_pairs_def)
  then show ?thesis using AddServer_wired [OF rn1(2)] by auto
qed

lemma StartServer_too_many:
  assumes w: "net_wired wl S (z_net cfg)" and d: "distinct (map fst (wl @ server_pairs a n gi))" and g: "group_ok n gi (i # is) cfg"
    and i: "3 \<le> i"
  shows "z_StartServer (sa_names a) (sa_mnames a) kv svcs gi i cfg = Inl IndexOutOfRange"
proof -
  let ?ps = "zip (sa_names a) (map (servername (100 + gi)) [0..<n])"
  have "distinct (map fst (wl @ ?ps))" using d by (auto simp: server_pairs_def)
  from wire_ends_wired [OF w this] obtain rn where "wire_ends ?ps (z_net cfg) = Inr rn" by blast
  then show ?thesis using g i
    by (auto simp: z_StartServer_def the_group_def group_ends_def group_ok_def slice_set_def split: option.splits)
qed

lemma start_each_append: "z_start_each args gi (is @ js) cfg = rbind (z_start_each args gi is cfg) (z_start_each args gi js)"
  by (induction "is" arbitrary: cfg) (simp_all add: rbind_def split: sum.split)

lemma start_each_wired:
  assumes "net_wired wl S (z_net cfg)" "distinct (map fst (wl @ concat (map (\<lambda>i. server_pairs (args i) n gi) is)))"
    and "group_ok n gi (is @ js) cfg" "list_all (\<lambda>i. i < 3) is" "distinct (is @ js)"
  shows "\<exists>cfg'. z_start_each args gi is cfg = Inr cfg' \<and> group_ok n gi js cfg' \<and>
     net_wired (wl @ concat (map (\<lambda>i. server_pairs (args i) n gi) is)) (S \<union> servername (100 + gi) ` set is) (z_net cfg')"
  using assms
proof (induction "is" arbitrary: wl S cfg)
  case Nil
  then show ?case by simp
next
  case (Cons i "is")
  have d: "distinct (map fst (wl @ server_pairs (args i) n gi))" using Cons.prems(2) by auto
  have i: "i < 3" "i \<notin> set (is @ js)" using Cons.prems(4,5) by auto
  have g: "group_ok n gi (i # (is @ js)) cfg" using Cons.prems(3) by simp
  from StartServer_wired [OF Cons.prems(1) d g i, of "sa_server (args i)" "sa_svcs (args i)"] obtain cfg1 where
    cfg1: "z_StartServer (sa_names (args i)) (sa_mnames (args i)) (sa_server (args i)) (sa_svcs (args i)) gi i cfg = Inr cfg1"
      "group_ok n gi (is @ js) cfg1" "net_wired (wl @ server_pairs (args i) n gi) (insert (servername (100 + gi) i) S) (z_net cfg1)" by blast
  from Cons.IH [OF cfg1(3) _ cfg1(2)] Cons.prems(2,4,5) cfg1(1) show ?case by simp
qed

definition group_pairs :: "(nat \<Rightarrow> nat \<Rightarrow> ('s, 'o, 'v) start_args) \<Rightarrow> nat \<Rightarrow> nat \<Rightarrow> (string \<times> string) list" where
  "group_pairs args n gi = concat (map (\<lambda>i. server_pairs (args gi i) n gi) [0..<n])"

text \<open>The configuration just before a group is made, and with the group that is put in its place.\<close>

lemma new_group_ok:
  assumes "z_n cfg = n" "nmasters cfg = 3" "length (groups cfg) = 3" "gi < 3"
  shows "group_ok n gi [0..<n] (cfg\<lparr>groups := (groups cfg)[gi := Some (new_group gi cfg)]\<rparr>)"
  using assms by (simp add: group_ok_def new_group_def list_all_iff)

lemma make_groups_wired:
  assumes "net_wired wl S (z_net cfg)" "distinct (map fst (wl @ concat (map (group_pairs args n) gis)))" "n \<le> 3"
    and "z_n cfg = n" "nmasters cfg = 3" "length (groups cfg) = 3" "list_all (\<lambda>gi. gi < 3) gis"
  shows "\<exists>cfg'. make_groups args gis cfg = Inr cfg' \<and>
     net_wired (wl @ concat (map (group_pairs args n) gis)) (S \<union> (\<Union>g\<in>set gis. servername (100 + g) ` {0..<n})) (z_net cfg')"
  using assms
proof (induction gis arbitrary: wl S cfg)
  case Nil
  then show ?case by simp
next
  case (Cons gi gis)
  let ?cfg = "cfg\<lparr>groups := (groups cfg)[gi := Some (new_group gi cfg)]\<rparr>"
  have gi: "gi < 3" using Cons.prems(7) by simp
  have g: "group_ok n gi ([0..<n] @ []) ?cfg" using new_group_ok [OF Cons.prems(4-6) gi] by simp
  have "distinct (map fst (wl @ group_pairs args n gi))" using Cons.prems(2) by auto
  then have d: "distinct (map fst (wl @ concat (map (\<lambda>i. server_pairs (args gi i) n gi) [0..<n])))"
    by (simp only: group_pairs_def)
  have s: "list_all (\<lambda>i. i < 3) [0..<n]" using Cons.prems(3) by (simp add: list_all_iff)
  obtain cfg1 where cfg1: "z_start_each (args gi) gi [0..<n] ?cfg = Inr cfg1" "group_ok n gi [] cfg1"
    "net_wired (wl @ group_pairs args n gi) (S \<union> servername (100 + gi) ` {0..<n}) (z_net cfg1)"
    using start_each_wired [OF _ d g s] Cons.prems(1) by (auto simp: group_pairs_def)
  have c1: "z_n cfg1 = n" "nmasters cfg1 = 3" "length (groups cfg1) = 3" using cfg1(2) by (simp_all add: group_ok_def)
  have d1: "distinct (map fst ((wl @ group_pairs args n gi) @ concat (map (group_pairs args n) gis)))" using Cons.prems(2) by simp
  obtain cfg' where cfg': "make_groups args gis cfg1 = Inr cfg'"
    "net_wired (wl @ concat (map (group_pairs args n) (gi # gis)))
       (S \<union> servername (100 + gi) ` {0..<n} \<union> (\<Union>g\<in>set gis. servername (100 + g) ` {0..<n})) (z_net cfg')"
    using Cons.IH [OF cfg1(3) d1 Cons.prems(3) c1] Cons.prems(7) by auto
  have "make_groups args (gi # gis) cfg = Inr cfg'" using cfg1(1) cfg'(1) gi Cons.prems(4,6) by simp
  then show ?case using cfg'(2) by (simp add: Un_assoc)
qed

lemma make_groups_too_many:
  assumes w: "net_wired wl S (z_net cfg)" and d: "distinct (map fst (wl @ group_pairs args n gi))" and n: "3 < n"
    and c: "z_n cfg = n" "nmasters cfg = 3" "length (groups cfg) = 3" "gi < 3"
  shows "make_groups args (gi # gis) cfg = Inl IndexOutOfRange"
proof -
  let ?cfg = "cfg\<lparr>groups := (groups cfg)[gi := Some (new_group gi cfg)]\<rparr>"
  let ?f = "\<lambda>i. server_pairs (args gi i) n gi"
  have upt: "[0..<n] = [0..<3] @ 3 # [4..<n]" using n upt_add_eq_append [of 0 3 "n - 3"] upt_conv_Cons [of 3 n] by simp
  have d': "distinct (map fst (wl @ concat (map ?f [0..<3])))" "distinct (map fst ((wl @ concat (map ?f [0..<3])) @ server_pairs (args gi 3) n gi))"
    using d unfolding group_pairs_def upt by (simp_all only: map_append concat_append list.map concat.simps distinct_append append_assoc set_append) blast+
  have g: "group_ok n gi ([0..<3] @ 3 # [4..<n]) ?cfg" using new_group_ok [OF c] upt by simp
  have w': "net_wired wl S (z_net ?cfg)" using w by simp
  have "distinct ([0..<3] @ 3 # [4..<n])" by (simp flip: upt)
  moreover have "list_all (\<lambda>i. i < 3) [0..<3]" by (simp add: list_all_iff)
  ultimately obtain cfg1 where cfg1: "z_start_each (args gi) gi [0..<3] ?cfg = Inr cfg1" "group_ok n gi (3 # [4..<n]) cfg1"
    "net_wired (wl @ concat (map ?f [0..<3])) (S \<union> servername (100 + gi) ` set [0..<3]) (z_net cfg1)"
    using start_each_wired [OF w' d'(1) g] by blast
  have "z_start_each (args gi) gi (3 # [4..<n]) cfg1 = Inl IndexOutOfRange"
    using StartServer_too_many [OF cfg1(3) d'(2) cfg1(2)] by simp
  then have "z_start_each (args gi) gi [0..<n] ?cfg = Inl IndexOutOfRange" unfolding upt start_each_append cfg1(1) by simp
  then show ?thesis using c by simp
qed

section \<open>Names and shutdown\<close>

text \<open>Different servers have different names, so what reaches a name reaches that server.\<close>

lemma servername_inj: "servername g i = servername g' i' \<Longrightarrow> g = g' \<and> i = i'"
proof -
  assume "servername g i = servername g' i'"
  then have e: "Itoa g @ CHR ''-'' # Itoa i = Itoa g' @ CHR ''-'' # Itoa i'" by (simp add: servername_def)
  have "takeWhile (\<lambda>c. c \<noteq> CHR ''-'') (Itoa g @ CHR ''-'' # xs) = Itoa g" for g xs
    using Itoa_digits [of "CHR ''-''" g] by (subst takeWhile_append2) (auto simp: is_digit_def)
  then have "Itoa g = Itoa g'" using e by metis
  moreover then have "Itoa i = Itoa i'" using e by simp
  ultimately show ?thesis by (metis Itoa_value)
qed

lemma mastername_servername: "mastername i \<noteq> servername g j"
  by (simp add: mastername_def servername_def)

text \<open>
  \<open>ShutdownServer\<close> isolates one server: nothing reaches its name any more, its own end-points reach nothing, and every
  other end-point reaches what it reached before.
\<close>

lemma disable_names_simps [simp]:
  "connections (disable_names ns rn) = connections rn" "servers (disable_names ns rn) = servers rn"
  "enabled (disable_names ns rn) = (\<lambda>e. e \<notin> set ns \<and> enabled rn e)"
  by (induction ns arbitrary: rn) (auto simp: disable_names_def Enable_def)

lemma z_copy_saved_net: "z_copy_saved i gg cfg = Inr (gg', cfg') \<Longrightarrow> z_net cfg' = z_net cfg"
  by (auto simp: z_copy_saved_def rbind_eq_Inr split: option.splits)

lemma ShutdownServer_isolates:
  assumes "z_ShutdownServer gi i cfg = Inr cfg'" and "groups cfg ! gi = Some gg"
    and "gendnames gg ! i = Some names" "gmendnames gg ! i = Some mnames" "length names = length (gservers gg)"
  shows "connections (z_net cfg') e = Some (servername (gid gg) i) \<Longrightarrow> \<not> reachable_end e (z_net cfg')"
    and "e \<in> set names \<union> set mnames \<Longrightarrow> \<not> reachable_end e (z_net cfg')"
    and "e \<notin> set names \<union> set mnames \<Longrightarrow> connections (z_net cfg) e \<noteq> Some (servername (gid gg) i) \<Longrightarrow>
      reachable_end e (z_net cfg') = reachable_end e (z_net cfg)"
proof -
  let ?rn = "DeleteServer (servername (gid gg) i) (disable_names mnames (disable_names names (z_net cfg)))"
  have "z_net cfg' = ?rn"
    using assms by (auto simp: z_ShutdownServer_def the_group_def rbind_eq_Inr slice_get_Inr row_names_def put_group_def Let_def
        split: option.splits if_splits dest!: z_copy_saved_net)
  then show "connections (z_net cfg') e = Some (servername (gid gg) i) \<Longrightarrow> \<not> reachable_end e (z_net cfg')"
    "e \<in> set names \<union> set mnames \<Longrightarrow> \<not> reachable_end e (z_net cfg')"
    "e \<notin> set names \<union> set mnames \<Longrightarrow> connections (z_net cfg) e \<noteq> Some (servername (gid gg) i) \<Longrightarrow>
      reachable_end e (z_net cfg') = reachable_end e (z_net cfg)"
    by (auto simp: reachable_end_def DeleteServer_def split: option.splits)
qed

section \<open>Making a cluster\<close>

definition z_all_pairs :: "(nat \<Rightarrow> string list) \<Rightarrow> string list \<Rightarrow> (nat \<Rightarrow> nat \<Rightarrow> ('s, 'o, 'v) start_args) \<Rightarrow> nat \<Rightarrow> (string \<times> string) list" where
  "z_all_pairs mnames cknames args n =
     concat (map (\<lambda>i. master_pairs (mnames i)) [0..<3]) @ master_pairs cknames @ concat (map (group_pairs args n) [0..<3])"

text \<open>The two phases of \<open>make_config\<close>: the shard masters and their clerk, then the groups.\<close>

lemma masters_ready:
  fixes args :: "nat \<Rightarrow> nat \<Rightarrow> ('s, 'o, 'v) start_args" and ms :: "nat \<Rightarrow> 'm"
  assumes "distinct (map fst (z_all_pairs mnames cknames args n))"
  shows "\<exists>cfg1 cfg2 ck. start_masters mnames ms msvcs [0..<3] (z_zero maxr :: ('m, 's, 'o, 'v) shard_config) = Inr cfg1 \<and> shardclerk cknames cfg1 = Inr (cfg2, ck) \<and> nmasters cfg2 = 3 \<and>
     net_wired (concat (map (\<lambda>i. master_pairs (mnames i)) [0..<3]) @ master_pairs cknames) (mastername ` {..<3}) (z_net cfg2)"
proof -
  let ?wl = "concat (map (\<lambda>i. master_pairs (mnames i)) [0..<3])"
  have d: "distinct (map fst ([] @ ?wl))" "distinct (map fst (?wl @ master_pairs cknames))" using distinct_map_prefix assms unfolding z_all_pairs_def by (metis append_Nil)+
  have z: "net_wired [] {} (z_net (z_zero maxr :: ('m, 's, 'o, 'v) shard_config))" "nmasters (z_zero maxr :: ('m, 's, 'o, 'v) shard_config) = 3"
    "length (masterservers (z_zero maxr :: ('m, 's, 'o, 'v) shard_config)) = 3"
    by (simp_all add: net_wired_def z_zero_def MakeNetwork_def)
  have "list_all (\<lambda>i. i < 3) [0..<3]" by (simp add: list_all_iff)
  from start_masters_wired [OF z(1) d(1) z(2,3) this] obtain cfg1 where
    cfg1: "start_masters mnames ms msvcs [0..<3] (z_zero maxr :: ('m, 's, 'o, 'v) shard_config) = Inr cfg1" "nmasters cfg1 = 3" "net_wired ?wl (mastername ` set [0..<3]) (z_net cfg1)"
    by auto
  from wire_ends_wired [OF cfg1(3) d(2)] obtain rn where
    rn: "wire_ends (master_pairs cknames) (z_net cfg1) = Inr rn" "net_wired (?wl @ master_pairs cknames) (mastername ` set [0..<3]) rn" by blast
  then have "shardclerk cknames cfg1 = Inr (cfg1\<lparr>z_net := rn\<rparr>, sm_MakeClerk (take 3 cknames))"
    using cfg1(2) by (simp add: shardclerk_def master_ends_def flip: master_pairs_def)
  moreover have "{..<3} = set [0..<3::nat]" by auto
  ultimately show ?thesis using cfg1(1,2) rn(2)
    by (intro exI [of _ cfg1] exI [of _ "cfg1\<lparr>z_net := rn\<rparr>"] exI [of _ "sm_MakeClerk (take 3 cknames)"]) simp
qed

lemma make_config_wired:
  fixes args :: "nat \<Rightarrow> nat \<Rightarrow> ('s, 'o, 'v) start_args" and ms :: "nat \<Rightarrow> 'm"
  assumes "distinct (map fst (z_all_pairs mnames cknames args n))" "n \<le> 3"
  shows "\<exists>cfg. z_make_config mnames ms msvcs cknames args n unreliable maxr = Inr cfg \<and>
     net_wired (z_all_pairs mnames cknames args n) (mastername ` {..<3} \<union> (\<Union>g\<in>{0..<3}. servername (100 + g) ` {0..<n})) (z_net cfg)"
proof -
  let ?wl = "concat (map (\<lambda>i. master_pairs (mnames i)) [0..<3]) @ master_pairs cknames"
  from masters_ready [OF assms(1), of ms msvcs maxr] obtain cfg1 cfg2 ck where
    c: "start_masters mnames ms msvcs [0..<3] (z_zero maxr :: ('m, 's, 'o, 'v) shard_config) = Inr cfg1" "shardclerk cknames cfg1 = Inr (cfg2, ck)" "nmasters cfg2 = 3"
    "net_wired ?wl (mastername ` {..<3}) (z_net cfg2)" by blast
  let ?cfg = "cfg2\<lparr>mck := ck, ngroups := 3, groups := replicate 3 None, z_n := n\<rparr>"
  have d: "distinct (map fst (?wl @ concat (map (group_pairs args n) [0..<3])))" using assms(1) by (simp add: z_all_pairs_def)
  have w: "net_wired ?wl (mastername ` {..<3}) (z_net ?cfg)" and sz: "z_n ?cfg = n" "nmasters ?cfg = 3" "length (groups ?cfg) = 3"
    "list_all (\<lambda>gi. gi < 3) [0..<3]" using c by (simp_all add: list_all_iff)
  from make_groups_wired [OF w d assms(2) sz] obtain cfg3 where cfg3: "make_groups args [0..<3] ?cfg = Inr cfg3"
    "net_wired (?wl @ concat (map (group_pairs args n) [0..<3])) (mastername ` {..<3} \<union> (\<Union>g\<in>set [0..<3]. servername (100 + g) ` {0..<n})) (z_net cfg3)"
    by blast
  have "z_make_config mnames ms msvcs cknames args n unreliable maxr =
      Inr (cfg3\<lparr>z_nextClientId := int n + 1000, z_net := Reliable (\<not> unreliable) (z_net cfg3)\<rparr>)"
    using c cfg3(1) by (simp add: z_make_config_def)
  moreover have "net_wired wl S (Reliable b rn) = net_wired wl S rn" for wl S b rn by (simp add: net_wired_def Reliable_def)
  ultimately show ?thesis using cfg3(2) by (auto simp: z_all_pairs_def)
qed

lemma make_config_too_many:
  fixes args :: "nat \<Rightarrow> nat \<Rightarrow> ('s, 'o, 'v) start_args" and ms :: "nat \<Rightarrow> 'm"
  assumes "distinct (map fst (z_all_pairs mnames cknames args n))" "3 < n"
  shows "(z_make_config mnames ms msvcs cknames args n unreliable maxr :: ('m, 's, 'o, 'v) shard_config res) = Inl IndexOutOfRange"
proof -
  let ?wl = "concat (map (\<lambda>i. master_pairs (mnames i)) [0..<3]) @ master_pairs cknames"
  from masters_ready [OF assms(1), of ms msvcs maxr] obtain cfg1 cfg2 ck where
    c: "start_masters mnames ms msvcs [0..<3] (z_zero maxr :: ('m, 's, 'o, 'v) shard_config) = Inr cfg1" "shardclerk cknames cfg1 = Inr (cfg2, ck)" "nmasters cfg2 = 3"
    "net_wired ?wl (mastername ` {..<3}) (z_net cfg2)" by blast
  let ?cfg = "cfg2\<lparr>mck := ck, ngroups := 3, groups := replicate 3 None, z_n := n\<rparr>"
  have "[0..<3::nat] = 0 # [1, 2]" by (simp add: upt_rec)
  moreover have d: "distinct (map fst (?wl @ group_pairs args n 0))"
    using distinct_map_prefix [of fst ?wl "group_pairs args n 0" "concat (map (group_pairs args n) [1, 2])"] assms(1)
    by (simp add: z_all_pairs_def calculation)
  have w: "net_wired ?wl (mastername ` {..<3}) (z_net ?cfg)" and sz: "z_n ?cfg = n" "nmasters ?cfg = 3" "length (groups ?cfg) = 3" "0 < (3::nat)"
    using c(3,4) by simp_all
  have "make_groups args (0 # [1, 2]) ?cfg = Inl IndexOutOfRange" by (rule make_groups_too_many [OF w d assms(2) sz])
  ultimately show ?thesis using c(1,2) by (simp add: z_make_config_def)
qed

text \<open>Names of the right number for each use.\<close>

definition z_names_ok :: "(nat \<Rightarrow> string list) \<Rightarrow> string list \<Rightarrow> (nat \<Rightarrow> nat \<Rightarrow> ('s, 'o, 'v) start_args) \<Rightarrow> nat \<Rightarrow> bool" where
  "z_names_ok mnames cknames args n \<longleftrightarrow> list_all (\<lambda>i. length (mnames i) = 3) [0..<3] \<and> length cknames = 3 \<and>
     list_all (\<lambda>gi. list_all (\<lambda>i. length (sa_names (args gi i)) = n \<and> length (sa_mnames (args gi i)) = 3) [0..<n]) [0..<3] \<and>
     distinct (map fst (z_all_pairs mnames cknames args n))"

lemma all_pairs_nth:
  assumes "gi < 3" "i < n" "length (sa_names (args gi i)) = n" "length (sa_mnames (args gi i)) = 3"
  shows "j < n \<Longrightarrow> (sa_names (args gi i) ! j, servername (100 + gi) j) \<in> set (z_all_pairs mnames cknames args n)"
    and "j < 3 \<Longrightarrow> (sa_mnames (args gi i) ! j, mastername j) \<in> set (z_all_pairs mnames cknames args n)"
proof -
  have sub: "set (server_pairs (args gi i) n gi) \<subseteq> set (z_all_pairs mnames cknames args n)"
    using assms(1,2) by (fastforce simp: z_all_pairs_def group_pairs_def)
  show "(sa_names (args gi i) ! j, servername (100 + gi) j) \<in> set (z_all_pairs mnames cknames args n)" if "j < n"
    using that assms(3) by (intro subsetD [OF sub]) (auto simp: server_pairs_def set_zip)
  show "(sa_mnames (args gi i) ! j, mastername j) \<in> set (z_all_pairs mnames cknames args n)" if "j < 3"
    using that assms(4) by (intro subsetD [OF sub]) (auto simp: server_pairs_def master_pairs_def set_zip)
qed

text \<open>
  C40: with fresh names, \<open>make_config\<close> of groups of up to three servers returns a cluster in which every
  server reaches every server of its own group under that server's name, and every shard master; with more than three
  servers per group it panics, because \<open>mendnames\<close> has a row per shard master and is indexed by server.
\<close>

theorem shard_cluster_wiring:
  fixes args :: "nat \<Rightarrow> nat \<Rightarrow> ('s, 'o, 'v) start_args" and ms :: "nat \<Rightarrow> 'm"
  assumes "z_names_ok mnames cknames args n"
  shows "if n \<le> 3
    then \<exists>cfg. (z_make_config mnames ms msvcs cknames args n unreliable maxr :: ('m, 's, 'o, 'v) shard_config res) = Inr cfg \<and>
      (\<forall>gi<3. \<forall>i<n.
        (\<forall>j<n. reachable_end (sa_names (args gi i) ! j) (z_net cfg) \<and>
           connections (z_net cfg) (sa_names (args gi i) ! j) = Some (servername (100 + gi) j)) \<and>
        (\<forall>j<3. reachable_end (sa_mnames (args gi i) ! j) (z_net cfg) \<and>
           connections (z_net cfg) (sa_mnames (args gi i) ! j) = Some (mastername j)))
    else (z_make_config mnames ms msvcs cknames args n unreliable maxr :: ('m, 's, 'o, 'v) shard_config res) = Inl IndexOutOfRange"
proof (cases "n \<le> 3")
  case True
  have d: "distinct (map fst (z_all_pairs mnames cknames args n))" using assms by (simp add: z_names_ok_def)
  from make_config_wired [OF d True, of ms msvcs unreliable maxr] obtain cfg where
    cfg: "(z_make_config mnames ms msvcs cknames args n unreliable maxr :: ('m, 's, 'o, 'v) shard_config res) = Inr cfg"
    "net_wired (z_all_pairs mnames cknames args n) (mastername ` {..<3} \<union> (\<Union>g\<in>{0..<3}. servername (100 + g) ` {0..<n})) (z_net cfg)" by blast
  have len: "length (sa_names (args gi i)) = n" "length (sa_mnames (args gi i)) = 3" if "gi < 3" "i < n" for gi i
    using assms that by (simp_all add: z_names_ok_def list_all_iff)
  have "reachable_end (sa_names (args gi i) ! j) (z_net cfg) \<and> connections (z_net cfg) (sa_names (args gi i) ! j) = Some (servername (100 + gi) j)"
    if "gi < 3" "i < n" "j < n" for gi i j
    by (rule net_wired_reach [OF cfg(2) all_pairs_nth(1) [of gi i n args, OF that(1,2) len [OF that(1,2)] that(3)]])
      (use that in \<open>intro UnI2 UN_I [of gi], simp_all\<close>)
  moreover have "reachable_end (sa_mnames (args gi i) ! j) (z_net cfg) \<and> connections (z_net cfg) (sa_mnames (args gi i) ! j) = Some (mastername j)"
    if "gi < 3" "i < n" "j < 3" for gi i j
    by (rule net_wired_reach [OF cfg(2) all_pairs_nth(2) [of gi i n args, OF that(1,2) len [OF that(1,2)] that(3)]])
      (use that in auto)
  ultimately show ?thesis using True cfg(1) by auto
next
  case False
  then show ?thesis using make_config_too_many [of mnames cknames args n ms msvcs unreliable maxr] assms by (simp add: z_names_ok_def)
qed

text \<open>A cluster of two servers per group; the names are the letters of an alphabet of numbers.\<close>

definition demo_name :: "nat \<Rightarrow> string" where
  "demo_name k = [char_of (k + 1)]"

definition demo_start :: "nat \<Rightarrow> nat \<Rightarrow> (nat, nat, nat) start_args" where
  "demo_start gi i = (let k = 12 + 10 * gi + 5 * i in
     \<lparr>sa_names = map demo_name [k, k + 1], sa_mnames = map demo_name [k + 2, k + 3, k + 4], sa_server = 10 * gi + i,
      sa_svcs = (MakeService ''ShardKV'' 0 [], MakeService ''Raft'' 0 [])\<rparr>)"

definition demo_mnames :: "nat \<Rightarrow> string list" where
  "demo_mnames i = map demo_name [3 * i, 3 * i + 1, 3 * i + 2]"

theorem shard_cluster_wiring_witness:
  "\<exists>cfg. (z_make_config demo_mnames (\<lambda>i. i) (\<lambda>_. (MakeService ''ShardMaster'' 0 [], MakeService ''Raft'' 0 [])) (map demo_name [9, 10, 11])
        demo_start 2 False (-1) :: (nat, nat, nat, nat) shard_config res) = Inr cfg \<and>
      reachable_end (sa_names (demo_start 1 0) ! 1) (z_net cfg) \<and>
      connections (z_net cfg) (sa_names (demo_start 1 0) ! 1) = Some (servername 101 1) \<and>
      reachable_end (sa_mnames (demo_start 2 1) ! 2) (z_net cfg)"
proof -
  have "z_names_ok demo_mnames (map demo_name [9, 10, 11]) demo_start 2" by code_simp
  from shard_cluster_wiring [OF this, of "\<lambda>i. i" "\<lambda>_. (MakeService ''ShardMaster'' 0 [], MakeService ''Raft'' 0 [])" False "-1"]
  obtain cfg where cfg: "(z_make_config demo_mnames (\<lambda>i. i) (\<lambda>_. (MakeService ''ShardMaster'' 0 [], MakeService ''Raft'' 0 [])) (map demo_name [9, 10, 11])
        demo_start 2 False (-1) :: (nat, nat, nat, nat) shard_config res) = Inr cfg"
    and r: "\<forall>gi<3. \<forall>i<2. (\<forall>j<2. reachable_end (sa_names (demo_start gi i) ! j) (z_net cfg) \<and>
           connections (z_net cfg) (sa_names (demo_start gi i) ! j) = Some (servername (100 + gi) j)) \<and>
        (\<forall>j<3. reachable_end (sa_mnames (demo_start gi i) ! j) (z_net cfg) \<and>
           connections (z_net cfg) (sa_mnames (demo_start gi i) ! j) = Some (mastername j))" by auto
  show ?thesis using cfg r [rule_format, of 1 0] r [rule_format, of 2 1] by (intro exI [of _ cfg]) simp
qed

end
