(* ===== verification/KvRuns.thy ===== *)
theory KvRuns
  imports KvConfig
begin

text \<open>
  What the harness of the key-value service (\<^verbatim>\<open>kvraft/config.go\<close>) guarantees after an arbitrary sequence of its operations: the tests
  connect and disconnect servers, partition them, make and delete clerks, and stop and restart servers, in any order.  An
  invariant of the wiring holds after every such sequence, so partitions and new clerks reach exactly the
  servers they are meant to reach.
\<close>

section \<open>Runs of the harness\<close>

datatype ('s, 'o, 'v) m_op =
    MConnect nat "nat list"
  | MDisconnect nat "nat list"
  | MConnectAll
  | MPartition "nat list" "nat list"
  | MMakeClient "string list" "nat list" nat "nat list"
  | MDeleteClient nat
  | MConnectClient nat "nat list"
  | MDisconnectClient nat "nat list"
  | MShutdown nat
  | MStart "string list" 's "('o, 'v) Service \<times> ('o, 'v) Service" nat

definition k_step :: "('s, 'o, 'v) m_op \<Rightarrow> ('s, 'o, 'v) kv_config \<Rightarrow> ('s, 'o, 'v) kv_config res" where
  "k_step op cfg =
     (case op of
        MConnect i to \<Rightarrow> connectUnlocked i to cfg
      | MDisconnect i fr \<Rightarrow> disconnectUnlocked i fr cfg
      | MConnectAll \<Rightarrow> ConnectAll cfg
      | MPartition p1 p2 \<Rightarrow> kv_partition_net p1 p2 cfg
      | MMakeClient names rs ck to \<Rightarrow> rbind (makeClient names rs ck to cfg) (\<lambda>(c, _). Inr c)
      | MDeleteClient ck \<Rightarrow> Inr (deleteClient ck cfg)
      | MConnectClient ck to \<Rightarrow> ConnectClientUnlocked ck to cfg
      | MDisconnectClient ck fr \<Rightarrow> DisconnectClientUnlocked ck fr cfg
      | MShutdown i \<Rightarrow> ShutdownServer i cfg
      | MStart names s svcs i \<Rightarrow> StartServer names s svcs i cfg)"

fun k_run :: "('s, 'o, 'v) m_op list \<Rightarrow> ('s, 'o, 'v) kv_config \<Rightarrow> ('s, 'o, 'v) kv_config res" where
  "k_run [] cfg = Inr cfg"
| "k_run (op # ops) cfg = rbind (k_step op cfg) (k_run ops)"

text \<open>\<open>StartServer\<close> and \<open>makeClient\<close> draw one name per server.\<close>

fun draws :: "nat \<Rightarrow> ('s, 'o, 'v) m_op \<Rightarrow> bool" where
  "draws n (MMakeClient names rs ck to) \<longleftrightarrow> length names = n"
| "draws n (MStart names s svcs i) \<longleftrightarrow> length names = n"
| "draws n _ \<longleftrightarrow> True"

section \<open>Operations that only enable and disable end-points\<close>

definition only_enables :: "('s, 'o, 'v) kv_config \<Rightarrow> ('s, 'o, 'v) kv_config \<Rightarrow> bool" where
  "only_enables cfg cfg' \<longleftrightarrow> (\<exists>ops. cfg' = k_apply ops cfg)"

lemma only_enables_refl [simp]: "only_enables cfg cfg"
  unfolding only_enables_def by (metis k_apply_simps(1))

lemma only_enables_trans: "only_enables a b \<Longrightarrow> only_enables b c \<Longrightarrow> only_enables a c"
  unfolding only_enables_def by (metis k_apply_append)

lemma only_enables_enable: "only_enables (k_enable e b cfg) cfg' \<Longrightarrow> only_enables cfg cfg'"
  unfolding only_enables_def k_apply_enable by (metis k_apply_append)

lemma only_enables_rbind:
  assumes "rbind m f = Inr c" and "\<And>x. m = Inr x \<Longrightarrow> only_enables a x" and "\<And>x. f x = Inr c \<Longrightarrow> only_enables x c"
  shows "only_enables a c"
  using assms only_enables_trans by (cases m) auto

lemma loops_only_enable:
  "k_connect_out i ts cfg = Inr cfg' \<Longrightarrow> only_enables cfg cfg'" "k_connect_in i ts cfg = Inr cfg' \<Longrightarrow> only_enables cfg cfg'"
  "k_disconnect_out i ts cfg = Inr cfg' \<Longrightarrow> only_enables cfg cfg'" "k_disconnect_in i j ts cfg = Inr cfg' \<Longrightarrow> only_enables cfg cfg'"
  "client_enable b ns ts cfg = Inr cfg' \<Longrightarrow> only_enables cfg cfg'"
  by (induction ts arbitrary: cfg j) (auto simp: rbind_eq_Inr split: if_splits; metis only_enables_enable)+

lemma connect_only_enables:
  "connectUnlocked i to cfg = Inr cfg' \<Longrightarrow> only_enables cfg cfg'" "disconnectUnlocked i fr cfg = Inr cfg' \<Longrightarrow> only_enables cfg cfg'"
  unfolding connectUnlocked_def disconnectUnlocked_def by (auto elim!: only_enables_rbind dest: loops_only_enable)

lemma connect_each_only_enables: "connect_each is cfg = Inr cfg' \<Longrightarrow> only_enables cfg cfg'"
  by (induction "is" arbitrary: cfg) (auto elim!: only_enables_rbind dest: connect_only_enables)

lemma isolate_each_only_enables: "isolate_each own other is cfg = Inr cfg' \<Longrightarrow> only_enables cfg cfg'"
proof (induction "is" arbitrary: cfg)
  case (Cons i "is")
  from Cons.prems show ?case unfolding isolate_each.simps
    by (auto elim!: only_enables_rbind dest: connect_only_enables Cons.IH)
qed simp

lemma partition_only_enables: "kv_partition_net p1 p2 cfg = Inr cfg' \<Longrightarrow> only_enables cfg cfg'"
  unfolding kv_partition_net_def by (auto elim!: only_enables_rbind dest: isolate_each_only_enables)

section \<open>The wiring\<close>

definition k_inv :: "('s, 'o, 'v) kv_config \<Rightarrow> bool" where
  "k_inv cfg \<longleftrightarrow> all_started cfg \<and> names_inj cfg \<and> k_shape cfg \<and>
     (\<forall>i<k_n cfg. \<forall>j<k_n cfg. ends (k_net cfg) (k_name cfg i j) \<noteq> None \<and> connections (k_net cfg) (k_name cfg i j) = Some j) \<and>
     (\<forall>i<k_n cfg. kvservers cfg ! i \<noteq> None \<longleftrightarrow> servers (k_net cfg) i \<noteq> None)"

lemma k_inv_congs:
  assumes "k_inv cfg" and "k_n cfg' = k_n cfg" and "k_endnames cfg' = k_endnames cfg" and "k_shape cfg'"
    and "\<And>i j. i < k_n cfg \<Longrightarrow> j < k_n cfg \<Longrightarrow> ends (k_net cfg') (k_name cfg i j) \<noteq> None \<and>
      connections (k_net cfg') (k_name cfg i j) = Some j"
    and "\<And>i. i < k_n cfg \<Longrightarrow> kvservers cfg' ! i \<noteq> None \<longleftrightarrow> servers (k_net cfg') i \<noteq> None"
  shows "k_inv cfg'"
proof -
  have "k_name cfg' = k_name cfg" using assms(3) by (simp add: k_name_def fun_eq_iff)
  then show ?thesis using assms by (simp add: k_inv_def all_started_def names_inj_def)
qed

lemma k_inv_only_enables:
  assumes "k_inv cfg" and "only_enables cfg cfg'"
  shows "k_inv cfg' \<and> k_n cfg' = k_n cfg"
proof -
  from assms(2) obtain ops where e: "cfg' = k_apply ops cfg" unfolding only_enables_def by blast
  show ?thesis using assms(1) k_inv_congs [OF assms(1), of cfg'] unfolding e by (simp add: k_inv_def k_apply_def k_shape_def)
qed

lemma make_ends_fresh:
  "make_ends ps rn = Inr rn' \<Longrightarrow> distinct (map snd ps) \<and> (\<forall>p\<in>set ps. ends rn (snd p) = None)"
proof (induction ps rn rule: make_ends.induct)
  case (2 j en rest rn)
  then obtain rn1 where rn1: "MakeEnd en rn = Inr rn1" "make_ends rest (Connect en j rn1) = Inr rn'" by (auto simp: rbind_eq_Inr)
  have "ends rn en = None" using rn1(1) by (cases "ends rn en") (simp_all add: MakeEnd_def)
  then have e: "ends (Connect en j rn1) = (ends rn)(en \<mapsto> ())" using rn1(1) by (auto simp: MakeEnd_def Connect_def)
  from 2(1) [OF rn1(2)] have r: "distinct (map snd rest)" "\<forall>p\<in>set rest. ((ends rn)(en \<mapsto> ())) (snd p) = None" by (simp_all add: e)
  then have "\<forall>p\<in>set rest. snd p \<noteq> en \<and> ends rn (snd p) = None" by (metis fun_upd_apply option.distinct(1))
  with r(1) \<open>ends rn en = None\<close> show ?case by auto
qed simp

text \<open>Names that \<open>MakeEnd\<close> accepts are new and different.\<close>

lemma make_ends_made:
  assumes "make_ends (zip [0..<n] names) rn = Inr rn'" and "length names = n"
  shows "distinct names" "list_all (\<lambda>e. ends rn e = None) names" "row_made names rn rn'"
proof -
  have ps: "map snd (zip [0..<n] names) = names" using assms(2) by simp
  show d: "distinct names" using make_ends_fresh [OF assms(1)] unfolding ps by blast
  have "\<forall>e\<in>set (map snd (zip [0..<n] names)). ends rn e = None" using make_ends_fresh [OF assms(1)] by auto
  then show f: "list_all (\<lambda>e. ends rn e = None) names" unfolding ps by (simp add: list_all_iff)
  from make_ends_row [OF assms(2) d f] assms(1) show "row_made names rn rn'" by auto
qed

lemma k_inv_name_old:
  assumes "k_inv cfg" and "list_all (\<lambda>e. ends (k_net cfg) e = None) names" and "i < k_n cfg" "j < k_n cfg"
  shows "k_name cfg i j \<notin> set names"
  using assms by (auto simp: k_inv_def list_all_iff)

lemma k_inv_start:
  assumes inv: "k_inv cfg" and len: "length names = k_n cfg" and run: "StartServer names kv svcs i cfg = Inr cfg'"
  shows "k_inv cfg' \<and> k_n cfg' = k_n cfg"
proof -
  have sh: "k_shape cfg" and st: "all_started cfg" using inv by (simp_all add: k_inv_def)
  from run obtain rn where i': "i < length (k_endnames cfg)" and rn: "make_ends (zip [0..<k_n cfg] names) (k_net cfg) = Inr rn"
    by (auto simp: StartServer_def rbind_eq_Inr slice_set_def split: if_splits)
  have i: "i < k_n cfg" using i' sh by (simp add: k_shape_def)
  note md = make_ends_made [OF rn len]
  from StartServer_result [OF sh i len rn, of kv svcs] run obtain p where cfg': "cfg' = cfg\<lparr>k_endnames := (k_endnames cfg)[i := Some names],
      k_pheap := k_pheap cfg @ [p], k_saved := (k_saved cfg)[i := Some (length (k_pheap cfg))], kvservers := (kvservers cfg)[i := Some kv],
      k_sheap := k_sheap cfg @ [AddService (snd svcs) (AddService (fst svcs) MakeServer)], k_net := AddServer i (length (k_sheap cfg)) rn\<rparr>"
    by auto
  have n: "k_n cfg' = k_n cfg" unfolding cfg' by simp
  have nm: "k_name cfg' a b = (if a = i then names ! b else k_name cfg a b)" if "a < k_n cfg" for a b
    using i' that unfolding cfg' by (simp add: k_name_def nth_list_update)
  have old: "k_name cfg a b \<notin> set names" if "a < k_n cfg" "b < k_n cfg" for a b by (rule k_inv_name_old [OF inv md(2) that])
  have "k_shape cfg'" using sh unfolding cfg' by (auto simp: k_shape_def nth_update_if split: if_splits intro: less_SucI)
  moreover have "all_started cfg'" using st i' len unfolding cfg' by (auto simp: all_started_def nth_list_update)
  moreover have "names_inj cfg'" unfolding names_inj_def n
  proof (rule inj_onI, clarsimp)
    fix a b a' b' assume lt: "a < k_n cfg" "b < k_n cfg" "a' < k_n cfg" "b' < k_n cfg" and e: "k_name cfg' a b = k_name cfg' a' b'"
    have m: "names ! b \<in> set names" "names ! b' \<in> set names" using lt len by simp_all
    consider "a = i" "a' = i" | "a \<noteq> i" "a' \<noteq> i" using e m old [OF lt(1,2)] old [OF lt(3,4)] nm lt by metis
    then show "a = a' \<and> b = b'"
    proof cases
      case 1
      then show ?thesis using e nm lt md(1) len by (simp add: nth_eq_iff_index_eq)
    next
      case 2
      moreover have "names_inj cfg" using inv by (simp add: k_inv_def)
      ultimately show ?thesis using names_injD [of cfg a b a' b'] e nm lt by simp
    qed
  qed
  moreover have "ends (k_net cfg') (k_name cfg' a b) \<noteq> None \<and> connections (k_net cfg') (k_name cfg' a b) = Some b"
    if lt: "a < k_n cfg" "b < k_n cfg" for a b
  proof (cases "a = i")
    case True
    then show ?thesis using md(3) lt len nm by (simp add: cfg' AddServer_def row_made_def)
  next
    case False
    moreover have "ends (k_net cfg) (k_name cfg a b) \<noteq> None" "connections (k_net cfg) (k_name cfg a b) = Some b"
      using inv lt by (simp_all add: k_inv_def)
    ultimately show ?thesis using md(3) old [OF lt] nm [OF lt(1)] by (simp add: cfg' AddServer_def row_made_def)
  qed
  moreover have "kvservers cfg' ! a \<noteq> None \<longleftrightarrow> servers (k_net cfg') a \<noteq> None" if "a < k_n cfg" for a
  proof -
    have "length (kvservers cfg) = k_n cfg" "kvservers cfg ! a \<noteq> None \<longleftrightarrow> servers (k_net cfg) a \<noteq> None"
      using sh inv that by (simp_all add: k_shape_def k_inv_def)
    then show ?thesis using md(3) that i by (auto simp: cfg' AddServer_def row_made_def nth_list_update)
  qed
  ultimately show ?thesis unfolding k_inv_def n by blast
qed

lemma k_copy_saved_result:
  assumes "k_copy_saved i cfg = Inr cfg'" and "k_shape cfg"
  shows "\<exists>ph sv. cfg' = cfg\<lparr>k_pheap := ph, k_saved := sv\<rparr> \<and> k_shape cfg' \<and> i < k_n cfg"
proof (cases "k_saved cfg ! i")
  case None
  then have "cfg' = cfg" "i < k_n cfg" using assms by (auto simp: k_copy_saved_def rbind_eq_Inr slice_get_def k_shape_def split: if_splits)
  then show ?thesis using assms(2) by (intro exI [of _ "k_pheap cfg"] exI [of _ "k_saved cfg"]) simp
next
  case (Some a)
  with assms(1) have i: "i < length (k_saved cfg)"
    and e: "cfg' = cfg\<lparr>k_pheap := k_pheap cfg @ [Copy (k_pheap cfg ! a)], k_saved := (k_saved cfg)[i := Some (length (k_pheap cfg))]\<rparr>"
    by (auto simp: k_copy_saved_def k_new_saved_def rbind_eq_Inr slice_get_def slice_set_def split: if_splits)
  have "k_shape cfg'" using assms(2) unfolding e by (auto simp: k_shape_def nth_update_if split: if_splits intro: less_SucI)
  with e i assms(2) show ?thesis by (auto simp: k_shape_def)
qed

lemma k_inv_shutdown:
  assumes inv: "k_inv cfg" and run: "ShutdownServer i cfg = Inr cfg'"
  shows "k_inv cfg' \<and> k_n cfg' = k_n cfg"
proof -
  from run obtain c1 c3 kv where c1: "disconnectUnlocked i (All_servers cfg) cfg = Inr c1"
    and c3: "k_copy_saved i (c1\<lparr>k_net := DeleteServer i (k_net c1)\<rparr>) = Inr c3"
    and kv: "slice_get (kvservers c3) (int i) = Inr kv"
    and cfg': "(case kv of None \<Rightarrow> Inr c3
      | Some s \<Rightarrow> rbind (slice_set (kvservers c3) (int i) None) (\<lambda>ks. Inr (c3\<lparr>k_killed := s # k_killed c3, kvservers := ks\<rparr>))) = Inr cfg'"
    unfolding ShutdownServer_def Let_def by (auto simp only: rbind_eq_Inr)
  have inv1: "k_inv c1" "k_n c1 = k_n cfg" using k_inv_only_enables [OF inv connect_only_enables(2) [OF c1]] by simp_all
  let ?c2 = "c1\<lparr>k_net := DeleteServer i (k_net c1)\<rparr>"
  have "k_shape ?c2" using inv1(1) by (simp add: k_inv_def k_shape_def)
  from k_copy_saved_result [OF c3 this] obtain ph sv where r: "c3 = ?c2\<lparr>k_pheap := ph, k_saved := sv\<rparr>" "k_shape c3" "i < k_n c1" by auto
  have len: "length (kvservers c1) = k_n c1" using inv1(1) by (simp add: k_inv_def k_shape_def)
  have cfg'': "\<exists>kl. cfg' = c3\<lparr>k_killed := kl, kvservers := (kvservers c1)[i := None]\<rparr>"
  proof (cases kv)
    case None
    moreover have "kvservers c1 ! i = kv" using kv r len by simp
    ultimately have "cfg' = c3" "(kvservers c1)[i := None] = kvservers c1" using cfg' r(3) len by (simp_all add: list_update_same_conv)
    moreover have "kvservers c3 = kvservers c1" using r(1) by simp
    ultimately have "cfg' = c3\<lparr>k_killed := k_killed c3, kvservers := (kvservers c1)[i := None]\<rparr>" by (cases c3) simp
    then show ?thesis by blast
  next
    case (Some s)
    then show ?thesis using cfg' r(1,3) len by auto
  qed
  then obtain kl where e: "cfg' = c3\<lparr>k_killed := kl, kvservers := (kvservers c1)[i := None]\<rparr>" by blast
  have "k_inv cfg'"
  proof (rule k_inv_congs [OF inv1(1)])
    show "k_shape cfg'" using r(2) unfolding e r(1) by (simp add: k_shape_def)
    show "ends (k_net cfg') (k_name c1 a b) \<noteq> None \<and> connections (k_net cfg') (k_name c1 a b) = Some b" if "a < k_n c1" "b < k_n c1" for a b
      using inv1(1) that unfolding e r(1) by (simp add: k_inv_def DeleteServer_def)
    show "kvservers cfg' ! a \<noteq> None \<longleftrightarrow> servers (k_net cfg') a \<noteq> None" if "a < k_n c1" for a
      using inv1(1) that len r(3) unfolding e r(1) by (simp add: k_inv_def DeleteServer_def nth_list_update)
  qed (simp_all add: e r(1))
  then show ?thesis using inv1(2) by (simp add: e r(1))
qed

text \<open>A new clerk: its end-points are new and lead to all servers, and those in \<open>to\<close> are enabled.\<close>

lemma client_enable_result:
  "set ts \<subseteq> {..<length names} \<Longrightarrow> client_enable b names ts cfg = Inr (k_apply (map (\<lambda>t. (names ! t, b)) ts) cfg)"
  by (induction ts arbitrary: cfg) (simp_all add: k_apply_enable k_apply_append)

lemma makeClient_result:
  assumes inv: "k_inv cfg" and len: "length names = k_n cfg" and run: "makeClient names rs ck to cfg = Inr (cfg', handles)"
  shows "k_inv cfg' \<and> k_n cfg' = k_n cfg"
proof -
  from run obtain rn where rn: "make_ends (zip [0..<k_n cfg] names) (k_net cfg) = Inr rn"
    and c: "ConnectClientUnlocked ck to (cfg\<lparr>k_net := rn, clerks := (clerks cfg)(ck \<mapsto> take (k_n cfg) names), nextClientId := nextClientId cfg + 1\<rparr>) = Inr cfg'"
    by (auto simp: makeClient_def Let_def rbind_eq_Inr)
  let ?c1 = "cfg\<lparr>k_net := rn, clerks := (clerks cfg)(ck \<mapsto> take (k_n cfg) names), nextClientId := nextClientId cfg + 1\<rparr>"
  note md = make_ends_made [OF rn len]
  have inv1: "k_inv ?c1"
  proof (rule k_inv_congs [OF inv])
    show "ends (k_net ?c1) (k_name cfg a b) \<noteq> None \<and> connections (k_net ?c1) (k_name cfg a b) = Some b" if "a < k_n cfg" "b < k_n cfg" for a b
      using k_inv_name_old [OF inv md(2) that] md(3) inv that by (simp add: k_inv_def row_made_def)
    show "kvservers ?c1 ! a \<noteq> None \<longleftrightarrow> servers (k_net ?c1) a \<noteq> None" if "a < k_n cfg" for a
      using inv md(3) that by (simp add: k_inv_def row_made_def)
  qed (use inv in \<open>simp_all add: k_inv_def k_shape_def\<close>)
  have "only_enables ?c1 cfg'" by (rule loops_only_enable(5) [OF c [unfolded ConnectClientUnlocked_def]])
  from k_inv_only_enables [OF inv1 this] show ?thesis by simp
qed

lemma k_inv_step:
  assumes inv: "k_inv cfg" and ok: "draws (k_n cfg) op" and run: "k_step op cfg = Inr cfg'"
  shows "k_inv cfg' \<and> k_n cfg' = k_n cfg"
proof (cases op)
  case (MMakeClient names rs ck to)
  with run obtain handles where "makeClient names rs ck to cfg = Inr (cfg', handles)" by (auto simp: k_step_def rbind_eq_Inr)
  with MMakeClient ok show ?thesis using makeClient_result [OF inv] by simp
next
  case (MDeleteClient ck)
  with run have e: "cfg' = deleteClient ck cfg" by (simp add: k_step_def)
  show ?thesis using inv k_inv_congs [OF inv, of cfg'] unfolding e by (simp add: deleteClient_def k_inv_def k_shape_def)
next
  case (MShutdown i)
  with run show ?thesis using k_inv_shutdown [OF inv] by (simp add: k_step_def)
next
  case (MStart names s svcs i)
  with run ok show ?thesis using k_inv_start [OF inv] by (simp add: k_step_def)
next
  case (MConnect i to)
  with run show ?thesis using k_inv_only_enables [OF inv connect_only_enables(1)] by (simp add: k_step_def)
next
  case (MDisconnect i fr)
  with run show ?thesis using k_inv_only_enables [OF inv connect_only_enables(2)] by (simp add: k_step_def)
next
  case MConnectAll
  with run show ?thesis using k_inv_only_enables [OF inv connect_each_only_enables] by (simp add: k_step_def ConnectAll_def)
next
  case (MPartition p1 p2)
  with run show ?thesis using k_inv_only_enables [OF inv partition_only_enables] by (simp add: k_step_def)
next
  case (MConnectClient ck to)
  with run show ?thesis using k_inv_only_enables [OF inv loops_only_enable(5)] by (simp add: k_step_def ConnectClientUnlocked_def)
next
  case (MDisconnectClient ck fr)
  with run show ?thesis using k_inv_only_enables [OF inv loops_only_enable(5)] by (simp add: k_step_def DisconnectClientUnlocked_def)
qed

lemma k_inv_run: "k_run ops cfg = Inr cfg' \<Longrightarrow> k_inv cfg \<Longrightarrow> list_all (draws (k_n cfg)) ops \<Longrightarrow> k_inv cfg' \<and> k_n cfg' = k_n cfg"
proof (induction ops arbitrary: cfg)
  case (Cons op ops)
  then obtain c1 where c1: "k_step op cfg = Inr c1" "k_run ops c1 = Inr cfg'" by (auto simp: rbind_eq_Inr)
  from k_inv_step [OF Cons.prems(2) _ c1(1)] Cons.prems(3) have "k_inv c1" "k_n c1 = k_n cfg" by simp_all
  with Cons.IH [OF c1(2)] Cons.prems(3) show ?case by simp
qed simp

lemma k_inv_make_config:
  assumes "names_ok n names" and "kv_make_config names kv svcs n unrel maxr = Inr cfg"
  shows "k_inv cfg" and "k_n cfg = n"
proof -
  note mk = kv_make_config_facts [OF assms]
  have "kvservers cfg ! i \<noteq> None" if "i < n" for i using mk(4,5) that by (simp add: list_all_length)
  then show "k_inv cfg" using mk by (simp add: k_inv_def)
  show "k_n cfg = n" by (rule mk(3))
qed

section \<open>Partitions and clerks\<close>

definition running :: "('s, 'o, 'v) kv_config \<Rightarrow> nat \<Rightarrow> bool" where
  "running cfg j \<longleftrightarrow> kvservers cfg ! j \<noteq> None"

lemma partition_exact:
  assumes inv: "k_inv cfg" and sub: "set p1 \<union> set p2 \<subseteq> {..<k_n cfg}" and "distinct p1" and "distinct p2" and "set p1 \<inter> set p2 = {}"
  shows "\<exists>cfg'. kv_partition_net p1 p2 cfg = Inr cfg' \<and>
    (\<forall>i j. i \<in> set p1 \<union> set p2 \<and> j \<in> set p1 \<union> set p2 \<longrightarrow>
       (reachable_end (k_name cfg i j) (k_net cfg') \<longleftrightarrow> same_side p1 p2 i j \<and> running cfg j)) \<and>
    (\<forall>e. (\<forall>i\<in>set p1 \<union> set p2. \<forall>j\<in>set p1 \<union> set p2. e \<noteq> k_name cfg i j) \<longrightarrow>
       reachable_end e (k_net cfg') = reachable_end e (k_net cfg))"
proof -
  have st: "all_started cfg" "names_inj cfg" using inv by (simp_all add: k_inv_def)
  have len: "length p \<le> k_n cfg" if "distinct p" "set p \<subseteq> {..<k_n cfg}" for p :: "nat list"
    using card_mono [OF _ that(2)] distinct_card [OF that(1)] by simp
  have "length p1 \<le> k_n cfg" "length p2 \<le> k_n cfg" using len assms(2-4) by simp_all
  then obtain ops where ops: "kv_partition_net p1 p2 cfg = Inr (k_apply ops cfg)"
      "\<forall>i j. i \<in> set p1 \<union> set p2 \<and> j \<in> set p1 \<union> set p2 \<longrightarrow> enabled (k_net (k_apply ops cfg)) (k_name cfg i j) = same_side p1 p2 i j"
      "\<forall>e. (\<forall>i\<in>set p1 \<union> set p2. \<forall>j\<in>set p1 \<union> set p2. e \<noteq> k_name cfg i j) \<longrightarrow> enabled (k_net (k_apply ops cfg)) e = enabled (k_net cfg) e"
    using kv_partition_enabled [OF st, of p1 p2] sub assms(5) by auto
  have "reachable_end (k_name cfg i j) (k_net (k_apply ops cfg)) \<longleftrightarrow> same_side p1 p2 i j \<and> running cfg j"
    if "i \<in> set p1 \<union> set p2" "j \<in> set p1 \<union> set p2" for i j
  proof -
    have lt: "i < k_n cfg" "j < k_n cfg" using that sub by auto
    have "enabled (k_net (k_apply ops cfg)) (k_name cfg i j) = same_side p1 p2 i j" using ops(2) that by blast
    moreover have "connections (k_net cfg) (k_name cfg i j) = Some j" "running cfg j \<longleftrightarrow> servers (k_net cfg) j \<noteq> None"
      using inv lt by (simp_all add: k_inv_def running_def)
    ultimately show ?thesis by (simp add: reachable_end_def)
  qed
  moreover have "reachable_end e (k_net (k_apply ops cfg)) = reachable_end e (k_net cfg)"
    if "\<forall>i\<in>set p1 \<union> set p2. \<forall>j\<in>set p1 \<union> set p2. e \<noteq> k_name cfg i j" for e
    using ops(3) that by (simp add: reachable_end_def split: option.split)
  ultimately show ?thesis using ops(1) by blast
qed

text \<open>A clerk is made with a permutation of its end-points, and over the one for server \<open>j\<close> it reaches \<open>j\<close> if \<open>j\<close> is in \<open>to\<close> and runs.\<close>

lemma clerk_exact:
  assumes inv: "k_inv cfg" and len: "length names = k_n cfg" and fresh: "distinct names" "list_all (\<lambda>e. ends (k_net cfg) e = None) names"
    and to: "set to \<subseteq> {..<k_n cfg}" and rs: "list_all2 (\<le>) rs [0..<k_n cfg]"
  shows "\<exists>cfg' handles. makeClient names rs ck to cfg = Inr (cfg', handles) \<and> mset handles = mset names \<and> clerks cfg' ck = Some names \<and>
    (\<forall>j<k_n cfg. reachable_end (names ! j) (k_net cfg') \<longleftrightarrow> j \<in> set to \<and> running cfg j)"
proof -
  from make_ends_row [OF len fresh] obtain rn where rn: "make_ends (zip [0..<k_n cfg] names) (k_net cfg) = Inr rn" "row_made names (k_net cfg) rn" by blast
  let ?c1 = "cfg\<lparr>k_net := rn, clerks := (clerks cfg)(ck \<mapsto> names), nextClientId := nextClientId cfg + 1\<rparr>"
  let ?ops = "map (\<lambda>t. (names ! t, True)) to"
  have "clerk_names ck ?c1 = names" by (simp add: clerk_names_def)
  then have run: "makeClient names rs ck to cfg = Inr (k_apply ?ops ?c1, random_handles rs names)"
    using rn(1) len client_enable_result [of to names True ?c1] to by (simp add: makeClient_def Let_def ConnectClientUnlocked_def)
  have "length rs = length names" using list_all2_lengthD [OF rs] len by simp
  then have "mset (random_handles rs names) = mset names"
    using shuffle_mset [of rs 0 names] rs len by (simp add: random_handles_def)
  moreover have "reachable_end (names ! j) (k_net (k_apply ?ops ?c1)) \<longleftrightarrow> j \<in> set to \<and> running cfg j" if j: "j < k_n cfg" for j
  proof -
    have e: "fold (\<lambda>(e, b) en. en(e := b)) ?ops (enabled rn) (names ! j) = (if names ! j \<in> fst ` set ?ops then True else enabled rn (names ! j))"
      by (rule fold_enable) auto
    have "names ! j \<in> fst ` set ?ops \<longleftrightarrow> (\<exists>t\<in>set to. names ! j = names ! t)" by (auto simp: image_image)
    also have "\<dots> \<longleftrightarrow> j \<in> set to"
    proof -
      have "names ! j = names ! t \<longleftrightarrow> j = t" if "t \<in> set to" for t
        using that to j len nth_eq_iff_index_eq [OF fresh(1)] by auto
      then show ?thesis by auto
    qed
    finally have "enabled (k_net (k_apply ?ops ?c1)) (names ! j) \<longleftrightarrow> j \<in> set to"
      using e rn(2) j len by (simp add: k_apply_def row_made_def)
    moreover have "connections rn (names ! j) = Some j" "servers rn j = servers (k_net cfg) j" using rn(2) j len by (simp_all add: row_made_def)
    moreover have "running cfg j \<longleftrightarrow> servers (k_net cfg) j \<noteq> None" using inv j by (simp add: k_inv_def running_def)
    ultimately show ?thesis by (simp add: reachable_end_def)
  qed
  moreover have "clerks (k_apply ?ops ?c1) ck = Some names" by (simp add: k_apply_def)
  ultimately show ?thesis using run by blast
qed

section \<open>Properties\<close>

text \<open>
  C36. Partitions, at any time.  Let a cluster be set up and driven through any operations of the harness: servers and clerks connected
  and disconnected, earlier partitions, servers stopped and started again with new end-points.  Then \<open>partition(p1, p2)\<close> does not panic,
  and afterwards the current instance of a server of either part reaches exactly the running servers of its own part:
  links within a part are restored, links between the parts are cut in both directions, and no other
  end-point (of clerks, of servers in neither part, of old instances) is touched.
\<close>

theorem kv_partition_exact:
  assumes "names_ok n names" and "kv_make_config names kv svcs n unrel maxr = Inr cfg0"
    and "k_run ops cfg0 = Inr cfg" and "list_all (draws n) ops"
    and "set p1 \<union> set p2 \<subseteq> {..<n}" and "distinct p1" and "distinct p2" and "set p1 \<inter> set p2 = {}"
  shows "\<exists>cfg'. kv_partition_net p1 p2 cfg = Inr cfg' \<and>
    (\<forall>i j. i \<in> set p1 \<union> set p2 \<and> j \<in> set p1 \<union> set p2 \<longrightarrow>
       (reachable_end (k_name cfg i j) (k_net cfg') \<longleftrightarrow>
          (i \<in> set p1 \<and> j \<in> set p1 \<or> i \<in> set p2 \<and> j \<in> set p2) \<and> kvservers cfg ! j \<noteq> None)) \<and>
    (\<forall>e. (\<forall>i\<in>set p1 \<union> set p2. \<forall>j\<in>set p1 \<union> set p2. e \<noteq> k_name cfg i j) \<longrightarrow>
       reachable_end e (k_net cfg') = reachable_end e (k_net cfg))"
proof -
  note mk = k_inv_make_config [OF assms(1,2)]
  from k_inv_run [OF assms(3) mk(1)] assms(4) mk(2) have "k_inv cfg" "k_n cfg = n" by simp_all
  from partition_exact [OF this(1), of p1 p2] this(2) assms(5-8) show ?thesis unfolding same_side_def running_def by simp
qed

text \<open>Of two servers, 1 is cut off, stopped, and started again with new names, which leaves it cut off; then both are put into one part.\<close>

definition two_names :: "nat \<Rightarrow> string list" where
  "two_names i = (if i = 0 then [''a'', ''b''] else [''c'', ''d''])"

definition two_servers :: "(nat, nat, nat) kv_config res" where
  "two_servers = kv_make_config two_names (\<lambda>i. i) (\<lambda>_. (MakeService [] 0 [], MakeService [] 0 [])) 2 False (-1)"

definition two_ops :: "(nat, nat, nat) m_op list" where
  "two_ops = [MDisconnect 1 [0, 1], MShutdown 1, MStart [''A'', ''B''] 7 (MakeService [] 0 [], MakeService [] 0 []) 1]"

lemma two_names_ok: "names_ok 2 two_names"
  by code_simp

lemma two_run: "case two_servers of Inl _ \<Rightarrow> False | Inr cfg \<Rightarrow>
    (case k_run two_ops cfg of Inl _ \<Rightarrow> False | Inr c \<Rightarrow> kvservers c = [Some 0, Some 7] \<and> k_name c 1 0 = ''A'' \<and> \<not> enabled (k_net c) ''A'')"
  by code_simp

theorem kv_partition_exact_witness:
  "\<exists>cfg0 cfg cfg' :: (nat, nat, nat) kv_config. two_servers = Inr cfg0 \<and> k_run two_ops cfg0 = Inr cfg \<and>
     kv_partition_net [0, 1] [] cfg = Inr cfg' \<and> \<not> reachable_end ''A'' (k_net cfg) \<and> reachable_end ''A'' (k_net cfg')"
proof -
  obtain cfg0 cfg where c0: "two_servers = Inr cfg0" and c: "k_run two_ops cfg0 = Inr cfg"
    and v: "kvservers cfg = [Some 0, Some 7]" "k_name cfg 1 0 = ''A''" "\<not> enabled (k_net cfg) ''A''"
    using two_run by (auto split: sum.splits)
  have "list_all (draws 2) two_ops" "set [0 :: nat, 1] \<union> set [] \<subseteq> {..<2}" "distinct [0 :: nat, 1]" "distinct ([] :: nat list)"
    "set [0 :: nat, 1] \<inter> set [] = {}" by (auto simp: two_ops_def)
  from kv_partition_exact [OF two_names_ok c0 [unfolded two_servers_def] c this] obtain cfg' where p: "kv_partition_net [0, 1] [] cfg = Inr cfg'"
    and r: "\<And>i j. i \<in> {0, 1} \<Longrightarrow> j \<in> {0, 1} \<Longrightarrow> reachable_end (k_name cfg i j) (k_net cfg') \<longleftrightarrow> kvservers cfg ! j \<noteq> None"
    by (auto simp del: One_nat_def)
  have "reachable_end ''A'' (k_net cfg')" using r [of 1 0] v(1,2) by simp
  moreover have "\<not> reachable_end ''A'' (k_net cfg)" using v(3) by (simp add: reachable_end_def)
  ultimately show ?thesis using c0 c p by blast
qed

end
