(* ===== verification/MasterConfig.thy ===== *)
theory MasterConfig
  imports KvRuns
begin

text \<open>
  The test harness of the shard master, \<^verbatim>\<open>shardmaster/config.go\<close>, and its relation to the harness of the key-value
  service.  The two files were copied from each other and have drifted apart in the details that do not
  matter here (snapshots, the size limit of the log, counters of operations).

  The operations are translated from \<^verbatim>\<open>shardmaster/config.go\<close>; \<open>as_kv\<close> maps a configuration of this harness to one
  of the other, and every operation commutes with it.  So the invariant of the wiring that is proved in KvRuns carries over: partitions
  and clerks of the shard masters reach exactly the servers they should, after any operations.
\<close>

section \<open>State\<close>

record ('s, 'o, 'v) sm_config =
  m_net :: "(string, nat) Network"
  m_n :: nat
  m_servers :: "'s option list"
  m_saved :: "nat option list"
  m_endnames :: "string list option list"
  m_clerks :: "nat \<Rightarrow> string list option"
  m_nextClientId :: int
  m_pheap :: "Persister list"
  m_sheap :: "('o, 'v) Server list"
  m_killed :: "'s list"

definition m_endname :: "('s, 'o, 'v) sm_config \<Rightarrow> nat \<Rightarrow> nat \<Rightarrow> string res" where
  "m_endname cfg i j =
     rbind (slice_get (m_endnames cfg) (int i)) (\<lambda>row.
     case row of None \<Rightarrow> Inl IndexOutOfRange | Some names \<Rightarrow> slice_get names (int j))"

definition m_enable :: "string \<Rightarrow> bool \<Rightarrow> ('s, 'o, 'v) sm_config \<Rightarrow> ('s, 'o, 'v) sm_config" where
  "m_enable en b cfg = cfg\<lparr>m_net := Enable en b (m_net cfg)\<rparr>"

definition m_checkTimeout :: "bool \<Rightarrow> int \<Rightarrow> unit res" where
  "m_checkTimeout failed elapsed =
     (if \<not> failed \<and> elapsed > 120 * 10 ^ 9 then Inl (Fatal ''test took longer than 120 seconds'') else Inr ())"

definition m_cleanup :: "bool \<Rightarrow> int \<Rightarrow> ('s, 'o, 'v) sm_config \<Rightarrow> ('s, 'o, 'v) sm_config res" where
  "m_cleanup failed elapsed cfg =
     rbind (Cleanup (m_net cfg)) (\<lambda>rn.
     rbind (m_checkTimeout failed elapsed) (\<lambda>_.
     Inr (cfg\<lparr>m_killed := rev (List.map_filter (\<lambda>s. s) (m_servers cfg)) @ m_killed cfg, m_net := rn\<rparr>)))"

fun m_log_loop :: "nat \<Rightarrow> nat option list \<Rightarrow> ('s, 'o, 'v) sm_config \<Rightarrow> nat res" where
  "m_log_loop logsize [] cfg = Inr logsize"
| "m_log_loop logsize (None # ps) cfg = Inl NilDeref"
| "m_log_loop logsize (Some a # ps) cfg =
     rbind (slice_get (m_pheap cfg) (int a)) (\<lambda>p.
     let n = RaftStateSize p in m_log_loop (if n > logsize then n else logsize) ps cfg)"

definition m_LogSize :: "('s, 'o, 'v) sm_config \<Rightarrow> nat res" where
  "m_LogSize cfg = m_log_loop 0 (take (m_n cfg) (m_saved cfg)) cfg"

section \<open>Connections\<close>

fun m_connect_out :: "nat \<Rightarrow> nat list \<Rightarrow> ('s, 'o, 'v) sm_config \<Rightarrow> ('s, 'o, 'v) sm_config res" where
  "m_connect_out i [] cfg = Inr cfg"
| "m_connect_out i (t # ts) cfg = rbind (m_endname cfg i t) (\<lambda>en. m_connect_out i ts (m_enable en True cfg))"

fun m_connect_in :: "nat \<Rightarrow> nat list \<Rightarrow> ('s, 'o, 'v) sm_config \<Rightarrow> ('s, 'o, 'v) sm_config res" where
  "m_connect_in i [] cfg = Inr cfg"
| "m_connect_in i (t # ts) cfg = rbind (m_endname cfg t i) (\<lambda>en. m_connect_in i ts (m_enable en True cfg))"

definition m_connectUnlocked :: "nat \<Rightarrow> nat list \<Rightarrow> ('s, 'o, 'v) sm_config \<Rightarrow> ('s, 'o, 'v) sm_config res" where
  "m_connectUnlocked i to cfg = rbind (m_connect_out i to cfg) (m_connect_in i to)"

fun m_disconnect_out :: "nat \<Rightarrow> nat list \<Rightarrow> ('s, 'o, 'v) sm_config \<Rightarrow> ('s, 'o, 'v) sm_config res" where
  "m_disconnect_out i [] cfg = Inr cfg"
| "m_disconnect_out i (t # ts) cfg =
     rbind (slice_get (m_endnames cfg) (int i)) (\<lambda>row.
     if row \<noteq> None then rbind (m_endname cfg i t) (\<lambda>en. m_disconnect_out i ts (m_enable en False cfg))
     else m_disconnect_out i ts cfg)"

text \<open>Here too the test looks at row \<open>j\<close>, the position in the list.\<close>

fun m_disconnect_in :: "nat \<Rightarrow> nat \<Rightarrow> nat list \<Rightarrow> ('s, 'o, 'v) sm_config \<Rightarrow> ('s, 'o, 'v) sm_config res" where
  "m_disconnect_in i j [] cfg = Inr cfg"
| "m_disconnect_in i j (t # ts) cfg =
     rbind (slice_get (m_endnames cfg) (int j)) (\<lambda>row.
     if row \<noteq> None then rbind (m_endname cfg t i) (\<lambda>en. m_disconnect_in i (j + 1) ts (m_enable en False cfg))
     else m_disconnect_in i (j + 1) ts cfg)"

definition m_disconnectUnlocked :: "nat \<Rightarrow> nat list \<Rightarrow> ('s, 'o, 'v) sm_config \<Rightarrow> ('s, 'o, 'v) sm_config res" where
  "m_disconnectUnlocked i from_list cfg = rbind (m_disconnect_out i from_list cfg) (m_disconnect_in i 0 from_list)"

definition m_All :: "('s, 'o, 'v) sm_config \<Rightarrow> nat list" where
  "m_All cfg = [0..<m_n cfg]"

fun m_connect_each :: "nat list \<Rightarrow> ('s, 'o, 'v) sm_config \<Rightarrow> ('s, 'o, 'v) sm_config res" where
  "m_connect_each [] cfg = Inr cfg"
| "m_connect_each (i # is) cfg = rbind (m_connectUnlocked i (m_All cfg) cfg) (m_connect_each is)"

definition m_ConnectAll :: "('s, 'o, 'v) sm_config \<Rightarrow> ('s, 'o, 'v) sm_config res" where
  "m_ConnectAll cfg = m_connect_each [0..<m_n cfg] cfg"

fun m_isolate_each :: "nat list \<Rightarrow> nat list \<Rightarrow> nat list \<Rightarrow> ('s, 'o, 'v) sm_config \<Rightarrow> ('s, 'o, 'v) sm_config res" where
  "m_isolate_each own other [] cfg = Inr cfg"
| "m_isolate_each own other (i # is) cfg =
     rbind (m_disconnectUnlocked i other cfg) (\<lambda>cfg1.
     rbind (m_connectUnlocked i own cfg1) (m_isolate_each own other is))"

definition m_partition :: "nat list \<Rightarrow> nat list \<Rightarrow> ('s, 'o, 'v) sm_config \<Rightarrow> ('s, 'o, 'v) sm_config res" where
  "m_partition p1 p2 cfg = rbind (m_isolate_each p1 p2 p1 cfg) (m_isolate_each p2 p1 p2)"

section \<open>Clerks\<close>

fun m_client_enable :: "bool \<Rightarrow> string list \<Rightarrow> nat list \<Rightarrow> ('s, 'o, 'v) sm_config \<Rightarrow> ('s, 'o, 'v) sm_config res" where
  "m_client_enable b names [] cfg = Inr cfg"
| "m_client_enable b names (t # ts) cfg = rbind (slice_get names (int t)) (\<lambda>s. m_client_enable b names ts (m_enable s b cfg))"

definition m_clerk_names :: "nat \<Rightarrow> ('s, 'o, 'v) sm_config \<Rightarrow> string list" where
  "m_clerk_names ck cfg = (case m_clerks cfg ck of None \<Rightarrow> [] | Some ns \<Rightarrow> ns)"

definition m_ConnectClient :: "nat \<Rightarrow> nat list \<Rightarrow> ('s, 'o, 'v) sm_config \<Rightarrow> ('s, 'o, 'v) sm_config res" where
  "m_ConnectClient ck to cfg = m_client_enable True (m_clerk_names ck cfg) to cfg"

definition m_DisconnectClient :: "nat \<Rightarrow> nat list \<Rightarrow> ('s, 'o, 'v) sm_config \<Rightarrow> ('s, 'o, 'v) sm_config res" where
  "m_DisconnectClient ck from_list cfg = m_client_enable False (m_clerk_names ck cfg) from_list cfg"

definition m_makeClient :: "string list \<Rightarrow> nat list \<Rightarrow> nat \<Rightarrow> nat list \<Rightarrow> ('s, 'o, 'v) sm_config \<Rightarrow> (('s, 'o, 'v) sm_config \<times> string list) res" where
  "m_makeClient names rs ck to cfg =
     rbind (make_ends (zip [0..<m_n cfg] names) (m_net cfg)) (\<lambda>rn.
     let handles = random_handles rs (take (m_n cfg) names);
         cfg1 = cfg\<lparr>m_net := rn, m_clerks := (m_clerks cfg)(ck \<mapsto> take (m_n cfg) names), m_nextClientId := m_nextClientId cfg + 1\<rparr>
     in rbind (m_ConnectClient ck to cfg1) (\<lambda>cfg2. Inr (cfg2, handles)))"

definition m_deleteClient :: "nat \<Rightarrow> ('s, 'o, 'v) sm_config \<Rightarrow> ('s, 'o, 'v) sm_config" where
  "m_deleteClient ck cfg = cfg\<lparr>m_clerks := (m_clerks cfg)(ck := None)\<rparr>"

section \<open>Servers\<close>

definition m_new_saved :: "nat \<Rightarrow> Persister \<Rightarrow> ('s, 'o, 'v) sm_config \<Rightarrow> ('s, 'o, 'v) sm_config res" where
  "m_new_saved i p cfg =
     rbind (slice_set (m_saved cfg) (int i) (Some (length (m_pheap cfg)))) (\<lambda>sv.
     Inr (cfg\<lparr>m_pheap := m_pheap cfg @ [p], m_saved := sv\<rparr>))"

definition m_copy_saved :: "nat \<Rightarrow> ('s, 'o, 'v) sm_config \<Rightarrow> ('s, 'o, 'v) sm_config res" where
  "m_copy_saved i cfg =
     rbind (slice_get (m_saved cfg) (int i)) (\<lambda>p.
     case p of None \<Rightarrow> Inr cfg | Some a \<Rightarrow> rbind (slice_get (m_pheap cfg) (int a)) (\<lambda>ps. m_new_saved i (Copy ps) cfg))"

definition m_ShutdownServer :: "nat \<Rightarrow> ('s, 'o, 'v) sm_config \<Rightarrow> ('s, 'o, 'v) sm_config res" where
  "m_ShutdownServer i cfg =
     rbind (m_disconnectUnlocked i (m_All cfg) cfg) (\<lambda>cfg1.
     let cfg2 = cfg1\<lparr>m_net := DeleteServer i (m_net cfg1)\<rparr> in
     rbind (m_copy_saved i cfg2) (\<lambda>cfg3.
     rbind (slice_get (m_servers cfg3) (int i)) (\<lambda>kv.
     case kv of
       None \<Rightarrow> Inr cfg3
     | Some s \<Rightarrow> rbind (slice_set (m_servers cfg3) (int i) None) (\<lambda>ks. Inr (cfg3\<lparr>m_killed := s # m_killed cfg3, m_servers := ks\<rparr>)))))"

definition m_StartServer :: "string list \<Rightarrow> 's \<Rightarrow> ('o, 'v) Service \<times> ('o, 'v) Service \<Rightarrow> nat \<Rightarrow> ('s, 'o, 'v) sm_config \<Rightarrow> ('s, 'o, 'v) sm_config res" where
  "m_StartServer names s svcs i cfg0 =
     rbind (slice_set (m_endnames cfg0) (int i) (Some (take (m_n cfg0) names))) (\<lambda>rows.
     rbind (make_ends (zip [0..<m_n cfg0] names) (m_net cfg0)) (\<lambda>rn.
     let cfg1 = cfg0\<lparr>m_endnames := rows, m_net := rn\<rparr> in
     rbind (slice_get (m_saved cfg1) (int i)) (\<lambda>p.
     rbind (case p of Some _ \<Rightarrow> m_copy_saved i cfg1 | None \<Rightarrow> m_new_saved i MakePersister cfg1) (\<lambda>cfg2.
     rbind (slice_set (m_servers cfg2) (int i) (Some s)) (\<lambda>ks.
     let srv = AddService (snd svcs) (AddService (fst svcs) MakeServer) in
     Inr (cfg2\<lparr>m_servers := ks, m_sheap := m_sheap cfg2 @ [srv], m_net := AddServer i (length (m_sheap cfg2)) (m_net cfg2)\<rparr>))))))"

fun m_leader_loop :: "(nat \<Rightarrow> bool) \<Rightarrow> (nat \<times> 's option) list \<Rightarrow> (bool \<times> nat) res" where
  "m_leader_loop gs [] = Inr (False, 0)"
| "m_leader_loop gs ((i, s) # ss) =
     (case s of None \<Rightarrow> Inl NilDeref | Some _ \<Rightarrow> if gs i then Inr (True, i) else m_leader_loop gs ss)"

definition m_Leader :: "(nat \<Rightarrow> bool) \<Rightarrow> ('s, 'o, 'v) sm_config \<Rightarrow> (bool \<times> nat) res" where
  "m_Leader gs cfg = m_leader_loop gs (zip [0..<m_n cfg] (m_servers cfg))"

fun m_part_loop :: "nat \<Rightarrow> nat list \<Rightarrow> int \<Rightarrow> int list \<Rightarrow> int list \<Rightarrow> (int list \<times> int list) res" where
  "m_part_loop l [] j p1 p2 = Inr (p1, p2)"
| "m_part_loop l (i # is) j p1 p2 =
     (if i \<noteq> l then
        (if j < int (length p1) then rbind (slice_set p1 j (int i)) (\<lambda>p1'. m_part_loop l is (j + 1) p1' p2)
         else rbind (slice_set p2 (j - int (length p1)) (int i)) (\<lambda>p2'. m_part_loop l is (j + 1) p1 p2'))
      else m_part_loop l is j p1 p2)"

definition m_make_partition :: "(nat \<Rightarrow> bool) \<Rightarrow> ('s, 'o, 'v) sm_config \<Rightarrow> (int list \<times> int list) res" where
  "m_make_partition gs cfg =
     rbind (m_Leader gs cfg) (\<lambda>(_, l).
     rbind (m_part_loop l [0..<m_n cfg] 0 (replicate (m_n cfg div 2 + 1) 0) (replicate (m_n cfg div 2) 0)) (\<lambda>(p1, p2).
     rbind (slice_set p2 (int (length p2) - 1) (int l)) (\<lambda>p2'. Inr (p1, p2'))))"

definition m_zero :: "nat \<Rightarrow> ('s, 'o, 'v) sm_config" where
  "m_zero n = \<lparr>m_net = MakeNetwork, m_n = n, m_servers = replicate n None, m_saved = replicate n None, m_endnames = replicate n None,
     m_clerks = Map.empty, m_nextClientId = int n + 1000, m_pheap = [], m_sheap = [], m_killed = []\<rparr>"

fun m_start_each :: "(nat \<Rightarrow> string list) \<Rightarrow> (nat \<Rightarrow> 's) \<Rightarrow> (nat \<Rightarrow> ('o, 'v) Service \<times> ('o, 'v) Service) \<Rightarrow> nat list \<Rightarrow> ('s, 'o, 'v) sm_config
    \<Rightarrow> ('s, 'o, 'v) sm_config res" where
  "m_start_each names sv svcs [] cfg = Inr cfg"
| "m_start_each names sv svcs (i # is) cfg = rbind (m_StartServer (names i) (sv i) (svcs i) i cfg) (m_start_each names sv svcs is)"

definition m_make_config :: "(nat \<Rightarrow> string list) \<Rightarrow> (nat \<Rightarrow> 's) \<Rightarrow> (nat \<Rightarrow> ('o, 'v) Service \<times> ('o, 'v) Service) \<Rightarrow> nat \<Rightarrow> bool
    \<Rightarrow> ('s, 'o, 'v) sm_config res" where
  "m_make_config names sv svcs n unreliable =
     rbind (m_start_each names sv svcs [0..<n] (m_zero n)) (\<lambda>cfg1.
     rbind (m_ConnectAll cfg1) (\<lambda>cfg2.
     Inr (cfg2\<lparr>m_net := Reliable (\<not> unreliable) (m_net cfg2)\<rparr>)))"

section \<open>The two harnesses\<close>

definition as_kv :: "('s, 'o, 'v) sm_config \<Rightarrow> ('s, 'o, 'v) kv_config" where
  "as_kv cfg = \<lparr>k_net = m_net cfg, k_n = m_n cfg, kvservers = m_servers cfg, k_saved = m_saved cfg, k_endnames = m_endnames cfg,
     clerks = m_clerks cfg, nextClientId = m_nextClientId cfg, maxraftstate = -1, k_pheap = m_pheap cfg, k_sheap = m_sheap cfg,
     k_killed = m_killed cfg, k_rpcs0 = 0, k_ops = 0\<rparr>"

abbreviation kv_res :: "('s, 'o, 'v) sm_config res \<Rightarrow> ('s, 'o, 'v) kv_config res" where
  "kv_res \<equiv> map_sum id as_kv"

named_theorems as_kv_simps \<open>the operations commute with the embedding\<close>

lemma kv_res_rbind: "kv_res (rbind m f) = rbind m (\<lambda>x. kv_res (f x))"
  by (cases m) simp_all

lemma kv_res_step:
  assumes "kv_res m = m'" and "\<And>x. kv_res (f x) = f' (as_kv x)"
  shows "kv_res (rbind m f) = rbind m' f'"
  using assms by (cases m) auto

lemma rbind_as_kv:
  assumes "kv_res m = m'" and "\<And>x. f x = f' (as_kv x)"
  shows "rbind m f = rbind m' f'"
  using assms by (cases m) auto

lemma as_kv_fields [simp]:
  "k_net (as_kv cfg) = m_net cfg" "k_n (as_kv cfg) = m_n cfg" "kvservers (as_kv cfg) = m_servers cfg" "k_saved (as_kv cfg) = m_saved cfg"
  "k_endnames (as_kv cfg) = m_endnames cfg" "clerks (as_kv cfg) = m_clerks cfg" "k_pheap (as_kv cfg) = m_pheap cfg"
  "k_sheap (as_kv cfg) = m_sheap cfg" "k_killed (as_kv cfg) = m_killed cfg" "nextClientId (as_kv cfg) = m_nextClientId cfg"
  by (simp_all add: as_kv_def)

lemma as_kv_enable [as_kv_simps]: "as_kv (m_enable en b cfg) = k_enable en b (as_kv cfg)"
  by (simp add: as_kv_def m_enable_def k_enable_def)

lemma as_kv_endname [as_kv_simps]: "k_endname (as_kv cfg) = m_endname cfg"
  by (simp add: fun_eq_iff k_endname_def m_endname_def)

lemma as_kv_All [as_kv_simps]: "All_servers (as_kv cfg) = m_All cfg"
  by (simp add: All_servers_def m_All_def)

lemma as_kv_loops [as_kv_simps]:
  "kv_res (m_connect_out i ts cfg) = k_connect_out i ts (as_kv cfg)" "kv_res (m_connect_in i ts cfg) = k_connect_in i ts (as_kv cfg)"
  "kv_res (m_disconnect_out i ts cfg) = k_disconnect_out i ts (as_kv cfg)" "kv_res (m_disconnect_in i j ts cfg) = k_disconnect_in i j ts (as_kv cfg)"
  "kv_res (m_client_enable b ns ts cfg) = client_enable b ns ts (as_kv cfg)"
  by (induction ts arbitrary: cfg j) (simp_all add: kv_res_rbind as_kv_simps if_distrib cong: if_cong)

lemma as_kv_connect [as_kv_simps]:
  "kv_res (m_connectUnlocked i to cfg) = connectUnlocked i to (as_kv cfg)"
  "kv_res (m_disconnectUnlocked i to cfg) = disconnectUnlocked i to (as_kv cfg)"
  unfolding m_connectUnlocked_def connectUnlocked_def m_disconnectUnlocked_def disconnectUnlocked_def
  by (rule kv_res_step; simp add: as_kv_simps)+

lemma as_kv_connect_each [as_kv_simps]: "kv_res (m_connect_each is cfg) = connect_each is (as_kv cfg)"
proof (induction "is" arbitrary: cfg)
  case (Cons i "is")
  show ?case unfolding m_connect_each.simps connect_each.simps by (rule kv_res_step) (simp_all add: as_kv_simps Cons.IH)
qed simp

lemma as_kv_isolate_each [as_kv_simps]: "kv_res (m_isolate_each own other is cfg) = isolate_each own other is (as_kv cfg)"
proof (induction "is" arbitrary: cfg)
  case (Cons i "is")
  show ?case unfolding m_isolate_each.simps isolate_each.simps
    by (rule kv_res_step, simp add: as_kv_simps, rule kv_res_step) (simp_all add: as_kv_simps Cons.IH)
qed simp

lemma as_kv_partition [as_kv_simps]: "kv_res (m_partition p1 p2 cfg) = kv_partition_net p1 p2 (as_kv cfg)"
  unfolding m_partition_def kv_partition_net_def by (rule kv_res_step) (simp_all add: as_kv_simps)

lemma as_kv_ConnectAll [as_kv_simps]: "kv_res (m_ConnectAll cfg) = ConnectAll (as_kv cfg)"
  by (simp add: m_ConnectAll_def ConnectAll_def as_kv_simps)

lemma as_kv_clerks [as_kv_simps]:
  "kv_res (m_ConnectClient ck to cfg) = ConnectClientUnlocked ck to (as_kv cfg)"
  "kv_res (m_DisconnectClient ck to cfg) = DisconnectClientUnlocked ck to (as_kv cfg)"
  "as_kv (m_deleteClient ck cfg) = deleteClient ck (as_kv cfg)"
  by (simp_all add: m_ConnectClient_def ConnectClientUnlocked_def m_DisconnectClient_def DisconnectClientUnlocked_def m_clerk_names_def
      clerk_names_def m_deleteClient_def deleteClient_def as_kv_simps) (simp add: as_kv_def)

lemma as_kv_makeClient [as_kv_simps]:
  "map_sum id (map_prod as_kv id) (m_makeClient names rs ck to cfg) = makeClient names rs ck to (as_kv cfg)"
proof -
  have p: "map_sum id (map_prod as_kv id) (rbind m (\<lambda>c. Inr (c, h))) = rbind (kv_res m) (\<lambda>c. Inr (c, h))" for m :: "('a, 'b, 'c) sm_config res" and h :: "string list"
    by (cases m) simp_all
  have u: "as_kv (cfg\<lparr>m_net := rn, m_clerks := cs, m_nextClientId := k\<rparr>) = (as_kv cfg)\<lparr>k_net := rn, clerks := cs, nextClientId := k\<rparr>" for rn cs k
    by (simp add: as_kv_def)
  show ?thesis
    by (cases "make_ends (zip [0..<m_n cfg] names) (m_net cfg)") (simp_all add: m_makeClient_def makeClient_def Let_def p as_kv_simps u)
qed

lemma as_kv_saved [as_kv_simps]:
  "kv_res (m_new_saved i p cfg) = k_new_saved i p (as_kv cfg)" "kv_res (m_copy_saved i cfg) = k_copy_saved i (as_kv cfg)"
proof -
  show n: "kv_res (m_new_saved i p cfg) = k_new_saved i p (as_kv cfg)" for p
    by (simp add: m_new_saved_def k_new_saved_def kv_res_rbind) (simp add: as_kv_def)
  show "kv_res (m_copy_saved i cfg) = k_copy_saved i (as_kv cfg)"
    by (simp add: m_copy_saved_def k_copy_saved_def kv_res_rbind n option.case_distrib cong: option.case_cong)
qed

lemma as_kv_ShutdownServer [as_kv_simps]: "kv_res (m_ShutdownServer i cfg) = ShutdownServer i (as_kv cfg)"
proof -
  have u: "as_kv (c\<lparr>m_net := rn\<rparr>) = (as_kv c)\<lparr>k_net := rn\<rparr>"
    "as_kv (c\<lparr>m_killed := kl, m_servers := ks\<rparr>) = (as_kv c)\<lparr>k_killed := kl, kvservers := ks\<rparr>" for c :: "('a, 'b, 'c) sm_config" and rn kl ks
    by (simp_all add: as_kv_def)
  show ?thesis unfolding m_ShutdownServer_def ShutdownServer_def Let_def
    by (rule kv_res_step, simp add: as_kv_simps, rule kv_res_step)
      (simp_all add: as_kv_simps u kv_res_rbind option.case_distrib cong: option.case_cong)
qed

lemma as_kv_StartServer [as_kv_simps]: "kv_res (m_StartServer names s svcs i cfg) = StartServer names s svcs i (as_kv cfg)"
proof -
  have u: "as_kv (c\<lparr>m_endnames := rows, m_net := rn\<rparr>) = (as_kv c)\<lparr>k_endnames := rows, k_net := rn\<rparr>"
    "as_kv (c\<lparr>m_servers := ks, m_sheap := sh, m_net := rn\<rparr>) = (as_kv c)\<lparr>kvservers := ks, k_sheap := sh, k_net := rn\<rparr>"
    for c :: "('a, 'b, 'c) sm_config" and rows rn ks sh by (simp_all add: as_kv_def)
  have c: "kv_res (case p of Some _ \<Rightarrow> m_copy_saved i c | None \<Rightarrow> m_new_saved i MakePersister c) =
      (case p of Some _ \<Rightarrow> k_copy_saved i (as_kv c) | None \<Rightarrow> k_new_saved i MakePersister (as_kv c))" for p :: "nat option" and c :: "('a, 'b, 'c) sm_config"
    by (simp add: as_kv_simps split: option.split)
  show ?thesis unfolding m_StartServer_def StartServer_def Let_def
    by (simp add: kv_res_rbind, intro arg_cong2 [where f = rbind] ext refl, rule rbind_as_kv) (simp_all add: c u split: option.split)
qed

lemma as_kv_start_each [as_kv_simps]: "kv_res (m_start_each names sv svcs is cfg) = start_each names sv svcs is (as_kv cfg)"
proof (induction "is" arbitrary: cfg)
  case (Cons i "is")
  show ?case unfolding m_start_each.simps start_each.simps by (rule kv_res_step) (simp_all add: as_kv_simps Cons.IH)
qed simp

lemma as_kv_make_config [as_kv_simps]:
  "kv_res (m_make_config names sv svcs n unreliable) = kv_make_config names sv svcs n unreliable (-1)"
proof -
  have z: "as_kv (m_zero n) = k_zero n (-1)" by (simp add: as_kv_def m_zero_def k_zero_def)
  have u: "as_kv (c\<lparr>m_net := rn\<rparr>) = (as_kv c)\<lparr>k_net := rn\<rparr>" for c :: "('a, 'b, 'c) sm_config" and rn by (simp add: as_kv_def)
  show ?thesis unfolding m_make_config_def kv_make_config_def
    by (rule kv_res_step, simp add: as_kv_simps z, rule kv_res_step) (simp_all add: as_kv_simps u)
qed

text \<open>The operations that only look: the log size, the leader and the partition of the servers around it.\<close>

lemma as_kv_LogSize [as_kv_simps]: "LogSize (as_kv cfg) = m_LogSize cfg"
proof -
  have "max_size RaftStateSize acc ps (as_kv cfg) = m_log_loop acc ps cfg" for acc ps
    by (induction acc ps cfg rule: m_log_loop.induct) (simp_all add: Let_def)
  then show ?thesis by (simp add: LogSize_def m_LogSize_def)
qed

lemma as_kv_Leader [as_kv_simps]: "Leader gs (as_kv cfg) = m_Leader gs cfg"
proof -
  have "leader_loop gs ks = m_leader_loop gs ks" for ks :: "(nat \<times> 'a option) list"
    by (induction gs ks rule: leader_loop.induct) simp_all
  then show ?thesis by (simp add: Leader_def m_Leader_def)
qed

lemma as_kv_make_partition [as_kv_simps]: "make_partition gs (as_kv cfg) = m_make_partition gs cfg"
proof -
  have l: "m_part_loop l is j p1 p2 = rbind (part_loop l is j p1 p2) (\<lambda>(_, q1, q2). Inr (q1, q2))" for l "is" j p1 p2
    by (induction l "is" j p1 p2 rule: m_part_loop.induct) (simp_all add: rbind_def split: sum.split)
  show ?thesis by (simp add: make_partition_def m_make_partition_def as_kv_simps l rbind_assoc split_def)
qed

section \<open>Runs\<close>

text \<open>One operation of the shard master's harness; \<open>k_step\<close> is the operation of the same name of the key-value harness.\<close>

definition m_step :: "('s, 'o, 'v) m_op \<Rightarrow> ('s, 'o, 'v) sm_config \<Rightarrow> ('s, 'o, 'v) sm_config res" where
  "m_step op cfg =
     (case op of
        MConnect i to \<Rightarrow> m_connectUnlocked i to cfg
      | MDisconnect i fr \<Rightarrow> m_disconnectUnlocked i fr cfg
      | MConnectAll \<Rightarrow> m_ConnectAll cfg
      | MPartition p1 p2 \<Rightarrow> m_partition p1 p2 cfg
      | MMakeClient names rs ck to \<Rightarrow> rbind (m_makeClient names rs ck to cfg) (\<lambda>(c, _). Inr c)
      | MDeleteClient ck \<Rightarrow> Inr (m_deleteClient ck cfg)
      | MConnectClient ck to \<Rightarrow> m_ConnectClient ck to cfg
      | MDisconnectClient ck fr \<Rightarrow> m_DisconnectClient ck fr cfg
      | MShutdown i \<Rightarrow> m_ShutdownServer i cfg
      | MStart names s svcs i \<Rightarrow> m_StartServer names s svcs i cfg)"

fun m_run :: "('s, 'o, 'v) m_op list \<Rightarrow> ('s, 'o, 'v) sm_config \<Rightarrow> ('s, 'o, 'v) sm_config res" where
  "m_run [] cfg = Inr cfg"
| "m_run (op # ops) cfg = rbind (m_step op cfg) (m_run ops)"

lemma as_kv_step: "kv_res (m_step op cfg) = k_step op (as_kv cfg)"
proof (cases op)
  case (MMakeClient names rs ck to)
  have "rbind (map_sum id (map_prod as_kv id) m) (\<lambda>(c, _). Inr c) = kv_res (rbind m (\<lambda>(c, _). Inr c))"
    for m :: "(('a, 'b, 'c) sm_config \<times> string list) res" by (cases m) auto
  then show ?thesis by (simp add: m_step_def k_step_def MMakeClient flip: as_kv_makeClient)
qed (simp_all add: m_step_def k_step_def as_kv_simps)

lemma as_kv_run: "kv_res (m_run ops cfg) = k_run ops (as_kv cfg)"
proof (induction ops arbitrary: cfg)
  case (Cons op ops)
  show ?case unfolding m_run.simps k_run.simps by (rule kv_res_step) (simp_all add: as_kv_step Cons.IH)
qed simp

text \<open>
  The shard master's harness refines the key-value harness: made with the same arguments and driven through the same
  operations, it fails in the same way or ends in the same state, where the log sizes, the leader and the
  proposed partition are the same too.
\<close>

lemma master_harness_refines:
  "kv_res (rbind (m_make_config names sv svcs n unreliable) (m_run ops)) =
     rbind (kv_make_config names sv svcs n unreliable (-1)) (k_run ops)"
  "m_LogSize cfg = LogSize (as_kv cfg)" "m_Leader gs cfg = Leader gs (as_kv cfg)" "m_make_partition gs cfg = make_partition gs (as_kv cfg)"
  "kv_res (m_cleanup failed elapsed cfg) = kv_cleanup failed elapsed (as_kv cfg)"
proof -
  show "kv_res (rbind (m_make_config names sv svcs n unreliable) (m_run ops)) =
      rbind (kv_make_config names sv svcs n unreliable (-1)) (k_run ops)"
    by (rule kv_res_step) (simp_all add: as_kv_simps as_kv_run)
  show "kv_res (m_cleanup failed elapsed cfg) = kv_cleanup failed elapsed (as_kv cfg)"
    by (simp add: m_cleanup_def kv_cleanup_def m_checkTimeout_def k_checkTimeout_def kv_res_rbind) (simp add: as_kv_def)
qed (simp_all add: as_kv_simps)

section \<open>Connectivity of the shard masters\<close>

definition m_name :: "('s, 'o, 'v) sm_config \<Rightarrow> nat \<Rightarrow> nat \<Rightarrow> string" where
  "m_name cfg i j = the (m_endnames cfg ! i) ! j"

lemma as_kv_name [as_kv_simps]: "k_name (as_kv cfg) i j = m_name cfg i j"
  by (simp add: k_name_def m_name_def)

lemma as_kv_running [as_kv_simps]: "running (as_kv cfg) j \<longleftrightarrow> m_servers cfg ! j \<noteq> None"
  by (simp add: running_def)

text \<open>The states that a test can reach satisfy the invariant of the wiring.\<close>

lemma master_inv:
  assumes "names_ok n names" and "m_make_config names sv svcs n unrel = Inr cfg0" and "m_run ops cfg0 = Inr cfg" and "list_all (draws n) ops"
  shows "k_inv (as_kv cfg)" and "m_n cfg = n"
proof -
  have mk: "kv_make_config names sv svcs n unrel (-1) = Inr (as_kv cfg0)" using as_kv_make_config [of names sv svcs n unrel] assms(2) by simp
  have run: "k_run ops (as_kv cfg0) = Inr (as_kv cfg)" using as_kv_run [of ops cfg0] assms(3) by simp
  note i = k_inv_make_config [OF assms(1) mk]
  from k_inv_run [OF run i(1)] i(2) assms(4) show "k_inv (as_kv cfg)" "m_n cfg = n" by simp_all
qed

lemma m_partition_exact:
  assumes "k_inv (as_kv cfg)" and "set p1 \<union> set p2 \<subseteq> {..<m_n cfg}" and "distinct p1" and "distinct p2" and "set p1 \<inter> set p2 = {}"
  shows "\<exists>cfg'. m_partition p1 p2 cfg = Inr cfg' \<and>
    (\<forall>i j. i \<in> set p1 \<union> set p2 \<and> j \<in> set p1 \<union> set p2 \<longrightarrow>
       (reachable_end (m_name cfg i j) (m_net cfg') \<longleftrightarrow> same_side p1 p2 i j \<and> m_servers cfg ! j \<noteq> None))"
proof -
  from partition_exact [OF assms(1), of p1 p2] assms(2-5) obtain k where k: "kv_res (m_partition p1 p2 cfg) = Inr k"
    "\<forall>i j. i \<in> set p1 \<union> set p2 \<and> j \<in> set p1 \<union> set p2 \<longrightarrow>
       (reachable_end (m_name cfg i j) (k_net k) \<longleftrightarrow> same_side p1 p2 i j \<and> m_servers cfg ! j \<noteq> None)"
    unfolding as_kv_simps by auto
  from k(1) obtain cfg' where "m_partition p1 p2 cfg = Inr cfg'" "as_kv cfg' = k" by (cases "m_partition p1 p2 cfg") auto
  with k(2) show ?thesis by (intro exI [of _ cfg']) auto
qed

lemma m_clerk_exact:
  assumes "k_inv (as_kv cfg)" and "length names = m_n cfg" and "distinct names" and "list_all (\<lambda>e. ends (m_net cfg) e = None) names"
    and "set to \<subseteq> {..<m_n cfg}" and "list_all2 (\<le>) rs [0..<m_n cfg]"
  shows "\<exists>cfg' handles. m_makeClient names rs ck to cfg = Inr (cfg', handles) \<and> mset handles = mset names \<and>
    (\<forall>j<m_n cfg. reachable_end (names ! j) (m_net cfg') \<longleftrightarrow> j \<in> set to \<and> m_servers cfg ! j \<noteq> None)"
proof -
  from clerk_exact [OF assms(1), of names to rs ck] assms(2-6) obtain k handles where
    k: "map_sum id (map_prod as_kv id) (m_makeClient names rs ck to cfg) = Inr (k, handles)" "mset handles = mset names"
    "\<forall>j<m_n cfg. reachable_end (names ! j) (k_net k) \<longleftrightarrow> j \<in> set to \<and> m_servers cfg ! j \<noteq> None" unfolding as_kv_simps by auto
  from k(1) obtain cfg' where "m_makeClient names rs ck to cfg = Inr (cfg', handles)" "as_kv cfg' = k"
    by (cases "m_makeClient names rs ck to cfg") auto
  with k(2,3) show ?thesis by (intro exI [of _ cfg'] exI [of _ handles]) auto
qed

text \<open>
  C26. The shard masters' harness, at any time.  Let the shard masters be set up and driven through any operations of the harness
  (connections, partitions, clerks, stopped and restarted servers).  Then a call of \<open>partition\<close> does not panic and makes the servers of
  the two parts reach exactly the running servers of their own part; and a clerk made with new names reaches, over its end-point
  for server \<open>j\<close>, that server exactly if \<open>j\<close> is among those it was made for and runs, whatever the permutation of the
  end-points it is handed.
\<close>

theorem master_connectivity:
  assumes "names_ok n names" and "m_make_config names sv svcs n unrel = Inr cfg0" and "m_run ops cfg0 = Inr cfg" and "list_all (draws n) ops"
  shows "(\<forall>p1 p2. set p1 \<union> set p2 \<subseteq> {..<n} \<and> distinct p1 \<and> distinct p2 \<and> set p1 \<inter> set p2 = {} \<longrightarrow>
       (\<exists>cfg'. m_partition p1 p2 cfg = Inr cfg' \<and>
         (\<forall>i j. i \<in> set p1 \<union> set p2 \<and> j \<in> set p1 \<union> set p2 \<longrightarrow>
            (reachable_end (m_name cfg i j) (m_net cfg') \<longleftrightarrow>
              (i \<in> set p1 \<and> j \<in> set p1 \<or> i \<in> set p2 \<and> j \<in> set p2) \<and> m_servers cfg ! j \<noteq> None)))) \<and>
    (\<forall>new rs ck to. length new = n \<and> distinct new \<and> list_all (\<lambda>e. ends (m_net cfg) e = None) new \<and>
         set to \<subseteq> {..<n} \<and> list_all2 (\<le>) rs [0..<n] \<longrightarrow>
       (\<exists>cfg' handles. m_makeClient new rs ck to cfg = Inr (cfg', handles) \<and> mset handles = mset new \<and>
         (\<forall>j<n. reachable_end (new ! j) (m_net cfg') \<longleftrightarrow> j \<in> set to \<and> m_servers cfg ! j \<noteq> None)))"
  using m_partition_exact [OF master_inv(1) [OF assms]] m_clerk_exact [OF master_inv(1) [OF assms]]
  unfolding same_side_def master_inv(2) [OF assms] by blast

definition two_masters :: "(nat, nat, nat) sm_config res" where
  "two_masters = m_make_config two_names (\<lambda>i. i) (\<lambda>_. (MakeService [] 0 [], MakeService [] 0 [])) 2 False"

lemma two_masters_run: "case two_masters of Inl _ \<Rightarrow> False | Inr cfg \<Rightarrow>
    (case m_run two_ops cfg of Inl _ \<Rightarrow> False | Inr c \<Rightarrow> m_servers c = [Some 0, Some 7] \<and> m_name c 1 0 = ''A'' \<and> ends (m_net c) ''X'' = None \<and> ends (m_net c) ''Y'' = None)"
  by code_simp

theorem master_connectivity_witness:
  "\<exists>cfg0 cfg cfg' cfg'' handles. two_masters = Inr cfg0 \<and> m_run two_ops cfg0 = Inr cfg \<and>
     m_partition [0] [1] cfg = Inr cfg' \<and> \<not> reachable_end ''A'' (m_net cfg') \<and>
     m_makeClient [''X'', ''Y''] [0, 0] 5 [1] cfg = Inr (cfg'', handles) \<and> reachable_end ''Y'' (m_net cfg'') \<and> \<not> reachable_end ''X'' (m_net cfg'')"
proof -
  obtain cfg0 cfg where c0: "two_masters = Inr cfg0" and c: "m_run two_ops cfg0 = Inr cfg"
    and v: "m_servers cfg = [Some 0, Some 7]" "m_name cfg 1 0 = ''A''" "ends (m_net cfg) ''X'' = None" "ends (m_net cfg) ''Y'' = None"
    using two_masters_run by (auto split: sum.splits)
  have "list_all (draws 2) two_ops" by (simp add: two_ops_def)
  note th = master_connectivity [OF two_names_ok c0 [unfolded two_masters_def] c this]
  obtain cfg' where p: "m_partition [0] [1] cfg = Inr cfg'"
    and r: "\<not> reachable_end (m_name cfg 1 0) (m_net cfg')"
    using th [THEN conjunct1, rule_format, of "[0]" "[1]"] by auto
  obtain cfg'' handles where m: "m_makeClient [''X'', ''Y''] [0, 0] 5 [1] cfg = Inr (cfg'', handles)"
    and q: "\<And>j. j < 2 \<Longrightarrow> reachable_end ([''X'', ''Y''] ! j) (m_net cfg'') \<longleftrightarrow> j \<in> set [1] \<and> m_servers cfg ! j \<noteq> None"
    using th [THEN conjunct2, rule_format, of "[''X'', ''Y'']" "[1]" "[0, 0]" 5] v(3,4) by (auto simp: upt_rec)
  show ?thesis using c0 c p m r q [of 0] q [of 1] v(1,2)
    by (intro exI [of _ cfg0] exI [of _ cfg] exI [of _ cfg'] exI [of _ cfg''] exI [of _ handles]) simp
qed

end
