(* ===== verification/MrMaster.thy ===== *)
theory MrMaster
  imports Json
begin

text \<open>
  The bookkeeping of the MapReduce master and worker (\<^verbatim>\<open>mr/master.go\<close>, \<^verbatim>\<open>mr/worker.go\<close>), and the programs \<^verbatim>\<open>main/mrmaster.go\<close>
  and \<^verbatim>\<open>main/mrworker.go\<close>, and the properties of the MapReduce programs.

  The two files are unfinished and do not compile (a missing \<open>:=\<close>, type names in the wrong place, a
  function without a final return); their functions are modelled as they are meant to be read, with the names as they
  are written.  Sockets, the clock and the file system are arguments: \<open>now\<close> is the current time, and \<open>reads\<close> the
  buffers that successive calls of \<open>Read\<close> fill before the end of the file.
\<close>

section \<open>State\<close>

record Task =
  Filename :: string
  tWorkerId :: string
  StartTime :: nat
  Status :: int

record mr_Worker =
  wId :: string
  wHostname :: string
  wPort :: nat

record Master =
  Workers :: "mr_Worker list"
  Tasks :: "Task list"

section \<open>Handlers\<close>

definition Example :: "int \<Rightarrow> int" where
  "Example x = x + 1"

definition RegisterWorker :: "nat \<Rightarrow> string \<Rightarrow> nat \<Rightarrow> Master \<Rightarrow> Master \<times> string" where
  "RegisterWorker now hostname port m =
     (let workerId = hostname @ '':'' @ Itoa port @ ''-'' @ Itoa now;
          worker = \<lparr>wId = workerId, wHostname = hostname, wPort = port\<rparr>
      in (m\<lparr>Workers := Workers m @ [worker]\<rparr>, workerId))"

text \<open>
  The loop variable is a copy of the element of \<open>m.Tasks\<close>, so the assignments to it leave the master as it
  was.  The result \<open>None\<close> is a reply without a task.
\<close>

fun task_loop :: "nat \<Rightarrow> string \<Rightarrow> Task list \<Rightarrow> Task option" where
  "task_loop now wid [] = None"
| "task_loop now wid (task # rest) =
     (if Status task = 0 then Some (task\<lparr>Status := 1, tWorkerId := wid, StartTime := now\<rparr>)
      else task_loop now wid rest)"

definition GetTask :: "nat \<Rightarrow> string \<Rightarrow> Master \<Rightarrow> Master \<times> Task option" where
  "GetTask now wid m = (m, task_loop now wid (Tasks m))"

definition Master_Done :: "Master \<Rightarrow> bool" where
  "Master_Done m = False"

definition MakeMaster :: "string list \<Rightarrow> Master" where
  "MakeMaster files =
     \<lparr>Workers = [], Tasks = map (\<lambda>filename. \<lparr>Filename = filename, tWorkerId = [], StartTime = 0, Status = 0\<rparr>) files\<rparr>"

text \<open>\<open>split\<close>: the chunk that is appended is newly made, so it holds zero bytes.\<close>

fun split_loop :: "string list \<Rightarrow> string list \<Rightarrow> string list" where
  "split_loop [] res = res"
| "split_loop (buffer # reads) res =
     (let bytesRead = length buffer;
          chunk = replicate bytesRead (CHR 0x00)
      in split_loop reads (res @ [take bytesRead chunk]))"

definition mr_split :: "string list option \<Rightarrow> string list res" where
  "mr_split opened = (case opened of None \<Rightarrow> Inl (Fatal ''cannot open'') | Some reads \<Rightarrow> Inr (split_loop reads []))"

definition masterSock :: "nat \<Rightarrow> string" where
  "masterSock uid = ''/var/tmp/824-mr-'' @ Itoa uid"

text \<open>\<open>server\<close>, which \<open>MakeMaster\<close> ends with: \<open>listen\<close> says whether a socket of that name can be opened.\<close>

definition mr_server :: "(string \<Rightarrow> bool) \<Rightarrow> nat \<Rightarrow> unit res" where
  "mr_server listen uid = (if listen (masterSock uid) then Inr () else Inl (Fatal ''listen error:''))"

section \<open>The worker\<close>

text \<open>
  \<open>net/rpc\<close> finds a method by the name it is exported with, and answers an unknown name with an error.  Arguments and
  replies are tagged with the type of the request or response struct; a call with an error leaves the caller's
  reply as it was.  \<open>up\<close> says that the master listens on the socket \<open>masterSock\<close>.
\<close>

datatype mr_args = ExampleArgs int | RegisterWorkerRequest string nat | GetTaskRequest string
datatype mr_reply = ExampleReply int | RegisterWorkerResponse string | GetTaskResponse Task

definition no_task :: Task where
  "no_task = \<lparr>Filename = [], tWorkerId = [], StartTime = 0, Status = 0\<rparr>"

definition Master_dispatch :: "nat \<Rightarrow> string \<Rightarrow> mr_args \<Rightarrow> Master \<Rightarrow> (Master \<times> mr_reply) option" where
  "Master_dispatch now rpcname args m =
     (case args of
        ExampleArgs x \<Rightarrow> if rpcname = ''Master.Example'' then Some (m, ExampleReply (Example x)) else None
      | RegisterWorkerRequest hostname port \<Rightarrow>
          if rpcname = ''Master.RegisterWorker'' then
            (let (m', wid) = RegisterWorker now hostname port m in Some (m', RegisterWorkerResponse wid))
          else None
      | GetTaskRequest wid \<Rightarrow>
          if rpcname = ''Master.GetTask'' then
            (let (m', task) = GetTask now wid m
             in Some (m', GetTaskResponse (case task of None \<Rightarrow> no_task | Some t \<Rightarrow> t)))
          else None)"

definition mr_call :: "bool \<Rightarrow> nat \<Rightarrow> string \<Rightarrow> mr_args \<Rightarrow> mr_reply \<Rightarrow> Master \<Rightarrow> (Master \<times> mr_reply \<times> bool) res" where
  "mr_call up now rpcname args reply m =
     (if \<not> up then Inl (Fatal ''dialing:'')
      else (case Master_dispatch now rpcname args m of
              Some (m', reply') \<Rightarrow> Inr (m', reply', True)
            | None \<Rightarrow> Inr (m, reply, False)))"

definition mr_register :: "bool \<Rightarrow> nat \<Rightarrow> string \<Rightarrow> Master \<Rightarrow> (Master \<times> string) res" where
  "mr_register up now hostname m =
     rbind (mr_call up now ''Master.RegisterWorker'' (RegisterWorkerRequest hostname 0) (RegisterWorkerResponse []) m)
       (\<lambda>(m', reply, ok). Inr (m', case reply of RegisterWorkerResponse wid \<Rightarrow> wid | _ \<Rightarrow> []))"

definition mr_getTask :: "bool \<Rightarrow> nat \<Rightarrow> string \<Rightarrow> Master \<Rightarrow> (Master \<times> Task) res" where
  "mr_getTask up now wid m =
     rbind (mr_call up now ''Master.getTask'' (GetTaskRequest wid) (GetTaskResponse no_task) m)
       (\<lambda>(m', reply, ok). Inr (m', case reply of GetTaskResponse t \<Rightarrow> t | _ \<Rightarrow> no_task))"

definition readFile :: "(string \<Rightarrow> input_file) \<Rightarrow> string \<Rightarrow> string res" where
  "readFile fs filename =
     (case fs filename of
        NoFile \<Rightarrow> Inl (Fatal ''cannot open'')
      | Unreadable \<Rightarrow> Inl (Fatal ''cannot read'')
      | Contents content \<Rightarrow> Inr content)"

text \<open>\<open>json.Encoder.Encode\<close> of the pairs, each on a line of its own.\<close>

definition encode_kv :: "KeyValue \<Rightarrow> string" where
  "encode_kv kv = show_json (JObj [(''Key'', JStr (mKey kv)), (''Value'', JStr (mValue kv))]) @ [CHR 0x0A]"

text \<open>\<open>Worker\<close>: the master after its calls and the contents of the intermediate file.\<close>

definition mr_worker :: "(KeyValue list \<Rightarrow> KeyValue list) \<Rightarrow> map_fn \<Rightarrow> (string \<Rightarrow> input_file) \<Rightarrow> bool \<Rightarrow> nat \<Rightarrow> nat \<Rightarrow> string \<Rightarrow> Master
    \<Rightarrow> (Master \<times> string) res" where
  "mr_worker srt mapf fs up now now' hostname m =
     rbind (mr_register up now hostname m) (\<lambda>(m1, wid).
     rbind (mr_getTask up now' wid m1) (\<lambda>(m2, task).
     rbind (readFile fs (Filename task)) (\<lambda>content.
     rbind (mapf (Filename task) content) (\<lambda>mapRes.
     Inr (m2, concat (map encode_kv (srt mapRes)))))))"

section \<open>The programs around them\<close>

text \<open>
  \<^verbatim>\<open>main/mrmaster.go\<close>: \<open>polls\<close> are the states of the master at the successive calls of \<open>Done\<close>; \<open>None\<close> means that the
  program is still waiting after them.
\<close>

fun wait_done :: "Master list \<Rightarrow> Master option" where
  "wait_done [] = None"
| "wait_done (m # polls) = (if Master_Done m = False then wait_done polls else Some m)"

definition mrmaster_main :: "(string \<Rightarrow> bool) \<Rightarrow> nat \<Rightarrow> (Master \<Rightarrow> Master list) \<Rightarrow> string list \<Rightarrow> Master res option" where
  "mrmaster_main listen uid polls args =
     (if length args < 1 then Some (Inl (Fatal ''Usage: mrmaster inputfiles...''))
      else (let m = MakeMaster args
            in case mr_server listen uid of
                 Inl e \<Rightarrow> Some (Inl e)
               | Inr _ \<Rightarrow> map_option Inr (wait_done (polls m))))"

text \<open>\<^verbatim>\<open>main/mrworker.go\<close>\<close>

definition worker_loadPlugin :: "(string \<Rightarrow> (string \<Rightarrow> symbol option) option) \<Rightarrow> string \<Rightarrow> (map_fn \<times> reduce_fn) res" where
  "worker_loadPlugin plugins filename =
     (case plugins filename of
        None \<Rightarrow> Inl (Fatal ''cannot load plugin'')
      | Some p \<Rightarrow>
          (case p ''Map'' of
             None \<Rightarrow> Inl (Fatal ''cannot find Map'')
           | Some (MapSym mapf) \<Rightarrow>
               (case p ''Reduce'' of
                  None \<Rightarrow> Inl (Fatal ''cannot find Reduce'')
                | Some (ReduceSym reducef) \<Rightarrow> Inr (mapf, reducef)
                | Some _ \<Rightarrow> Inl TypeAssertion)
           | Some _ \<Rightarrow> Inl TypeAssertion))"

definition mrworker_main :: "(string \<Rightarrow> (string \<Rightarrow> symbol option) option) \<Rightarrow> (map_fn \<Rightarrow> (Master \<times> string) res) \<Rightarrow> string list
    \<Rightarrow> (Master \<times> string) res" where
  "mrworker_main plugins worker args =
     (if length args \<noteq> 1 then Inl (Fatal ''Usage: mrworker xxx.so'')
      else rbind (worker_loadPlugin plugins (hd args)) (\<lambda>(mapf, reducef). worker mapf))"

lemma wait_done_forever: "wait_done polls = None"
  by (induction polls) (simp_all add: Master_Done_def)

text \<open>Since \<open>Done\<close> always returns false, the master runs until it is killed.\<close>

lemma mrmaster_main_waits: "mrmaster_main listen uid polls args \<noteq> Some (Inr m)"
  by (auto simp: mrmaster_main_def mr_server_def wait_done_forever Let_def)

lemma worker_loadPlugin_same: "worker_loadPlugin = loadPlugin"
  by (intro ext) (simp add: worker_loadPlugin_def loadPlugin_def)

text \<open>
  The worker asks for a method the master does not export, ignores that the call fails, and opens the file
  with the empty name: no program run by \<^verbatim>\<open>mrworker\<close> gets as far as \<open>Map\<close>.
\<close>

lemma mr_worker_no_task:
  assumes "fs [] = NoFile"
  shows "mr_worker srt mapf fs True now now' hostname m = Inl (Fatal ''cannot open'')"
  using assms by (simp add: mr_worker_def mr_register_def mr_getTask_def mr_call_def Master_dispatch_def RegisterWorker_def
      readFile_def no_task_def Let_def)

lemma mrworker_main_fails:
  assumes "fs [] = NoFile"
  shows "\<exists>e. mrworker_main plugins (\<lambda>mapf. mr_worker srt mapf fs up now now' hostname m) args = Inl e"
proof (cases up)
  case True
  then show ?thesis using mr_worker_no_task [of fs, OF assms]
    by (cases "worker_loadPlugin plugins (hd args)") (auto simp: mrworker_main_def)
next
  case False
  then show ?thesis
    by (cases "worker_loadPlugin plugins (hd args)")
      (auto simp: mrworker_main_def mr_worker_def mr_register_def mr_call_def)
qed

text \<open>With the name the master exports, the calls would give the worker the first file.\<close>

lemma mr_call_GetTask:
  "files \<noteq> [] \<Longrightarrow> mr_call True now ''Master.GetTask'' (GetTaskRequest wid) (GetTaskResponse no_task) (MakeMaster files) =
     Inr (MakeMaster files, GetTaskResponse \<lparr>Filename = hd files, tWorkerId = wid, StartTime = now, Status = 1\<rparr>, True)"
  by (cases files) (simp_all add: mr_call_def Master_dispatch_def GetTask_def MakeMaster_def Let_def no_task_def)

text \<open>What the encoder writes can be read back, a line for every pair, with bytes that are not UTF-8 replaced.\<close>

lemma encode_kv_reads:
  "\<exists>line. encode_kv kv = line @ [CHR 0x0A] \<and> parse_json line = Some (JObj [(''Key'', JStr (to_valid (mKey kv))), (''Value'', JStr (to_valid (mValue kv)))])"
proof -
  have "to_valid ''Key'' = ''Key''" "to_valid ''Value'' = ''Value''" by (rule to_valid_id, rule ascii_valid, simp add: in_range_def)+
  then have "parse_json (show_json (JObj [(''Key'', JStr (mKey kv)), (''Value'', JStr (mValue kv))])) =
      Some (JObj [(''Key'', JStr (to_valid (mKey kv))), (''Value'', JStr (to_valid (mValue kv)))])"
    unfolding parse_show by (simp del: to_valid.simps)
  then show ?thesis unfolding encode_kv_def by blast
qed

lemma split_loop_result: "split_loop reads res = res @ map (\<lambda>b. replicate (length b) (CHR 0x00)) reads"
  by (induction reads res rule: split_loop.induct) simp_all

lemma concat_replicates: "concat (map (\<lambda>b. replicate (length b) c) bs) = replicate (length (concat bs)) c"
  by (induction bs) (simp_all add: replicate_add)

lemma task_loop_first: "\<forall>t\<in>set ts. Status t = 0 \<Longrightarrow> ts \<noteq> [] \<Longrightarrow>
    task_loop now wid ts = Some ((hd ts)\<lparr>Status := 1, tWorkerId := wid, StartTime := now\<rparr>)"
  by (cases ts) simp_all

section \<open>Properties\<close>

definition ascii_letter :: "char \<Rightarrow> bool" where
  "ascii_letter c = (let n = of_char c :: nat in 65 \<le> n \<and> n \<le> 90 \<or> 97 \<le> n \<and> n \<le> 122)"

definition demo_files :: "(string \<times> string) list" where
  "demo_files = [(''f'', ''b a b''), (''g'', ''a,c'')]"

definition demo_fs :: "string \<Rightarrow> input_file" where
  "demo_fs n = (case map_of demo_files n of None \<Rightarrow> NoFile | Some c \<Rightarrow> Contents c)"

definition demo_plugins :: "string \<Rightarrow> (string \<Rightarrow> symbol option) option" where
  "demo_plugins n =
     (if n = ''wc.so'' then Some [''Map'' \<mapsto> MapSym (wc_Map ascii_letter), ''Reduce'' \<mapsto> ReduceSym wc_Reduce]
      else if n = ''indexer.so'' then
        Some [''Map'' \<mapsto> MapSym (indexer_Map ascii_letter sorted_list_of_set), ''Reduce'' \<mapsto> ReduceSym indexer_Reduce]
      else None)"

lemma key_sort_go_sort: "go_sort ByKey_Less (sort_key mKey)"
  unfolding ByKey_Less_def [abs_def] by (rule sort_key_go_sort)

lemma sorted_list_iterates: "iterates sorted_list_of_set"
  by (simp add: iterates_def)

lemma demo_load:
  "loadPlugin demo_plugins ''wc.so'' = Inr (wc_Map ascii_letter, wc_Reduce)"
  "loadPlugin demo_plugins ''indexer.so'' = Inr (indexer_Map ascii_letter sorted_list_of_set, indexer_Reduce)"
  by (simp_all add: loadPlugin_def demo_plugins_def)

lemma demo_fs_files: "list_all (\<lambda>(n, c). demo_fs n = Contents c) demo_files" "demo_files \<noteq> []"
  by (simp_all add: demo_files_def demo_fs_def)

lemma demo_words: "all_words ascii_letter demo_files = [''b'', ''a'', ''b'', ''a'', ''c'']"
  by (simp add: all_words_def demo_files_def FieldsFunc_def ascii_letter_def Let_def)

text \<open>
  C27. The sequential program with the word-count application writes one line for every word of the
  input files, in increasing order: the word and the number of times it occurs in all the files
  together.  This needs of \<open>sort.Sort\<close> only that it sorts by key, not that it is stable.
\<close>

theorem mrsequential_wc:
  assumes "go_sort ByKey_Less srt" and "loadPlugin plugins so = Inr (wc_Map letter, wc_Reduce)"
    and "list_all (\<lambda>(n, c). fs n = Contents c) files" and "files \<noteq> []"
  shows "mrsequential srt plugins fs (so # map fst files) =
    Inr (concat (map (\<lambda>w. out_line w (Itoa (count_list (all_words letter files) w))) (sorted_list_of_set (set (all_words letter files)))))"
  using wc.sequential_output [OF assms] by (simp add: emitted_wc wc_values wc_keys)

theorem mrsequential_wc_witness:
  "mrsequential (sort_key mKey) demo_plugins demo_fs [''wc.so'', ''f'', ''g''] =
     Inr (''a 2'' @ [CHR 0x0A] @ ''b 2'' @ [CHR 0x0A] @ ''c 1'' @ [CHR 0x0A])"
proof -
  have f: "map fst demo_files = [''f'', ''g'']" by (simp add: demo_files_def)
  have s: "sorted_list_of_set {''b'', ''a'', ''c''} = [''a'', ''b'', ''c'']" by code_simp
  have i: "Itoa 2 = ''2''" "Itoa (Suc 0) = ''1''" by code_simp+
  show ?thesis
    using mrsequential_wc [OF key_sort_go_sort demo_load(1) demo_fs_files] unfolding f demo_words
    by (simp add: s insert_commute out_line_def i numeral_2_eq_2 [symmetric])
qed

text \<open>
  C28. The sequential program with the indexing application writes, for every word in increasing
  order, in how many files it occurs and the sorted list of their names, whatever the order in which
  Go iterates over the map of words.
\<close>

theorem mrsequential_indexer:
  assumes "go_sort ByKey_Less srt" and "iterates iter" and "loadPlugin plugins so = Inr (indexer_Map letter iter, indexer_Reduce)"
    and "list_all (\<lambda>(n, c). fs n = Contents c) files" and "files \<noteq> []"
  shows "mrsequential srt plugins fs (so # map fst files) =
    Inr (concat (map (\<lambda>w. out_line w (index_entry (sort (map fst (filter (\<lambda>(n, c). has_word letter w c) files)))))
      (sorted_list_of_set (set (all_words letter files)))))"
  using indexer.sequential_output [OF assms(1,3-5)]
  by (simp add: index_values [OF assms(2)] index_keys [OF assms(2)] flip: sorted_list_of_multiset_mset)

theorem mrsequential_indexer_witness:
  "mrsequential (sort_key mKey) demo_plugins demo_fs [''indexer.so'', ''f'', ''g''] =
     Inr (''a 2 f,g'' @ [CHR 0x0A] @ ''b 1 f'' @ [CHR 0x0A] @ ''c 1 g'' @ [CHR 0x0A])"
proof -
  have f: "map fst demo_files = [''f'', ''g'']" by (simp add: demo_files_def)
  have s: "sorted_list_of_set {''b'', ''a'', ''c''} = [''a'', ''b'', ''c'']" by code_simp
  have e: "index_entry (sort (map fst (filter (\<lambda>(n, c). has_word ascii_letter ''a'' c) demo_files))) = ''2 f,g''"
    "index_entry (sort (map fst (filter (\<lambda>(n, c). has_word ascii_letter ''b'' c) demo_files))) = ''1 f''"
    "index_entry (sort (map fst (filter (\<lambda>(n, c). has_word ascii_letter ''c'' c) demo_files))) = ''1 g''" by code_simp+
  show ?thesis
    using mrsequential_indexer [OF key_sort_go_sort sorted_list_iterates demo_load(2) demo_fs_files] unfolding f demo_words
    by (simp add: s insert_commute out_line_def e)
qed

text \<open>
  If one of the input files cannot be opened or read, the sequential program stops with that error
  and writes nothing, and with fewer than two arguments it stops with the usage message.
\<close>

theorem mrsequential_errors:
  assumes "loadPlugin plugins so = Inr (wc_Map letter, wc_Reduce)" and "list_ex (\<lambda>n. \<forall>c. fs n \<noteq> Contents c) names"
  shows "(mrsequential srt plugins fs (so # names) = Inl (Fatal ''cannot open'') \<or>
      mrsequential srt plugins fs (so # names) = Inl (Fatal ''cannot read'')) \<and>
    mrsequential srt plugins fs [so] = Inl (Fatal ''Usage: mrsequential xxx.so inputfiles...'')"
  using wc.sequential_missing_file [OF assms] by (simp add: mrsequential_def)

theorem mrsequential_errors_witness:
  "mrsequential (sort_key mKey) demo_plugins demo_fs [''wc.so'', ''f'', ''h''] = Inl (Fatal ''cannot open'') \<or>
   mrsequential (sort_key mKey) demo_plugins demo_fs [''wc.so'', ''f'', ''h''] = Inl (Fatal ''cannot read'')"
proof -
  have "list_ex (\<lambda>n. \<forall>c. demo_fs n \<noteq> Contents c) [''f'', ''h'']" by (simp add: demo_fs_def demo_files_def)
  from mrsequential_errors [OF demo_load(1) this, of "sort_key mKey"] show ?thesis by simp
qed

text \<open>
  The hash of a key is a number of 31 bits, so its remainder is a valid number of a reduce task.
\<close>

theorem ihash_bounds:
  "0 \<le> ihash k \<and> ihash k < 2 ^ 31 \<and> (nReduce \<le> 0 \<or> 0 \<le> ihash k mod nReduce \<and> ihash k mod nReduce < nReduce)"
proof -
  have m: "(0x7fffffff :: 32 word) = mask 31" by (simp add: mask_eq_exp_minus_1)
  have "uint (and (fnv32a 2166136261 k) 0x7fffffff) = take_bit 31 (uint (fnv32a 2166136261 k))"
    unfolding m take_bit_eq_mask [symmetric] by (rule unsigned_take_bit_eq)
  then have "ihash k = take_bit 31 (uint (fnv32a 2166136261 k))" by (simp add: ihash_def)
  moreover have "take_bit 31 (uint (fnv32a 2166136261 k)) < 2 ^ 31" by (rule take_bit_int_less_exp)
  ultimately show ?thesis by auto
qed

text \<open>
  However often and by whichever workers \<open>GetTask\<close> is called, the master never changes, so every
  worker is given the first file: the tasks of the other files are never handed out.
\<close>

theorem GetTask_repeats:
  assumes "files \<noteq> []"
  shows "GetTask now wid (MakeMaster files) =
    (MakeMaster files, Some \<lparr>Filename = hd files, tWorkerId = wid, StartTime = now, Status = 1\<rparr>)"
proof -
  obtain f fs where "files = f # fs" using assms by (cases files) auto
  then show ?thesis by (simp add: GetTask_def MakeMaster_def)
qed

theorem GetTask_repeats_witness:
  "snd (GetTask 2 ''w2'' (fst (GetTask 1 ''w1'' (MakeMaster [''f'', ''g''])))) =
     Some \<lparr>Filename = ''f'', tWorkerId = ''w2'', StartTime = 2, Status = 1\<rparr>"
  using GetTask_repeats [of "[''f'', ''g'']" 1 "''w1''"] GetTask_repeats [of "[''f'', ''g'']" 2 "''w2''"] by simp

text \<open>
  \<open>split\<close> returns one chunk for each read, with the right length, but without the contents: the chunks
  are all zero bytes.
\<close>

theorem split_loses_contents:
  "\<exists>chunks. mr_split (Some reads) = Inr chunks \<and> map length chunks = map length reads \<and>
     concat chunks = replicate (length (concat reads)) (CHR 0x00)"
  by (simp add: mr_split_def split_loop_result concat_replicates)

end
