(* ===== verification/MrTiming.thy ===== *)
theory MrTiming
  imports MapReduce
begin

text \<open>
  The applications \<^verbatim>\<open>mrapps/mtiming.go\<close> and \<^verbatim>\<open>mrapps/rtiming.go\<close>, which find out whether workers run at the same
  time.  Every call of \<open>nparallel\<close> creates a file that carries the process's number, counts the files of
  processes that are alive, sleeps for a second, and removes its file; the two source files have the same
  \<open>nparallel\<close>.

  The workers are processes that share a directory, so \<open>nparallel\<close> is a state machine: \<open>np_run\<close> is one system call
  of one process, and \<open>np_step\<close> interleaves the calls of all workers with what other programs do.  A process calls
  \<open>nparallel\<close> again and again, once per task.  Reading the directory is one step: the million names that \<open>Readdirnames\<close> asks for
  are taken from the directory as it is at one moment.
\<close>

section \<open>Scanning a file name\<close>

text \<open>
  \<open>fmt.Sscanf(name, prefix + "%d", &xpid)\<close> for a prefix without blanks and percent signs: the prefix must be there,
  blanks before the number are skipped (a newline is an error), a sign may follow, then at least one digit, and
  the number must fit into 64 bits.  What comes after the number is ignored.
\<close>

fun skip_space :: "string \<Rightarrow> string option" where
  "skip_space [] = Some []"
| "skip_space (c # cs) =
     (if c = CHR 0x0A then None
      else if c \<in> {CHR 0x09, CHR 0x0B, CHR 0x0C, CHR 0x0D, CHR '' ''} then skip_space cs
      else Some (c # cs))"

definition scan_int :: "string \<Rightarrow> int option" where
  "scan_int s =
     (let neg = (s \<noteq> [] \<and> hd s = CHR ''-'');
          u = (if s \<noteq> [] \<and> hd s \<in> {CHR ''+'', CHR ''-''} then tl s else s);
          ds = takeWhile is_digit u;
          i = (if neg then - int (digits_value ds) else int (digits_value ds))
      in if ds = [] \<or> i < - (2 ^ 63) \<or> 2 ^ 63 \<le> i then None else Some i)"

fun match_literal :: "string \<Rightarrow> string \<Rightarrow> string option" where
  "match_literal [] s = Some s"
| "match_literal (c # cs) [] = None"
| "match_literal (c # cs) (d # ds) = (if c = d then match_literal cs ds else None)"

definition Sscanf_d :: "string \<Rightarrow> string \<Rightarrow> int option" where
  "Sscanf_d prefix name =
     (case match_literal prefix name of
        None \<Rightarrow> None
      | Some s \<Rightarrow> (case skip_space s of None \<Rightarrow> None | Some t \<Rightarrow> scan_int t))"

section \<open>The calls of the workers\<close>

text \<open>The points at which a process can be inside \<open>nparallel\<close>, with the local variables that are live there.\<close>

datatype np_state =
    NIdle
  | NMarked
  | NScan "string list" nat
  | NSlept nat
  | NDone nat
  | NPanic

text \<open>
  The directory the workers run in, the numbers for which \<open>kill(xpid, 0)\<close> succeeds, whether the directory can be
  written and read, and the processes.
\<close>

record np_world =
  np_dir :: "string set"
  np_live :: "int set"
  np_writable :: bool
  np_readable :: bool
  np_procs :: "nat \<Rightarrow> np_state"

definition np_prefix :: "string \<Rightarrow> string" where
  "np_prefix phase = ''mr-worker-'' @ phase @ ''-''"

definition myfilename :: "string \<Rightarrow> nat \<Rightarrow> string" where
  "myfilename phase pid = np_prefix phase @ Itoa pid"

definition np_goto :: "nat \<Rightarrow> np_state \<Rightarrow> np_world \<Rightarrow> np_world" where
  "np_goto pid s w = w\<lparr>np_procs := (np_procs w)(pid := s)\<rparr>"

text \<open>Writing the file, the first action of a call.\<close>

definition np_begin :: "string \<Rightarrow> nat \<Rightarrow> np_world \<Rightarrow> np_world" where
  "np_begin phase pid w =
     (if np_writable w then np_goto pid NMarked (w\<lparr>np_dir := insert (myfilename phase pid) (np_dir w)\<rparr>)
      else np_goto pid NPanic w)"

text \<open>\<open>listing\<close> is the order in which the directory returns its names; after \<open>NDone\<close> the process calls \<open>nparallel\<close> again.\<close>

definition np_run :: "(string set \<Rightarrow> string list) \<Rightarrow> string \<Rightarrow> nat \<Rightarrow> np_world \<Rightarrow> np_world" where
  "np_run listing phase pid w =
     (case np_procs w pid of
        NIdle \<Rightarrow> np_begin phase pid w
      | NMarked \<Rightarrow>
          (let names = take 1000000 (listing (np_dir w))
           in if \<not> np_readable w \<or> names = [] then np_goto pid NPanic w else np_goto pid (NScan names 0) w)
      | NScan names ret \<Rightarrow>
          (case names of
             [] \<Rightarrow> np_goto pid (NSlept ret) w
           | name # names' \<Rightarrow>
               np_goto pid (NScan names'
                 (case Sscanf_d (np_prefix phase) name of
                    Some xpid \<Rightarrow> if xpid \<in> np_live w then ret + 1 else ret
                  | None \<Rightarrow> ret)) w)
      | NSlept ret \<Rightarrow>
          if np_writable w \<and> myfilename phase pid \<in> np_dir w
          then np_goto pid (NDone ret) (w\<lparr>np_dir := np_dir w - {myfilename phase pid}\<rparr>)
          else np_goto pid NPanic w
      | NDone ret \<Rightarrow> np_begin phase pid w
      | NPanic \<Rightarrow> w)"

text \<open>
  The steps of the workers \<open>W\<close> and of everything else.  Other programs create and remove files and start and end, but
  they create no file that looks like a worker's, keep the directory below the million names \<open>Readdirnames\<close> asks for,
  remove no worker's file and are not workers.
\<close>

inductive np_step :: "(string set \<Rightarrow> string list) \<Rightarrow> string \<Rightarrow> nat set \<Rightarrow> np_world \<Rightarrow> np_world \<Rightarrow> bool"
  for listing :: "string set \<Rightarrow> string list" and phase :: string and W :: "nat set" where
  worker_runs: "p \<in> W \<Longrightarrow> np_step listing phase W w (np_run listing phase p w)"
| file_created: "Sscanf_d (np_prefix phase) name = None \<Longrightarrow> card (np_dir w - myfilename phase ` W) + card W < 1000000 \<Longrightarrow>
    np_step listing phase W w (w\<lparr>np_dir := insert name (np_dir w)\<rparr>)"
| file_removed: "name \<notin> myfilename phase ` W \<Longrightarrow> np_step listing phase W w (w\<lparr>np_dir := np_dir w - {name}\<rparr>)"
| process_started: "np_step listing phase W w (w\<lparr>np_live := insert x (np_live w)\<rparr>)"
| process_ended: "x \<notin> int ` W \<Longrightarrow> np_step listing phase W w (w\<lparr>np_live := np_live w - {x}\<rparr>)"


section \<open>The applications\<close>

text \<open>
  \<open>n\<close> is what \<open>nparallel\<close> returned, and \<open>ts\<close> the time at the start of \<open>Map\<close>, printed with one digit after the point.
\<close>

definition mtiming_Map :: "nat \<Rightarrow> string \<Rightarrow> nat \<Rightarrow> map_fn" where
  "mtiming_Map pid ts n filename contents =
     Inr [\<lparr>mKey = ''times-'' @ Itoa pid, mValue = ts\<rparr>, \<lparr>mKey = ''parallel-'' @ Itoa pid, mValue = Itoa n\<rparr>]"

definition mtiming_Reduce :: reduce_fn where
  "mtiming_Reduce key vals = Inr (Join '' '' (sort vals))"

definition rtiming_Map :: map_fn where
  "rtiming_Map filename contents =
     Inr [\<lparr>mKey = ''a'', mValue = ''1''\<rparr>, \<lparr>mKey = ''b'', mValue = ''1''\<rparr>, \<lparr>mKey = ''c'', mValue = ''1''\<rparr>,
          \<lparr>mKey = ''d'', mValue = ''1''\<rparr>, \<lparr>mKey = ''e'', mValue = ''1''\<rparr>, \<lparr>mKey = ''f'', mValue = ''1''\<rparr>,
          \<lparr>mKey = ''g'', mValue = ''1''\<rparr>, \<lparr>mKey = ''h'', mValue = ''1''\<rparr>, \<lparr>mKey = ''i'', mValue = ''1''\<rparr>,
          \<lparr>mKey = ''j'', mValue = ''1''\<rparr>]"

definition rtiming_Reduce :: "nat \<Rightarrow> reduce_fn" where
  "rtiming_Reduce n key vals = Inr (Itoa n)"

section \<open>A worker's file name is read back\<close>

lemma match_literal_prefix [simp]: "match_literal p (p @ s) = Some s"
  by (induction p) simp_all







section \<open>What the shared directory looks like\<close>





lemma np_goto_simps [simp]:
  "np_dir (np_goto p s w) = np_dir w" "np_live (np_goto p s w) = np_live w"
  "np_writable (np_goto p s w) = np_writable w" "np_readable (np_goto p s w) = np_readable w"
  "np_procs (np_goto p s w) = (np_procs w)(p := s)"
  by (simp_all add: np_goto_def)

lemma np_run_frame [simp]:
  "np_live (np_run L phase p w) = np_live w" "np_writable (np_run L phase p w) = np_writable w"
  "np_readable (np_run L phase p w) = np_readable w" "q \<noteq> p \<Longrightarrow> np_procs (np_run L phase p w) q = np_procs w q"
  by (auto simp: np_run_def np_begin_def Let_def split: np_state.split list.split)









section \<open>Counting\<close>









section \<open>Overlapping calls\<close>







section \<open>Properties\<close>















end
