(* ===== verification/Names.thy ===== *)
theory Names
  imports Labrpc
begin

text \<open>
  \<open>randstring\<close> of the harnesses (\<^verbatim>\<open>raft/config.go\<close>, the same in \<^verbatim>\<open>kvraft/config.go\<close>, \<^verbatim>\<open>shardmaster/config.go\<close> and
  \<^verbatim>\<open>shardkv/config.go\<close>), which names the end-points: the first \<open>n\<close> characters of \<open>2n\<close> random bytes in the URL-safe base64
  of \<open>encoding/base64\<close>.  The harnesses rely on different draws giving different names.
\<close>

section \<open>Base64\<close>

definition url_alphabet :: string where
  "url_alphabet = ''ABCDEFGHIJKLMNOPQRSTUVWXYZabcdefghijklmnopqrstuvwxyz0123456789-_''"

text \<open>The 24 bits of a group of three bytes, and its sextets from the most significant one.\<close>

definition group_bits :: "8 word \<Rightarrow> 8 word \<Rightarrow> 8 word \<Rightarrow> nat" where
  "group_bits a b c = unat a * 65536 + unat b * 256 + unat c"

definition sextet :: "nat \<Rightarrow> nat \<Rightarrow> char" where
  "sextet k v = url_alphabet ! (v div 64 ^ k mod 64)"

fun EncodeToString :: "bytes \<Rightarrow> string" where
  "EncodeToString [] = []"
| "EncodeToString [a] = (let v = group_bits a 0 0 in [sextet 3 v, sextet 2 v, CHR ''='', CHR ''=''])"
| "EncodeToString [a, b] = (let v = group_bits a b 0 in [sextet 3 v, sextet 2 v, sextet 1 v, CHR ''=''])"
| "EncodeToString (a # b # c # src) = (let v = group_bits a b c in [sextet 3 v, sextet 2 v, sextet 1 v, sextet 0 v] @ EncodeToString src)"

text \<open>\<open>rnd i\<close> is the byte that \<open>crand.Read\<close> stores at position \<open>i\<close>.\<close>

definition randstring :: "(nat \<Rightarrow> 8 word) \<Rightarrow> nat \<Rightarrow> string res" where
  "randstring rnd n =
     (let b = map rnd [0..<2 * n]; s = EncodeToString b
      in if n \<le> length s then Inr (take n s) else Inl IndexOutOfRange)"

section \<open>Seeds and random numbers\<close>

text \<open>
  \<open>crand.Int\<close> below \<open>2 ^ 62\<close>: eight bytes, of which the first loses its two upper bits, as a big-endian number.  A draw that is
  too large would be repeated; with this bound there is none.
\<close>

definition SetBytes :: "bytes \<Rightarrow> int" where
  "SetBytes bs = foldl (\<lambda>v b. 256 * v + uint b) 0 bs"

definition crand_Int62 :: "(nat \<Rightarrow> 8 word) \<Rightarrow> int" where
  "crand_Int62 rnd = SetBytes ((map rnd [0..<8])[0 := and (rnd 0) 63])"

definition makeSeed :: "(nat \<Rightarrow> 8 word) \<Rightarrow> int" where
  "makeSeed rnd = crand_Int62 rnd"

definition nrand :: "(nat \<Rightarrow> 8 word) \<Rightarrow> int" where
  "nrand rnd = crand_Int62 rnd"

lemma SetBytes_bounds:
  fixes b :: int
  assumes "0 \<le> v" "v < b"
  shows "0 \<le> foldl (\<lambda>v x. 256 * v + uint (x :: 8 word)) v bs \<and> foldl (\<lambda>v x. 256 * v + uint (x :: 8 word)) v bs < b * 256 ^ length bs"
  using assms
proof (induction bs arbitrary: v b)
  case (Cons x bs)
  have "0 \<le> uint x" "uint x < 256" using uint_lt2p [of x] by simp_all
  then show ?case using Cons.IH [of "256 * v + uint x" "256 * b"] Cons.prems by (simp add: mult.assoc mult.left_commute)
qed simp

lemma crand_Int62_bounds: "0 \<le> crand_Int62 rnd \<and> crand_Int62 rnd < 2 ^ 62"
proof -
  have m: "(63 :: 8 word) = mask 6" by (simp add: mask_eq_exp_minus_1)
  have "uint (and (rnd 0) 63) = take_bit 6 (uint (rnd 0))"
    unfolding m take_bit_eq_mask [symmetric] by (rule unsigned_take_bit_eq)
  then have "uint (and (rnd 0) 63) < 64" using take_bit_int_less_exp [of 6 "uint (rnd 0)"] by simp
  then show ?thesis
    using SetBytes_bounds [of "uint (and (rnd 0) 63)" 64 "map rnd [1..<8]"] by (simp add: crand_Int62_def SetBytes_def upt_rec)
qed

text \<open>So the seeds and the numbers that clerks draw are never negative and fit into an \<open>int64\<close>.\<close>

lemma seeds_fit: "0 \<le> makeSeed rnd \<and> makeSeed rnd < 2 ^ 63 \<and> 0 \<le> nrand rnd \<and> nrand rnd < 2 ^ 63"
  using crand_Int62_bounds [of rnd] by (simp add: makeSeed_def nrand_def)

section \<open>Lengths and characters\<close>

lemma length_url_alphabet [simp]: "length url_alphabet = 64"
  by (simp add: url_alphabet_def)

lemma distinct_url_alphabet: "distinct url_alphabet"
  by (simp add: url_alphabet_def)

lemma sextet_alphabet: "sextet k v \<in> set url_alphabet"
  by (simp add: sextet_def)

lemma sextet_eq_iff: "sextet k v = sextet k w \<longleftrightarrow> v div 64 ^ k mod 64 = w div 64 ^ k mod 64"
  by (simp add: sextet_def nth_eq_iff_index_eq [OF distinct_url_alphabet])

lemma length_EncodeToString: "length (EncodeToString src) = 4 * ((length src + 2) div 3)"
proof (induction src rule: EncodeToString.induct)
  case (4 a b c src)
  have "(length (a # b # c # src) + 2) div 3 = Suc ((length src + 2) div 3)" by simp
  then show ?case using 4 by (simp add: Let_def)
qed (simp_all add: Let_def)

lemma EncodeToString_append:
  "length xs mod 3 = 0 \<Longrightarrow> EncodeToString (xs @ ys) = EncodeToString xs @ EncodeToString ys"
proof (induction xs rule: EncodeToString.induct)
  case (4 a b c src)
  have "length src mod 3 = 0" using 4(2) by (simp add: mod_add_eq [of "length src" 3 3, symmetric])
  then show ?case using 4(1) by (simp add: Let_def)
qed simp_all

lemma EncodeToString_alphabet: "length xs mod 3 = 0 \<Longrightarrow> set (EncodeToString xs) \<subseteq> set url_alphabet"
proof (induction xs rule: EncodeToString.induct)
  case (4 a b c src)
  have "length src mod 3 = 0" using 4(2) by (simp add: mod_add_eq [of "length src" 3 3, symmetric])
  then show ?case using 4(1) by (simp add: Let_def sextet_alphabet)
qed simp_all

section \<open>Different bytes have different names\<close>

lemma sextet_sum:
  fixes v :: nat
  assumes "v < 2 ^ 24"
  shows "v = (\<Sum>k<4. 64 ^ k * (v div 64 ^ k mod 64))"
proof -
  define p q r where "p = v div 64" and "q = p div 64" and "r = q div 64"
  have "r < 64" using assms by (simp add: p_def q_def r_def less_mult_imp_div_less flip: div_mult2_eq)
  moreover have "v = v mod 64 + 64 * p" "p = p mod 64 + 64 * q" "q = q mod 64 + 64 * r" by (simp_all add: p_def q_def r_def)
  then have "v = v mod 64 + 64 * (p mod 64) + 4096 * (q mod 64) + 262144 * r" by linarith
  moreover have "v div 4096 = q" "v div 262144 = r" by (simp_all add: p_def q_def r_def flip: div_mult2_eq)
  moreover have "{..<4 :: nat} = {0, 1, 2, 3}" by auto
  ultimately show ?thesis by (simp add: p_def)
qed

lemma unat_byte: "unat (x :: 8 word) < 256"
  using unsigned_less [of x] by simp

lemma group_bits_less: "group_bits a b c < 2 ^ 24"
  using unat_byte [of a] unat_byte [of b] unat_byte [of c] by (simp add: group_bits_def)

lemma group_bits_bytes:
  "group_bits a b c mod 256 = unat c" "group_bits a b c div 256 mod 256 = unat b" "group_bits a b c div 256 div 256 = unat a"
proof -
  have g: "group_bits a b c = unat c + 256 * (unat b + 256 * unat a)" by (simp add: group_bits_def)
  note lt = unat_byte [of a] unat_byte [of b] unat_byte [of c]
  show "group_bits a b c mod 256 = unat c" unfolding g mod_mult_self2 using lt by simp
  have d: "group_bits a b c div 256 = unat b + 256 * unat a" unfolding g by (subst div_mult_self2) (use lt in simp_all)
  show "group_bits a b c div 256 mod 256 = unat b" unfolding d mod_mult_self2 using lt by simp
  show "group_bits a b c div 256 div 256 = unat a" unfolding d by (subst div_mult_self2) (use lt in simp_all)
qed

lemma group_bits_inject: "group_bits a b c = group_bits a' b' c' \<Longrightarrow> a = a' \<and> b = b' \<and> c = c'"
  using group_bits_bytes [of a b c] group_bits_bytes [of a' b' c'] by (simp add: word_unat_eq_iff)

lemma group_chars_inject:
  assumes "\<And>k. k < 4 \<Longrightarrow> sextet k (group_bits a b c) = sextet k (group_bits a' b' c')"
  shows "a = a' \<and> b = b' \<and> c = c'"
proof -
  let ?v = "group_bits a b c" and ?w = "group_bits a' b' c'"
  have "?v div 64 ^ k mod 64 = ?w div 64 ^ k mod 64" if "k < 4" for k using assms [OF that] by (simp add: sextet_eq_iff)
  then have "(\<Sum>k<4. 64 ^ k * (?v div 64 ^ k mod 64)) = (\<Sum>k<4. 64 ^ k * (?w div 64 ^ k mod 64))" by (intro sum.cong) auto
  then have "?v = ?w" using sextet_sum [OF group_bits_less] by metis
  then show ?thesis by (rule group_bits_inject)
qed

lemma EncodeToString_inject:
  "EncodeToString xs = EncodeToString ys \<Longrightarrow> length xs = length ys \<Longrightarrow> length xs mod 3 = 0 \<Longrightarrow> xs = ys"
proof (induction xs arbitrary: ys rule: EncodeToString.induct)
  case (4 a b c src)
  from 4(3) obtain a' b' c' src' where ys: "ys = a' # b' # c' # src'" by (metis length_Suc_conv length_Cons)
  let ?v = "group_bits a b c" and ?w = "group_bits a' b' c'"
  have m: "length src mod 3 = 0" using 4(4) by (simp add: mod_add_eq [of "length src" 3 3, symmetric])
  have s: "sextet 0 ?v = sextet 0 ?w" "sextet 1 ?v = sextet 1 ?w" "sextet 2 ?v = sextet 2 ?w" "sextet 3 ?v = sextet 3 ?w"
    "EncodeToString src = EncodeToString src'" using 4(2) ys by (simp_all add: Let_def)
  have "sextet k ?v = sextet k ?w" if "k < 4" for k
  proof -
    have "k \<in> {0, 1, 2, 3}" using that by auto
    then show ?thesis using s by auto
  qed
  then have "a = a' \<and> b = b' \<and> c = c'" by (rule group_chars_inject)
  then show ?case using 4(1) [OF _ s(5)] 4(3) m ys by simp
qed auto

text \<open>A name of \<open>4k\<close> characters encodes the first \<open>3k\<close> bytes; the other bytes are not used.\<close>

lemma randstring_prefix: "randstring rnd (4 * k) = Inr (EncodeToString (map rnd [0..<3 * k]))"
proof -
  have "[0..<2 * (4 * k)] = [0..<3 * k] @ [3 * k..<8 * k]" using upt_add_eq_append [of 0 "3 * k" "5 * k"] by simp
  then have e: "EncodeToString (map rnd [0..<2 * (4 * k)]) = EncodeToString (map rnd [0..<3 * k]) @ EncodeToString (map rnd [3 * k..<8 * k])"
    by (simp add: EncodeToString_append)
  have "(3 * k + 2) div 3 = k" by simp
  then have "length (EncodeToString (map rnd [0..<3 * k])) = 4 * k" by (simp only: length_EncodeToString length_map length_upt diff_zero)
  then show ?thesis unfolding randstring_def Let_def e by simp
qed

lemma randstring_length: "\<exists>s. randstring rnd n = Inr s \<and> length s = n"
proof -
  have "n \<le> 4 * ((2 * n + 2) div 3)" by presburger
  then show ?thesis by (simp add: randstring_def Let_def length_EncodeToString min_absorb2)
qed

text \<open>
  C29. The names the harnesses give to end-points: \<open>randstring(20)\<close> never fails and returns 20 characters that are letters,
  digits, \<open>-\<close> or \<open>_\<close> (no padding), and two draws give the same name exactly if their first 15 bytes agree.
\<close>

theorem randstring_names:
  "\<exists>s. randstring rnd 20 = Inr s \<and> length s = 20 \<and> set s \<subseteq> set url_alphabet \<and>
     (randstring rnd' 20 = Inr s \<longleftrightarrow> map rnd' [0..<15] = map rnd [0..<15])"
proof -
  have r: "randstring f 20 = Inr (EncodeToString (map f [0..<15]))" for f using randstring_prefix [of f 5] by simp
  have "EncodeToString (map rnd' [0..<15]) = EncodeToString (map rnd [0..<15]) \<longleftrightarrow> map rnd' [0..<15] = map rnd [0..<15]" (is "?E' = ?E \<longleftrightarrow> ?M' = ?M")
  proof
    assume "?E' = ?E"
    then show "?M' = ?M" by (rule EncodeToString_inject) simp_all
  qed (simp only:)
  moreover have "set (EncodeToString (map rnd [0..<15])) \<subseteq> set url_alphabet" by (rule EncodeToString_alphabet) simp
  ultimately show ?thesis unfolding r by (simp add: length_EncodeToString)
qed

end
