(* ===== verification/Labgob.thy ===== *)
theory Labgob
  imports Prelude
begin

text \<open>
  The checks that \<^verbatim>\<open>labgob/labgob.go\<close> makes around \<open>encoding/gob\<close>: lower-case field names, and decoding into
  variables that are not empty.

  Types form a graph, since Go types may be recursive: a type is its number in the table \<open>types\<close>, and a
  number outside the table is the nil type.  \<open>upper\<close> tells whether a field's name starts with an upper-case
  letter.  The package's state is the set of types it has checked, its error counter and what it has
  printed.
\<close>

section \<open>Types\<close>

datatype gotype =
    TStruct string "(string \<times> nat) list"
  | TSlice nat
  | TArray nat
  | TPtr nat
  | TMap nat nat
  | TOther

record lab_state =
  checked :: "nat set"
  errorCount :: int
  printed :: "string list"

definition lab_error :: "string \<Rightarrow> string \<Rightarrow> lab_state \<Rightarrow> lab_state" where
  "lab_error fname tname st =
     st\<lparr>errorCount := errorCount st + 1,
        printed := printed st @ [''labgob error: lower-case field '' @ fname @ '' of '' @ tname @ '' in RPC or persist/snapshot will break your Raft'']\<rparr>"

text \<open>
  \<open>checkType\<close>.  The first argument bounds the depth of the recursion; \<open>None\<close> means that it was not enough
  (see \<open>checkType_returns\<close>).
\<close>

fun checkType :: "nat \<Rightarrow> (string \<Rightarrow> bool) \<Rightarrow> gotype list \<Rightarrow> nat \<Rightarrow> lab_state \<Rightarrow> lab_state res option"
  and checkFields :: "nat \<Rightarrow> (string \<Rightarrow> bool) \<Rightarrow> gotype list \<Rightarrow> string \<Rightarrow> (string \<times> nat) list \<Rightarrow> lab_state \<Rightarrow> lab_state res option" where
  "checkType 0 upper types t st = None"
| "checkType (Suc d) upper types t st =
     (if \<not> t < length types then Some (Inl NilDeref)
      else if t \<in> checked st then Some (Inr st)
      else
        (let st1 = st\<lparr>checked := insert t (checked st)\<rparr> in
         case types ! t of
           TStruct tname fds \<Rightarrow> checkFields d upper types tname fds st1
         | TSlice e \<Rightarrow> checkType d upper types e st1
         | TArray e \<Rightarrow> checkType d upper types e st1
         | TPtr e \<Rightarrow> checkType d upper types e st1
         | TMap e k \<Rightarrow>
             (case checkType d upper types e st1 of
                Some (Inr st2) \<Rightarrow> checkType d upper types k st2
              | r \<Rightarrow> r)
         | TOther \<Rightarrow> Some (Inr st1)))"
| "checkFields d upper types tname [] st = Some (Inr st)"
| "checkFields d upper types tname ((fname, ft) # fs) st =
     (case checkType d upper types ft (if upper fname = False then lab_error fname tname st else st) of
        Some (Inr st1) \<Rightarrow> checkFields d upper types tname fs st1
      | r \<Rightarrow> r)"

section \<open>Values\<close>

text \<open>
  A value as \<open>reflect\<close> shows it.  A field has a name, may be embedded, and holds a value; a basic value is
  known by its type's name and whether it is zero.
\<close>

datatype goval =
    VStruct "(string \<times> bool \<times> goval) list"
  | VPtr "goval option"
  | VBasic string bool
  | VOther

definition default_warning :: "string \<Rightarrow> string \<Rightarrow> lab_state \<Rightarrow> lab_state" where
  "default_warning name tname st =
     (let st1 = (if errorCount st < 1 then
                   (let what = (if name = [] then tname else name)
                    in st\<lparr>printed := printed st @ [''labgob warning: Decoding into a non-default variable/field '' @ what @ '' may not work'']\<rparr>)
                 else st)
      in st1\<lparr>errorCount := errorCount st1 + 1\<rparr>)"

text \<open>
  A \<open>reflect.Value\<close> remembers how it was obtained: \<open>sticky\<close> through an unexported field, \<open>embro\<close> through an
  unexported embedded field.  A field of a field inherits \<open>sticky\<close> only, what a pointer points to inherits
  both, and \<open>Interface\<close> of a value with either flag panics.  \<open>upper\<close> decides what is exported.
\<close>

definition ro_panic :: gofault where
  "ro_panic = Panic ''reflect.Value.Interface: cannot return value obtained from unexported field or method''"

fun checkDefault1 :: "(string \<Rightarrow> bool) \<Rightarrow> goval \<Rightarrow> bool \<Rightarrow> bool \<Rightarrow> int \<Rightarrow> string \<Rightarrow> lab_state \<Rightarrow> lab_state res"
  and checkDefaults :: "(string \<Rightarrow> bool) \<Rightarrow> (string \<times> bool \<times> goval) list \<Rightarrow> bool \<Rightarrow> int \<Rightarrow> string \<Rightarrow> lab_state \<Rightarrow> lab_state res" where
  "checkDefault1 upper (VStruct fds) sticky embro depth name st =
     (if depth > 3 then Inr st else checkDefaults upper fds sticky depth name st)"
| "checkDefault1 upper (VPtr p) sticky embro depth name st =
     (if depth > 3 then Inr st
      else case p of None \<Rightarrow> Inr st | Some v \<Rightarrow> checkDefault1 upper v sticky embro (depth + 1) name st)"
| "checkDefault1 upper (VBasic tname zero) sticky embro depth name st =
     (if depth > 3 then Inr st
      else if sticky \<or> embro then Inl ro_panic
      else if zero = False then Inr (default_warning name tname st) else Inr st)"
| "checkDefault1 upper VOther sticky embro depth name st = Inr st"
| "checkDefaults upper [] sticky depth name st = Inr st"
| "checkDefaults upper ((fname, embedded, vv) # fs) sticky depth name st =
     (let name1 = (if name \<noteq> [] then name @ ''.'' @ fname else fname)
      in rbind (checkDefault1 upper vv (sticky \<or> \<not> upper fname \<and> \<not> embedded) (\<not> upper fname \<and> embedded) (depth + 1) name1 st)
           (checkDefaults upper fs sticky depth name))"

text \<open>\<open>checkDefault\<close> of a nil interface does nothing.\<close>

definition checkDefault :: "(string \<Rightarrow> bool) \<Rightarrow> goval option \<Rightarrow> lab_state \<Rightarrow> lab_state res" where
  "checkDefault upper v st = (case v of None \<Rightarrow> Inr st | Some x \<Rightarrow> checkDefault1 upper x False False 1 [] st)"

text \<open>
  The entry points: a value has a type \<open>t\<close>; \<open>gob\<close> stands for what \<open>encoding/gob\<close> does afterwards to the
  encoder or decoder, or to its table of registered types.
\<close>

definition checkValue :: "(string \<Rightarrow> bool) \<Rightarrow> gotype list \<Rightarrow> nat \<Rightarrow> lab_state \<Rightarrow> lab_state res option" where
  "checkValue upper types t st = checkType (Suc (length types)) upper types t st"

definition lab_Encode :: "(string \<Rightarrow> bool) \<Rightarrow> gotype list \<Rightarrow> nat \<Rightarrow> ('s \<Rightarrow> 's \<times> 'e) \<Rightarrow> 's \<Rightarrow> lab_state \<Rightarrow> (lab_state \<times> 's \<times> 'e) res option" where
  "lab_Encode upper types t gob s st =
     map_option (\<lambda>r. rbind r (\<lambda>st1. Inr (st1, gob s))) (checkValue upper types t st)"

definition lab_Decode :: "(string \<Rightarrow> bool) \<Rightarrow> gotype list \<Rightarrow> nat \<Rightarrow> goval option \<Rightarrow> ('s \<Rightarrow> 's \<times> 'e) \<Rightarrow> 's \<Rightarrow> lab_state \<Rightarrow> (lab_state \<times> 's \<times> 'e) res option" where
  "lab_Decode upper types t v gob s st =
     map_option (\<lambda>r. rbind r (\<lambda>st1. rbind (checkDefault upper v st1) (\<lambda>st2. Inr (st2, gob s)))) (checkValue upper types t st)"

definition Register :: "(string \<Rightarrow> bool) \<Rightarrow> gotype list \<Rightarrow> nat \<Rightarrow> ('s \<Rightarrow> 's) \<Rightarrow> 's \<Rightarrow> lab_state \<Rightarrow> (lab_state \<times> 's) res option" where
  "Register upper types t gob s st =
     map_option (\<lambda>r. rbind r (\<lambda>st1. Inr (st1, gob s))) (checkValue upper types t st)"

section \<open>What \<open>checkType\<close> visits\<close>

definition succs :: "gotype list \<Rightarrow> nat \<Rightarrow> nat set" where
  "succs types t = (case types ! t of
     TStruct _ fds \<Rightarrow> snd ` set fds | TSlice e \<Rightarrow> {e} | TArray e \<Rightarrow> {e} | TPtr e \<Rightarrow> {e} | TMap e k \<Rightarrow> {e, k} | TOther \<Rightarrow> {})"

definition lower_fields :: "(string \<Rightarrow> bool) \<Rightarrow> gotype list \<Rightarrow> nat \<Rightarrow> int" where
  "lower_fields upper types t = (case types ! t of
     TStruct _ fds \<Rightarrow> int (length (filter (\<lambda>f. \<not> upper (fst f)) fds)) | _ \<Rightarrow> 0)"

text \<open>The types a type is made of.\<close>

inductive component_of :: "gotype list \<Rightarrow> nat \<Rightarrow> nat \<Rightarrow> bool" for types where
  self: "component_of types t t"
| step: "component_of types t u \<Longrightarrow> v \<in> succs types u \<Longrightarrow> component_of types t v"

inductive_cases component_of_cases: "component_of types t v"

definition types_ok :: "gotype list \<Rightarrow> bool" where
  "types_ok types \<longleftrightarrow> list_all (\<lambda>t. list_all (\<lambda>u. u < length types) (case t of
     TStruct _ fds \<Rightarrow> map snd fds | TSlice e \<Rightarrow> [e] | TArray e \<Rightarrow> [e] | TPtr e \<Rightarrow> [e] | TMap e k \<Rightarrow> [e, k] | TOther \<Rightarrow> [])) types"

lemma types_ok_succs: "types_ok types \<Longrightarrow> t < length types \<Longrightarrow> u \<in> succs types t \<Longrightarrow> u < length types"
proof -
  assume ok: "types_ok types" and t: "t < length types" and u: "u \<in> succs types t"
  have "list_all (\<lambda>u. u < length types) (case types ! t of
     TStruct _ fds \<Rightarrow> map snd fds | TSlice e \<Rightarrow> [e] | TArray e \<Rightarrow> [e] | TPtr e \<Rightarrow> [e] | TMap e k \<Rightarrow> [e, k] | TOther \<Rightarrow> [])"
    using ok t unfolding types_ok_def list_all_length by blast
  then show ?thesis using u by (cases "types ! t") (auto simp: succs_def list_all_iff)
qed

lemma component_trans: "component_of types u v \<Longrightarrow> component_of types t u \<Longrightarrow> component_of types t v"
proof -
  assume "component_of types u v" and "component_of types t u"
  then show ?thesis by (induction rule: component_of.induct) (auto intro: component_of.intros)
qed

text \<open>
  \<open>visits\<close>: the types \<open>ts\<close> and some of their components are now checked, each new one together with its
  parts, and \<open>extra\<close> errors were counted besides those of the new types.
\<close>

definition visits :: "(string \<Rightarrow> bool) \<Rightarrow> gotype list \<Rightarrow> nat set \<Rightarrow> int \<Rightarrow> lab_state \<Rightarrow> lab_state \<Rightarrow> bool" where
  "visits upper types ts extra st st' \<longleftrightarrow>
     checked st \<subseteq> checked st' \<and> ts \<subseteq> checked st' \<and> checked st' \<subseteq> checked st \<union> {u. \<exists>t\<in>ts. component_of types t u} \<and>
     (\<forall>u\<in>checked st' - checked st. succs types u \<subseteq> checked st') \<and> checked st' - checked st \<subseteq> {..<length types} \<and>
     errorCount st' = errorCount st + extra + sum (lower_fields upper types) (checked st' - checked st)"


lemma visits_refl: "t \<in> checked st \<Longrightarrow> visits upper types {t} 0 st st" "visits upper types {} 0 st st"
  by (auto simp: visits_def intro: component_of.intros)

lemma visits_mono: "visits upper types ts x st st' \<Longrightarrow> checked st \<subseteq> checked st'"
  by (simp add: visits_def)

lemma visits_error:
  "visits upper types ts x (lab_error f n st) st' \<Longrightarrow> visits upper types ts (x + 1) st st'"
  by (auto simp: visits_def lab_error_def)

lemma visits_seq:
  assumes a: "visits upper types ts x st st1" and b: "visits upper types ts' x' st1 st2"
  shows "visits upper types (ts \<union> ts') (x + x') st st2"
proof -
  let ?A = "checked st1 - checked st" and ?B = "checked st2 - checked st1"
  have d: "checked st2 - checked st = ?A \<union> ?B" "?A \<inter> ?B = {}" using a b by (auto simp: visits_def)
  have "finite ?A" "finite ?B" using a b finite_subset [OF _ finite_lessThan] by (auto simp: visits_def)
  then have "sum (lower_fields upper types) (checked st2 - checked st) = sum (lower_fields upper types) ?A + sum (lower_fields upper types) ?B"
    unfolding d(1) using d(2) by (rule sum.union_disjoint)
  moreover have "\<forall>u\<in>checked st2 - checked st. succs types u \<subseteq> checked st2"
    unfolding d(1) using a b unfolding visits_def by blast
  moreover have "checked st2 \<subseteq> checked st \<union> {u. \<exists>t\<in>ts \<union> ts'. component_of types t u}" using a b unfolding visits_def by blast
  ultimately show ?thesis using a b d(1) unfolding visits_def by auto
qed

lemma visits_enter:
  assumes t: "t \<notin> checked st" "t < length types" and v: "visits upper types (succs types t) (lower_fields upper types t) (st\<lparr>checked := insert t (checked st)\<rparr>) st'"
  shows "visits upper types {t} 0 st st'"
proof -
  let ?C = "checked st'" and ?D = "checked st' - insert t (checked st)"
  from v have v': "insert t (checked st) \<subseteq> ?C" "succs types t \<subseteq> ?C" "?C \<subseteq> insert t (checked st) \<union> {u. \<exists>s\<in>succs types t. component_of types s u}"
    "\<forall>u\<in>?D. succs types u \<subseteq> ?C" "?D \<subseteq> {..<length types}" "errorCount st' = errorCount st + lower_fields upper types t + sum (lower_fields upper types) ?D"
    by (simp_all add: visits_def)
  have d: "?C - checked st = insert t ?D" using v'(1) t(1) by auto
  have "finite ?D" using v'(5) finite_subset [OF _ finite_lessThan] by blast
  then have "sum (lower_fields upper types) (?C - checked st) = lower_fields upper types t + sum (lower_fields upper types) ?D"
    unfolding d by (subst sum.insert) auto
  moreover have "component_of types t u" if "s \<in> succs types t" "component_of types s u" for s u
    using component_trans [OF that(2)] that(1) component_of.step [OF component_of.self] by blast
  then have "?C \<subseteq> checked st \<union> {u. component_of types t u}" using v'(3) component_of.self by blast
  ultimately show ?thesis using v' t(2) unfolding visits_def d by auto
qed

lemma checkType_visits:
  "checkType d upper types t st = Some (Inr st') \<Longrightarrow> visits upper types {t} 0 st st'"
  "checkFields d upper types n fs st = Some (Inr st') \<Longrightarrow>
     visits upper types (snd ` set fs) (int (length (filter (\<lambda>f. \<not> upper (fst f)) fs))) st st'"
proof (induction d upper types t st and d upper types n fs st arbitrary: st' and st' rule: checkType_checkFields.induct)
  case (2 d upper types t st)
  then have t: "t < length types" by (auto split: if_splits)
  show ?case
  proof (cases "t \<in> checked st")
    case True
    then show ?thesis using 2(7) t visits_refl by auto
  next
    case False
    let ?st1 = "st\<lparr>checked := insert t (checked st)\<rparr>"
    have "visits upper types (succs types t) (lower_fields upper types t) ?st1 st'"
    proof (cases "types ! t")
      case (TStruct n fs)
      then show ?thesis using 2(1) [OF _ False refl] 2(7) t False by (simp add: succs_def lower_fields_def)
    next
      case (TSlice e)
      then show ?thesis using 2(2) [OF _ False refl] 2(7) t False by (simp add: succs_def lower_fields_def)
    next
      case (TArray e)
      then show ?thesis using 2(3) [OF _ False refl] 2(7) t False by (simp add: succs_def lower_fields_def)
    next
      case (TPtr e)
      then show ?thesis using 2(4) [OF _ False refl] 2(7) t False by (simp add: succs_def lower_fields_def)
    next
      case (TMap e k)
      then obtain st2 where st2: "checkType d upper types e ?st1 = Some (Inr st2)" "checkType d upper types k st2 = Some (Inr st')"
        using 2(7) t False by (auto split: option.splits sum.splits)
      have "visits upper types {e} 0 ?st1 st2" using 2(5) [OF _ False refl TMap] st2(1) t by simp
      moreover have "visits upper types {k} 0 st2 st'" using 2(6) [OF _ False refl TMap st2(1) refl] st2(2) t by simp
      ultimately have "visits upper types ({e} \<union> {k}) (0 + 0) ?st1 st'" by (rule visits_seq)
      then show ?thesis using TMap by (simp add: succs_def lower_fields_def insert_commute)
    next
      case TOther
      then show ?thesis using 2(7) t False visits_refl(2) by (simp add: succs_def lower_fields_def)
    qed
    then show ?thesis by (rule visits_enter [OF False t])
  qed
next
  case (4 d upper types n fname ft fs st)
  let ?st = "if upper fname = False then lab_error fname n st else st"
  obtain st1 where st1: "checkType d upper types ft ?st = Some (Inr st1)" "checkFields d upper types n fs st1 = Some (Inr st')"
    using 4(3) by (auto split: option.splits sum.splits)
  have "visits upper types {ft} 0 ?st st1" using 4(1) st1(1) by blast
  then have "visits upper types {ft} (if upper fname then 0 else 1) st st1" using visits_error [of upper types "{ft}" 0] by (auto split: if_splits)
  from visits_seq [OF this 4(2) [OF st1(1) refl st1(2)]] show ?case by (simp split: if_splits)
qed (auto intro: visits_refl)

text \<open>Enough depth: every level enters a type that was not checked before.\<close>

lemma unchecked_less:
  fixes types :: "gotype list"
  assumes "t \<notin> checked st" "t < length types" "card ({..<length types} - checked st) < Suc d"
  shows "card ({..<length types} - checked (st\<lparr>checked := insert t (checked st)\<rparr>)) < d"
proof -
  have "{..<length types} - checked (st\<lparr>checked := insert t (checked st)\<rparr>) = ({..<length types} - checked st) - {t}" by auto
  moreover have "card (({..<length types} - checked st) - {t}) < card ({..<length types} - checked st)"
    using assms(1,2) by (intro card_Diff1_less) auto
  ultimately show ?thesis using assms(3) by simp
qed

lemma visits_unchecked:
  fixes types :: "gotype list"
  assumes "visits upper types ts x st st'" "card ({..<length types} - checked st) < d"
  shows "card ({..<length types} - checked st') < d"
proof -
  have "card ({..<length types} - checked st') \<le> card ({..<length types} - checked st)"
    using visits_mono [OF assms(1)] by (intro card_mono) auto
  then show ?thesis using assms(2) by simp
qed

lemma checkType_returns:
  "types_ok types \<Longrightarrow> t < length types \<Longrightarrow> card ({..<length types} - checked st) < d \<Longrightarrow>
     \<exists>st'. checkType d upper types t st = Some (Inr st')"
  "types_ok types \<Longrightarrow> snd ` set fs \<subseteq> {..<length types} \<Longrightarrow> card ({..<length types} - checked st) < d \<Longrightarrow>
     \<exists>st'. checkFields d upper types n fs st = Some (Inr st')"
proof (induction d upper types t st and d upper types n fs st rule: checkType_checkFields.induct)
  case (2 d upper types t st)
  show ?case
  proof (cases "t \<in> checked st")
    case True
    then show ?thesis using 2(8) by simp
  next
    case False
    let ?st1 = "st\<lparr>checked := insert t (checked st)\<rparr>"
    have t: "\<not> \<not> t < length types" using 2(8) by simp
    note less = unchecked_less [OF False 2(8,9)]
    have sub: "succs types t \<subseteq> {..<length types}" using types_ok_succs [OF 2(7,8)] by auto
    show ?thesis
    proof (cases "types ! t")
      case (TStruct n fs)
      then show ?thesis using 2(1) [OF t False refl TStruct 2(7) _ less] sub t False by (simp add: succs_def)
    next
      case (TSlice e)
      then show ?thesis using 2(2) [OF t False refl TSlice 2(7) _ less] sub t False by (simp add: succs_def)
    next
      case (TArray e)
      then show ?thesis using 2(3) [OF t False refl TArray 2(7) _ less] sub t False by (simp add: succs_def)
    next
      case (TPtr e)
      then show ?thesis using 2(4) [OF t False refl TPtr 2(7) _ less] sub t False by (simp add: succs_def)
    next
      case (TMap e k)
      then obtain st2 where st2: "checkType d upper types e ?st1 = Some (Inr st2)"
        using 2(5) [OF t False refl TMap 2(7) _ less] sub by (auto simp: succs_def)
      moreover have "\<exists>st'. checkType d upper types k st2 = Some (Inr st')"
        using 2(6) [OF t False refl TMap st2 refl 2(7) _ visits_unchecked [OF checkType_visits(1) [OF st2] less]] TMap sub
        by (simp add: succs_def)
      ultimately show ?thesis using TMap t False by auto
    next
      case TOther
      then show ?thesis using t False by simp
    qed
  qed
next
  case (4 d upper types n fname ft fs st)
  let ?st = "if upper fname = False then lab_error fname n st else st"
  have c: "card ({..<length types} - checked ?st) < d" using 4(5) by (simp add: lab_error_def)
  then obtain st1 where st1: "checkType d upper types ft ?st = Some (Inr st1)" using 4(1) [OF 4(3)] 4(4) by auto
  then show ?case using 4(2) [OF st1 refl 4(3) _ visits_unchecked [OF checkType_visits(1) [OF st1] c]] 4(4) by auto
qed auto

section \<open>What the checks promise\<close>

text \<open>The package's invariant: a checked type is in the table and so are, checked, the types it is made of.\<close>

definition checked_ok :: "gotype list \<Rightarrow> lab_state \<Rightarrow> bool" where
  "checked_ok types st \<longleftrightarrow> checked st \<subseteq> {..<length types} \<and> (\<forall>u\<in>checked st. succs types u \<subseteq> checked st)"

lemma components_closed: "component_of types t u \<Longrightarrow> t \<in> C \<Longrightarrow> \<forall>v\<in>C. succs types v \<subseteq> C \<Longrightarrow> u \<in> C"
  by (induction rule: component_of.induct) auto

lemma visits_closed:
  assumes v: "visits upper types {t} x st st'" and ok: "checked_ok types st"
  shows "checked_ok types st'" "checked st' = checked st \<union> {u. component_of types t u}"
proof -
  have sub: "checked st \<subseteq> checked st'" "t \<in> checked st'" "checked st' \<subseteq> checked st \<union> {u. component_of types t u}"
    "checked st' - checked st \<subseteq> {..<length types}" using v by (simp_all add: visits_def)
  have new: "succs types u \<subseteq> checked st'" if "u \<in> checked st' - checked st" for u using v that by (simp add: visits_def)
  have old: "succs types u \<subseteq> checked st" if "u \<in> checked st" for u using ok that by (simp add: checked_ok_def)
  have c: "\<forall>u\<in>checked st'. succs types u \<subseteq> checked st'" using new old sub(1) by blast
  have "checked st \<subseteq> {..<length types}" using ok by (simp add: checked_ok_def)
  then show "checked_ok types st'" using c sub(1,4) unfolding checked_ok_def by blast
  have "u \<in> checked st'" if "component_of types t u" for u
    using that sub(2) c by (rule components_closed)
  then show "checked st' = checked st \<union> {u. component_of types t u}" using sub(1,3) by blast
qed

text \<open>
  C38: checking a type returns, whatever cycles the types have; it marks exactly the type's components,
  counts one error for each lower-case field of the components that were not marked before, keeps the
  invariant, and a second check of the type does nothing.
\<close>

theorem checkValue_complete:
  assumes "types_ok types" "t < length types" "checked_ok types st"
  shows "\<exists>st'. checkValue upper types t st = Some (Inr st') \<and>
     checked st' = checked st \<union> {u. component_of types t u} \<and>
     errorCount st' = errorCount st + sum (lower_fields upper types) ({u. component_of types t u} - checked st) \<and>
     checked_ok types st' \<and> checkValue upper types t st' = Some (Inr st')"
proof -
  have "card ({..<length types} - checked st) \<le> card {..<length types}" by (intro card_mono) auto
  then have "card ({..<length types} - checked st) < Suc (length types)" by simp
  then obtain st' where st': "checkType (Suc (length types)) upper types t st = Some (Inr st')"
    using checkType_returns(1) [OF assms(1,2)] by blast
  then have v: "visits upper types {t} 0 st st'" by (rule checkType_visits)
  note c = visits_closed [OF v assms(3)]
  have t: "t \<in> checked st'" using v by (simp add: visits_def)
  have "errorCount st' = errorCount st + sum (lower_fields upper types) ({u. component_of types t u} - checked st)"
    using v unfolding visits_def c(2) by (simp add: Un_Diff)
  then show ?thesis using st' c t assms(2) unfolding checkValue_def by (intro exI [of _ st']) simp
qed

text \<open>The types of \<open>TestCapital\<close>: \<open>[]map[*T4]int\<close>, with \<open>T4\<close> a struct of \<open>Yes\<close> and \<open>no\<close>; and a recursive list type.\<close>

definition sample_types :: "gotype list" where
  "sample_types = [TSlice 1, TMap 3 2, TPtr 4, TOther, TStruct ''T4'' [(''Yes'', 3), (''no'', 3)],
     TStruct ''List'' [(''Head'', 3), (''tail'', 6)], TPtr 5]"

definition is_upper :: "string \<Rightarrow> bool" where
  "is_upper s = (case s of [] \<Rightarrow> False | c # _ \<Rightarrow> c \<in> set ''ABCDEFGHIJKLMNOPQRSTUVWXYZ'')"

definition fresh_state :: lab_state where
  "fresh_state = \<lparr>checked = {}, errorCount = 0, printed = []\<rparr>"

theorem checkValue_complete_witness:
  "\<exists>st'. checkValue is_upper sample_types 0 fresh_state = Some (Inr st') \<and>
     checked st' = {u. component_of sample_types 0 u} \<and>
     errorCount st' = sum (lower_fields is_upper sample_types) {u. component_of sample_types 0 u} \<and>
     checked_ok sample_types st' \<and> checkValue is_upper sample_types 0 st' = Some (Inr st')"
  using checkValue_complete [of sample_types 0 fresh_state is_upper]
  by (simp add: types_ok_def sample_types_def checked_ok_def fresh_state_def)

section \<open>Decoding into variables that are not empty\<close>

text \<open>
  A path leads from a variable to a value inside it, through fields of structs, by their position, and through pointers.
\<close>

datatype path_step = Fld nat | Deref

fun at_path :: "goval \<Rightarrow> path_step list \<Rightarrow> goval option" where
  "at_path v [] = Some v"
| "at_path (VStruct fds) (Fld i # p) = (if i < length fds then at_path (snd (snd (fds ! i))) p else None)"
| "at_path (VPtr (Some v)) (Deref # p) = at_path v p"
| "at_path _ _ = None"

text \<open>The fields on a path: their names, and whether they are embedded.\<close>

fun fields_on :: "goval \<Rightarrow> path_step list \<Rightarrow> (string \<times> bool) list" where
  "fields_on (VStruct fds) (Fld i # p) = (if i < length fds then (fst (fds ! i), fst (snd (fds ! i))) # fields_on (snd (snd (fds ! i))) p else [])"
| "fields_on (VPtr (Some v)) (Deref # p) = fields_on v p"
| "fields_on _ _ = []"

text \<open>The basic values on the first three levels of a variable; the variable itself is the first.\<close>

definition basic_paths :: "goval \<Rightarrow> path_step list set" where
  "basic_paths v = {p. length p < 3 \<and> (\<exists>tname zero. at_path v p = Some (VBasic tname zero))}"

definition nonzero_at :: "goval \<Rightarrow> path_step list \<Rightarrow> bool" where
  "nonzero_at v p \<longleftrightarrow> (\<exists>tname. at_path v p = Some (VBasic tname False))"

text \<open>
  A value may not be read with \<open>Interface\<close> if a field on its path is unexported and not embedded, or if the last field is unexported.  So an
  exported field of an unexported embedded struct may be read.
\<close>

definition read_only :: "(string \<Rightarrow> bool) \<Rightarrow> goval \<Rightarrow> path_step list \<Rightarrow> bool" where
  "read_only upper v p \<longleftrightarrow>
     (\<exists>fd\<in>set (fields_on v p). \<not> upper (fst fd) \<and> \<not> snd fd) \<or> fields_on v p \<noteq> [] \<and> \<not> upper (fst (last (fields_on v p)))"

definition path_name :: "string \<Rightarrow> (string \<times> bool) list \<Rightarrow> string" where
  "path_name name fds = foldl (\<lambda>nm fd. if nm \<noteq> [] then nm @ ''.'' @ fst fd else fst fd) name fds"

definition warned_as :: "goval \<Rightarrow> path_step list \<Rightarrow> string" where
  "warned_as v p = (case at_path v p of
     Some (VBasic tname zero) \<Rightarrow> (if path_name [] (fields_on v p) = [] then tname else path_name [] (fields_on v p)) | _ \<Rightarrow> [])"

text \<open>The order in which the fields of structs are visited.\<close>

definition path_less :: "path_step list \<Rightarrow> path_step list \<Rightarrow> bool" where
  "path_less p q \<longleftrightarrow> (\<exists>r i j p' q'. p = r @ Fld i # p' \<and> q = r @ Fld j # q' \<and> i < j)"

text \<open>All paths to basic values on \<open>n\<close> levels, in that order.\<close>

fun paths :: "nat \<Rightarrow> goval \<Rightarrow> path_step list list" where
  "paths 0 v = []"
| "paths (Suc n) (VStruct fds) = concat (map (\<lambda>i. map ((#) (Fld i)) (paths n (snd (snd (fds ! i))))) [0..<length fds])"
| "paths (Suc n) (VPtr None) = []"
| "paths (Suc n) (VPtr (Some v)) = map ((#) Deref) (paths n v)"
| "paths (Suc n) (VBasic tname zero) = [[]]"
| "paths (Suc n) VOther = []"

lemma set_paths: "set (paths n v) = {p. length p < n \<and> (\<exists>tname zero. at_path v p = Some (VBasic tname zero))}"
proof (induction n v rule: paths.induct)
  case (2 n fds)
  show ?case
  proof (intro set_eqI)
    fix p
    show "p \<in> set (paths (Suc n) (VStruct fds)) \<longleftrightarrow>
        p \<in> {p. length p < Suc n \<and> (\<exists>tname zero. at_path (VStruct fds) p = Some (VBasic tname zero))}"
      using 2 by (cases "(VStruct fds, p)" rule: at_path.cases) (auto simp: image_iff)
  qed
next
  case (4 n v)
  show ?case
  proof (intro set_eqI)
    fix p
    show "p \<in> set (paths (Suc n) (VPtr (Some v))) \<longleftrightarrow>
        p \<in> {p. length p < Suc n \<and> (\<exists>tname zero. at_path (VPtr (Some v)) p = Some (VBasic tname zero))}"
      using 4 by (cases "(VPtr (Some v), p)" rule: at_path.cases) auto
  qed
next
  case (5 n tname zero)
  have "at_path (VBasic tname zero) p = Some x \<longleftrightarrow> p = [] \<and> x = VBasic tname zero" for p x by (cases p) auto
  then show ?case by auto
next
  case (3 n)
  have "at_path (VPtr None) p = Some x \<longleftrightarrow> p = [] \<and> x = VPtr None" for p x by (cases p) auto
  then show ?case by auto
next
  case (6 n)
  have "at_path VOther p = Some x \<longleftrightarrow> p = [] \<and> x = VOther" for p x by (cases p) auto
  then show ?case by auto
qed simp

lemma path_less_Cons: "path_less p q \<Longrightarrow> path_less (x # p) (x # q)"
  unfolding path_less_def by (metis append_Cons)

lemma path_less_field: "i < j \<Longrightarrow> path_less (Fld i # p) (Fld j # q)"
  unfolding path_less_def by (metis append_Nil)

lemma path_less_irrefl: "\<not> path_less p p"
  by (auto simp: path_less_def)

lemma sorted_concat:
  assumes "\<And>i. i \<in> set is \<Longrightarrow> sorted_wrt R (f i)" and "sorted_wrt (\<lambda>i j. \<forall>x\<in>set (f i). \<forall>y\<in>set (f j). R x y) is"
  shows "sorted_wrt R (concat (map f is))"
  using assms by (induction "is") (auto simp: sorted_wrt_append)

lemma sorted_paths: "sorted_wrt path_less (paths n v)"
proof (induction n v rule: paths.induct)
  case (2 n fds)
  have "sorted_wrt path_less (map ((#) (Fld i)) (paths n (snd (snd (fds ! i)))))" if "i \<in> set [0..<length fds]" for i
    using 2 [OF that] by (auto simp: sorted_wrt_map intro: sorted_wrt_mono_rel path_less_Cons)
  moreover have "sorted_wrt (\<lambda>i j. \<forall>x\<in>set (map ((#) (Fld i)) (paths n (snd (snd (fds ! i))))). \<forall>y\<in>set (map ((#) (Fld j)) (paths n (snd (snd (fds ! j))))). path_less x y)
      [0..<length fds]"
    by (rule sorted_wrt_mono_rel [OF _ sorted_wrt_upt]) (auto intro: path_less_field)
  ultimately show ?case unfolding paths.simps by (rule sorted_concat)
next
  case (4 n v)
  then show ?case by (auto simp: sorted_wrt_map intro: sorted_wrt_mono_rel path_less_Cons)
qed simp_all

lemma distinct_paths: "distinct (paths n v)"
  using sorted_paths [of n v] by (induction "paths n v" arbitrary: n v) (auto simp: distinct_conv_nth sorted_wrt_iff_nth_less, metis nat_neq_iff path_less_irrefl)


section \<open>What checkDefault does\<close>

text \<open>
  What the visit of the value at a path finds: how a warning would name it, whether it may not be read, and whether it is zero.
  The value \<open>v\<close> itself is called \<open>name\<close> and was obtained with the flags \<open>sticky\<close> and \<open>embro\<close>.
\<close>

definition visit :: "(string \<Rightarrow> bool) \<Rightarrow> goval \<Rightarrow> bool \<Rightarrow> bool \<Rightarrow> string \<Rightarrow> path_step list \<Rightarrow> string \<times> bool \<times> bool" where
  "visit upper v sticky embro name p =
     (let fs = fields_on v p; nm = path_name name fs in
      (case at_path v p of Some (VBasic tname zero) \<Rightarrow> (if nm = [] then tname else nm) | _ \<Rightarrow> [],
       sticky \<or> (\<exists>fd\<in>set fs. \<not> upper (fst fd) \<and> \<not> snd fd) \<or> (if fs = [] then embro else \<not> upper (fst (last fs))),
       \<not> nonzero_at v p))"

lemma path_name_Cons: "path_name name ((f, e) # fs) = path_name (if name \<noteq> [] then name @ ''.'' @ f else f) fs"
  by (simp add: path_name_def)

lemma visit_field:
  assumes "i < length fds" "fds ! i = (f, e, w)"
  shows "visit upper (VStruct fds) sticky embro name (Fld i # p) =
     visit upper w (sticky \<or> \<not> upper f \<and> \<not> e) (\<not> upper f \<and> e) (if name \<noteq> [] then name @ ''.'' @ f else f) p"
  using assms by (auto simp: visit_def Let_def path_name_Cons nonzero_at_def split: option.splits goval.splits)

lemma visit_deref: "visit upper (VPtr (Some v)) sticky embro name (Deref # p) = visit upper v sticky embro name p"
  by (simp add: visit_def nonzero_at_def)

definition warning_of :: "string \<times> bool \<times> bool \<Rightarrow> string" where
  "warning_of x = ''labgob warning: Decoding into a non-default variable/field '' @ fst x @ '' may not work''"

definition warn_all :: "(string \<times> bool \<times> bool) list \<Rightarrow> lab_state \<Rightarrow> lab_state res" where
  "warn_all xs st =
     (if \<exists>x\<in>set xs. fst (snd x) then Inl ro_panic
      else let bad = filter (\<lambda>x. \<not> snd (snd x)) xs
           in Inr (st\<lparr>errorCount := errorCount st + int (length bad),
                      printed := printed st @ take (nat (1 - errorCount st)) (map warning_of bad)\<rparr>))"

lemma warn_all_Nil [simp]: "warn_all [] st = Inr st"
  by (simp add: warn_all_def)

lemma warn_all_append: "warn_all (xs @ ys) st = rbind (warn_all xs st) (warn_all ys)"
proof -
  let ?n = "length (filter (\<lambda>x. \<not> snd (snd x)) xs)"
  have "nat (1 - errorCount st) - ?n = nat (1 - (errorCount st + int ?n))" by simp
  then show ?thesis by (auto simp: warn_all_def Let_def)
qed

lemma warn_all_single:
  "warn_all [(what, ro, zero)] st =
     (if ro then Inl ro_panic
      else if zero then Inr st
      else Inr (st\<lparr>errorCount := errorCount st + 1,
                   printed := printed st @ (if errorCount st < 1 then [warning_of (what, ro, zero)] else [])\<rparr>))"
  by (simp add: warn_all_def)

lemma checkDefaults_warns:
  assumes "\<And>f e w st. (f, e, w) \<in> set fds \<Longrightarrow>
     checkDefault1 upper w (sticky \<or> \<not> upper f \<and> \<not> e) (\<not> upper f \<and> e) (depth + 1) (if name \<noteq> [] then name @ ''.'' @ f else f) st = warn_all (xs (f, e, w)) st"
  shows "checkDefaults upper fds sticky depth name st = warn_all (concat (map xs fds)) st"
  using assms
proof (induction fds arbitrary: st)
  case (Cons fd fds)
  obtain f e w where fd: "fd = (f, e, w)" by (cases fd)
  have "checkDefaults upper fds sticky depth name = warn_all (concat (map xs fds))"
    by (rule ext) (rule Cons.IH, rule Cons.prems, simp)
  then show ?case using Cons.prems [of f e w]
    by (simp only: fd checkDefaults.simps Let_def list.map concat.simps warn_all_append list.set insertI1)
qed simp

lemma checkDefault1_warns:
  "checkDefault1 upper v sticky embro (4 - int n) name st = warn_all (map (visit upper v sticky embro name) (paths n v)) st"
proof (induction n v arbitrary: sticky embro name st rule: paths.induct)
  case (1 v)
  then show ?case by (cases v) simp_all
next
  case (2 n fds)
  define xs where "xs fd = (case fd of (f, e, w) \<Rightarrow> map (visit upper w (sticky \<or> \<not> upper f \<and> \<not> e) (\<not> upper f \<and> e) (if name \<noteq> [] then name @ ''.'' @ f else f)) (paths n w))" for fd
  have depth: "4 - int (Suc n) + 1 = 4 - int n" by simp
  have "checkDefaults upper fds sticky (4 - int (Suc n)) name st = warn_all (concat (map xs fds)) st"
  proof (rule checkDefaults_warns)
    fix f e w st
    assume "(f, e, w) \<in> set fds"
    then obtain i where "i < length fds" "fds ! i = (f, e, w)" by (auto simp: in_set_conv_nth)
    then show "checkDefault1 upper w (sticky \<or> \<not> upper f \<and> \<not> e) (\<not> upper f \<and> e) (4 - int (Suc n) + 1) (if name \<noteq> [] then name @ ''.'' @ f else f) st = warn_all (xs (f, e, w)) st"
      using 2 [of i] unfolding depth xs_def by simp
  qed
  moreover have "map (visit upper (VStruct fds) sticky embro name) (paths (Suc n) (VStruct fds)) = concat (map xs fds)"
  proof -
    have "map (visit upper (VStruct fds) sticky embro name) (map ((#) (Fld i)) (paths n (snd (snd (fds ! i))))) = xs (fds ! i)" if "i < length fds" for i
      using that by (cases "fds ! i") (auto simp: xs_def visit_field)
    then have "map (visit upper (VStruct fds) sticky embro name) (paths (Suc n) (VStruct fds)) = concat (map (\<lambda>i. xs (fds ! i)) [0..<length fds])"
      by (auto simp: map_concat comp_def intro!: arg_cong [of _ _ concat])
    also have "map (\<lambda>i. xs (fds ! i)) [0..<length fds] = map xs fds" by (rule nth_equalityI) auto
    finally show ?thesis .
  qed
  ultimately show ?case by simp
next
  case (4 n v)
  have depth: "4 - int (Suc n) + 1 = 4 - int n" by simp
  show ?case using 4 by (simp add: comp_def visit_deref algebra_simps)
next
  case (5 n tname zero)
  then show ?case
    by (cases zero) (auto simp: warn_all_single visit_def nonzero_at_def path_name_def default_warning_def warning_of_def Let_def)
qed simp_all

definition nonzero_paths :: "goval \<Rightarrow> path_step list set" where
  "nonzero_paths v = {p \<in> basic_paths v. nonzero_at v p}"

lemma basic_paths_enum: "basic_paths v = set (paths 3 v)"
  by (simp add: basic_paths_def set_paths)

lemma visit_top: "visit upper v False False [] p = (warned_as v p, read_only upper v p, \<not> nonzero_at v p)"
  by (simp add: visit_def warned_as_def read_only_def Let_def)

lemma checkDefault_paths:
  "checkDefault upper (Some v) st =
     (if \<exists>p\<in>basic_paths v. read_only upper v p then Inl ro_panic
      else let bad = filter (nonzero_at v) (paths 3 v)
           in Inr (st\<lparr>errorCount := errorCount st + int (length bad),
                      printed := printed st @ take (nat (1 - errorCount st)) (map (\<lambda>p. warning_of (visit upper v False False [] p)) bad)\<rparr>))"
  using checkDefault1_warns [of upper v False False 3 "[]" st]
  by (simp add: checkDefault_def warn_all_def basic_paths_enum visit_top filter_map comp_def Let_def)

lemma nonzero_paths_enum:
  "nonzero_paths v = set (filter (nonzero_at v) (paths 3 v))" "card (nonzero_paths v) = length (filter (nonzero_at v) (paths 3 v))"
proof -
  show "nonzero_paths v = set (filter (nonzero_at v) (paths 3 v))" by (auto simp: nonzero_paths_def basic_paths_enum)
  then show "card (nonzero_paths v) = length (filter (nonzero_at v) (paths 3 v))"
    using distinct_card [of "filter (nonzero_at v) (paths 3 v)"] by (simp add: distinct_paths)
qed

text \<open>
  C39.  \<open>checkDefault\<close> looks at the basic values on the first three levels of a variable.  It panics exactly if one of them may not be
  read: a field on its path is unexported and not embedded, or the last field on its path is unexported; an exported field of an
  unexported embedded struct is read.  Otherwise \<open>errorCount\<close> grows by the number of those values that are not zero, and if it was zero
  exactly one warning is printed, for the first such value in the order of the fields, with its field names joined by dots or, if it is
  under no field, its type's name.
\<close>

theorem checkDefault_warnings:
  assumes "0 \<le> errorCount st"
  shows "if \<exists>p\<in>basic_paths v. read_only upper v p then checkDefault upper (Some v) st = Inl ro_panic
     else \<exists>msgs. checkDefault upper (Some v) st =
              Inr (st\<lparr>errorCount := errorCount st + int (card (nonzero_paths v)), printed := printed st @ msgs\<rparr>) \<and>
            (if errorCount st = 0 \<and> nonzero_paths v \<noteq> {} then
               \<exists>p\<in>nonzero_paths v. (\<forall>q\<in>nonzero_paths v. q = p \<or> path_less p q) \<and>
                 msgs = [''labgob warning: Decoding into a non-default variable/field '' @ warned_as v p @ '' may not work'']
             else msgs = [])"
proof (cases "\<exists>p\<in>basic_paths v. read_only upper v p")
  case False
  let ?bad = "filter (nonzero_at v) (paths 3 v)"
  let ?msgs = "take (nat (1 - errorCount st)) (map (\<lambda>p. warning_of (visit upper v False False [] p)) ?bad)"
  have sorted: "sorted_wrt path_less ?bad" by (rule sorted_wrt_filter) (rule sorted_paths)
  have "if errorCount st = 0 \<and> nonzero_paths v \<noteq> {} then
          \<exists>p\<in>nonzero_paths v. (\<forall>q\<in>nonzero_paths v. q = p \<or> path_less p q) \<and>
            ?msgs = [''labgob warning: Decoding into a non-default variable/field '' @ warned_as v p @ '' may not work'']
        else ?msgs = []"
  proof (cases ?bad)
    case Nil
    then show ?thesis by (simp add: nonzero_paths_enum)
  next
    case (Cons p ps)
    then show ?thesis using sorted assms
      by (auto simp: nonzero_paths_enum(1) warning_of_def visit_top)
  qed
  moreover have "checkDefault upper (Some v) st = Inr (st\<lparr>errorCount := errorCount st + int (card (nonzero_paths v)), printed := printed st @ ?msgs\<rparr>)"
    using False unfolding checkDefault_paths nonzero_paths_enum(2) Let_def by simp
  ultimately show ?thesis using False by (simp only: if_False) blast
qed (simp add: checkDefault_paths)

text \<open>A struct with an unexported embedded struct: its exported field is read, counted and named in the one warning.\<close>

definition sample_value :: goval where
  "sample_value = VStruct [(''base'', True, VStruct [(''Term'', False, VBasic ''int'' False)]), (''Vote'', False, VBasic ''bool'' False),
     (''Log'', False, VOther), (''Index'', False, VBasic ''int'' True)]"

theorem checkDefault_warnings_witness:
  "checkDefault is_upper (Some sample_value) fresh_state =
     Inr (fresh_state\<lparr>errorCount := 2,
       printed := [''labgob warning: Decoding into a non-default variable/field base.Term may not work'']\<rparr>)"
proof -
  have basic: "basic_paths sample_value = {[Fld 0, Fld 0], [Fld 1], [Fld 3]}"
    by (simp add: basic_paths_enum sample_value_def numeral_3_eq_3 insert_commute)
  have at: "nonzero_at sample_value [Fld 0, Fld 0]" "nonzero_at sample_value [Fld 1]" "\<not> nonzero_at sample_value [Fld 3]"
    by (simp_all add: nonzero_at_def sample_value_def)
  have nonzero: "nonzero_paths sample_value = {[Fld 0, Fld 0], [Fld 1]}"
    using at by (auto simp: nonzero_paths_def basic)
  have read: "\<not> (\<exists>p\<in>basic_paths sample_value. read_only is_upper sample_value p)"
    unfolding basic by (simp add: read_only_def sample_value_def is_upper_def)
  have less: "\<not> path_less [Fld 1] [Fld 0, Fld 0]"
    by (auto simp: path_less_def Cons_eq_append_conv)
  have name: "warned_as sample_value [Fld 0, Fld 0] = ''base.Term''"
    by (simp add: warned_as_def path_name_def sample_value_def)
  have zero: "errorCount fresh_state = 0" "printed fresh_state = []" by (simp_all add: fresh_state_def)
  show ?thesis using checkDefault_warnings [of fresh_state sample_value is_upper] read less
    by (auto simp: nonzero zero name)
qed

text \<open>Decoding into a struct with a lower-case basic field does not return, whether or not the field is zero.\<close>

lemma Decode_lower_case_panics:
  assumes "types_ok types" "t < length types" "\<not> upper f"
  shows "lab_Decode upper types t (Some (VPtr (Some (VStruct (fds @ [(f, False, VBasic tname zero)]))))) gob s st = Some (Inl ro_panic)"
proof -
  have "card ({..<length types} - checked st) \<le> card {..<length types}" by (intro card_mono) auto
  then have "card ({..<length types} - checked st) < Suc (length types)" by simp
  then obtain st' where st': "checkType (Suc (length types)) upper types t st = Some (Inr st')"
    using checkType_returns(1) [OF assms(1,2)] by blast
  let ?v = "VPtr (Some (VStruct (fds @ [(f, False, VBasic tname zero)])))"
  have "[Deref, Fld (length fds)] \<in> basic_paths ?v" "read_only upper ?v [Deref, Fld (length fds)]"
    using assms(3) by (simp_all add: basic_paths_def read_only_def)
  then have "checkDefault upper (Some ?v) st' = Inl ro_panic" unfolding checkDefault_paths by auto
  then show ?thesis using st' by (simp add: lab_Decode_def checkValue_def)
qed

end
