(* ===== verification/Skeletons.thy ===== *)
theory Skeletons
  imports RaftConfig Labgob Clerks
begin

text \<open>
  The servers as the repository has them: \<^verbatim>\<open>raft/raft.go\<close>, \<^verbatim>\<open>kvraft/server.go\<close>, \<^verbatim>\<open>kvraft/client.go\<close>,
  \<^verbatim>\<open>shardmaster/server.go\<close> and \<^verbatim>\<open>shardkv/server.go\<close> are the skeletons the labs start from.  They start, are
  killed and answer without doing anything; the last section shows what the test harness makes of them.

  The end points of a server are values of a type \<open>'e\<close>, a persister is its address, and a server holds
  its Raft instance itself.
\<close>

section \<open>Raft\<close>

record 'e Raft =
  peers :: "'e list"
  rpersister :: nat
  rme :: int
  rdead :: "32 word"

definition GetState :: "'e Raft option \<Rightarrow> int \<times> bool" where
  "GetState rf = (0, False)"

definition persist :: "'e Raft \<Rightarrow> 'e Raft" where
  "persist rf = rf"

definition readPersist :: "bytes \<Rightarrow> 'e Raft \<Rightarrow> 'e Raft" where
  "readPersist data rf = (if length data < 1 then rf else rf)"

definition RequestVote :: "unit \<Rightarrow> unit \<Rightarrow> 'e Raft \<Rightarrow> unit \<times> 'e Raft" where
  "RequestVote args reply rf = (reply, rf)"

definition sendRequestVote :: "('e \<Rightarrow> string \<Rightarrow> unit \<Rightarrow> unit \<Rightarrow> bool \<times> unit) \<Rightarrow> int \<Rightarrow> unit \<Rightarrow> unit \<Rightarrow> 'e Raft \<Rightarrow> (bool \<times> unit) res" where
  "sendRequestVote call server args reply rf =
     rbind (slice_get (peers rf) server) (\<lambda>e. Inr (call e ''Raft.RequestVote'' args reply))"

definition Start :: "'c \<Rightarrow> 'e Raft \<Rightarrow> int \<times> int \<times> bool" where
  "Start command rf = (let index = -1; trm = -1; isLeader = True in (index, trm, isLeader))"

definition Kill :: "'e Raft \<Rightarrow> 'e Raft" where
  "Kill rf = rf\<lparr>rdead := 1\<rparr>"

definition raft_killed :: "'e Raft \<Rightarrow> bool" where
  "raft_killed rf = (let z = rdead rf in z = 1)"

definition Make :: "'e list \<Rightarrow> int \<Rightarrow> nat \<Rightarrow> Persister list \<Rightarrow> 'e Raft res" where
  "Make prs me p ps =
     (let rf = \<lparr>peers = prs, rpersister = p, rme = me, rdead = 0\<rparr>
      in rbind (slice_get ps (int p)) (\<lambda>persister. Inr (readPersist (ReadRaftState persister) rf)))"

section \<open>The key-value server and client\<close>

record 'e KVServer =
  kvme :: int
  kvrf :: "'e Raft"
  kvdead :: "32 word"
  kvmaxraftstate :: int

definition KV_Get :: "GetArgs \<Rightarrow> GetReply \<Rightarrow> 'e KVServer \<Rightarrow> GetReply \<times> 'e KVServer" where
  "KV_Get args reply kv = (reply, kv)"

definition KV_PutAppend :: "PutAppendArgs \<Rightarrow> PutAppendReply \<Rightarrow> 'e KVServer \<Rightarrow> PutAppendReply \<times> 'e KVServer" where
  "KV_PutAppend args reply kv = (reply, kv)"

definition KV_Kill :: "'e KVServer \<Rightarrow> 'e KVServer" where
  "KV_Kill kv = (let kv1 = kv\<lparr>kvdead := 1\<rparr> in kv1\<lparr>kvrf := Kill (kvrf kv1)\<rparr>)"

definition KV_killed :: "'e KVServer \<Rightarrow> bool" where
  "KV_killed kv = (let z = kvdead kv in z = 1)"

text \<open>\<open>labgob.Register(Op{})\<close> comes first; \<open>opt\<close> is the type \<open>Op\<close> in the table of types and \<open>gob\<close> the registration.\<close>

definition register_op :: "(string \<Rightarrow> bool) \<Rightarrow> gotype list \<Rightarrow> nat \<Rightarrow> ('s \<Rightarrow> 's) \<Rightarrow> 's \<Rightarrow> lab_state \<Rightarrow> 'k res \<Rightarrow> (lab_state \<times> 's \<times> 'k) res option" where
  "register_op upper types opt gob s lab server =
     map_option (\<lambda>r. rbind r (\<lambda>(lab1, s1). rbind server (\<lambda>kv. Inr (lab1, s1, kv)))) (Register upper types opt gob s lab)"

definition new_KVServer :: "'e list \<Rightarrow> int \<Rightarrow> nat \<Rightarrow> int \<Rightarrow> Persister list \<Rightarrow> 'e KVServer res" where
  "new_KVServer srvs me persister maxraftstate ps =
     rbind (Make srvs me persister ps) (\<lambda>rf. Inr \<lparr>kvme = me, kvrf = rf, kvdead = 0, kvmaxraftstate = maxraftstate\<rparr>)"

definition StartKVServer :: "(string \<Rightarrow> bool) \<Rightarrow> gotype list \<Rightarrow> nat \<Rightarrow> ('s \<Rightarrow> 's) \<Rightarrow> 's \<Rightarrow> lab_state \<Rightarrow> 'e list \<Rightarrow> int \<Rightarrow> nat \<Rightarrow> int
    \<Rightarrow> Persister list \<Rightarrow> (lab_state \<times> 's \<times> 'e KVServer) res option" where
  "StartKVServer upper types opt gob s lab srvs me persister maxraftstate ps =
     register_op upper types opt gob s lab (new_KVServer srvs me persister maxraftstate ps)"

record 'e Clerk =
  ckservers :: "'e list"

definition MakeClerk :: "'e list \<Rightarrow> 'e Clerk" where
  "MakeClerk srvs = \<lparr>ckservers = srvs\<rparr>"

definition Clerk_Get :: "string \<Rightarrow> 'e Clerk \<Rightarrow> string \<times> 'e Clerk" where
  "Clerk_Get key ck = ([], ck)"

definition Clerk_PutAppend :: "string \<Rightarrow> string \<Rightarrow> string \<Rightarrow> 'e Clerk \<Rightarrow> 'e Clerk" where
  "Clerk_PutAppend key val opn ck = ck"

definition Clerk_Put :: "string \<Rightarrow> string \<Rightarrow> 'e Clerk \<Rightarrow> 'e Clerk" where
  "Clerk_Put key val ck = Clerk_PutAppend key val ''Put'' ck"

definition Clerk_Append :: "string \<Rightarrow> string \<Rightarrow> 'e Clerk \<Rightarrow> 'e Clerk" where
  "Clerk_Append key val ck = Clerk_PutAppend key val ''Append'' ck"

section \<open>The shard master and the sharded key-value server\<close>

record 'e ShardMaster =
  smme :: int
  smrf :: "'e Raft"
  configs :: "Config list"

definition SM_Join :: "JoinArgs \<Rightarrow> sm_Reply \<Rightarrow> 'e ShardMaster \<Rightarrow> sm_Reply \<times> 'e ShardMaster" where
  "SM_Join args reply sm = (reply, sm)"

definition SM_Leave :: "LeaveArgs \<Rightarrow> sm_Reply \<Rightarrow> 'e ShardMaster \<Rightarrow> sm_Reply \<times> 'e ShardMaster" where
  "SM_Leave args reply sm = (reply, sm)"

definition SM_Move :: "MoveArgs \<Rightarrow> sm_Reply \<Rightarrow> 'e ShardMaster \<Rightarrow> sm_Reply \<times> 'e ShardMaster" where
  "SM_Move args reply sm = (reply, sm)"

definition SM_Query :: "QueryArgs \<Rightarrow> QueryReply \<Rightarrow> 'e ShardMaster \<Rightarrow> QueryReply \<times> 'e ShardMaster" where
  "SM_Query args reply sm = (reply, sm)"

definition SM_Kill :: "'e ShardMaster \<Rightarrow> 'e ShardMaster" where
  "SM_Kill sm = sm\<lparr>smrf := Kill (smrf sm)\<rparr>"

definition SM_Raft :: "'e ShardMaster \<Rightarrow> 'e Raft" where
  "SM_Raft sm = smrf sm"

definition new_ShardMaster :: "'e list \<Rightarrow> int \<Rightarrow> nat \<Rightarrow> Persister list \<Rightarrow> 'e ShardMaster res" where
  "new_ShardMaster srvs me persister ps =
     rbind (slice_set (replicate 1 zero_Config) 0 (zero_Config\<lparr>Groups := Map.empty\<rparr>)) (\<lambda>cs.
     rbind (Make srvs me persister ps) (\<lambda>rf. Inr \<lparr>smme = me, smrf = rf, configs = cs\<rparr>))"

definition SM_StartServer :: "(string \<Rightarrow> bool) \<Rightarrow> gotype list \<Rightarrow> nat \<Rightarrow> ('s \<Rightarrow> 's) \<Rightarrow> 's \<Rightarrow> lab_state \<Rightarrow> 'e list \<Rightarrow> int \<Rightarrow> nat
    \<Rightarrow> Persister list \<Rightarrow> (lab_state \<times> 's \<times> 'e ShardMaster) res option" where
  "SM_StartServer upper types opt gob s lab srvs me persister ps =
     register_op upper types opt gob s lab (new_ShardMaster srvs me persister ps)"

record 'e ShardKV =
  skme :: int
  skrf :: "'e Raft"
  sk_make_end :: "string \<Rightarrow> 'e"
  skgid :: int
  skmasters :: "'e list"
  skmaxraftstate :: int

definition SK_Get :: "GetArgs \<Rightarrow> GetReply \<Rightarrow> 'e ShardKV \<Rightarrow> GetReply \<times> 'e ShardKV" where
  "SK_Get args reply kv = (reply, kv)"

definition SK_PutAppend :: "PutAppendArgs \<Rightarrow> PutAppendReply \<Rightarrow> 'e ShardKV \<Rightarrow> PutAppendReply \<times> 'e ShardKV" where
  "SK_PutAppend args reply kv = (reply, kv)"

definition SK_Kill :: "'e ShardKV \<Rightarrow> 'e ShardKV" where
  "SK_Kill kv = kv\<lparr>skrf := Kill (skrf kv)\<rparr>"

definition new_ShardKV :: "'e list \<Rightarrow> int \<Rightarrow> nat \<Rightarrow> int \<Rightarrow> int \<Rightarrow> 'e list \<Rightarrow> (string \<Rightarrow> 'e) \<Rightarrow> Persister list \<Rightarrow> 'e ShardKV res" where
  "new_ShardKV srvs me persister maxraftstate gid masters make_end ps =
     rbind (Make srvs me persister ps) (\<lambda>rf.
     Inr \<lparr>skme = me, skrf = rf, sk_make_end = make_end, skgid = gid, skmasters = masters, skmaxraftstate = maxraftstate\<rparr>)"

definition SK_StartServer :: "(string \<Rightarrow> bool) \<Rightarrow> gotype list \<Rightarrow> nat \<Rightarrow> ('s \<Rightarrow> 's) \<Rightarrow> 's \<Rightarrow> lab_state \<Rightarrow> 'e list \<Rightarrow> int \<Rightarrow> nat \<Rightarrow> int \<Rightarrow> int
    \<Rightarrow> 'e list \<Rightarrow> (string \<Rightarrow> 'e) \<Rightarrow> Persister list \<Rightarrow> (lab_state \<times> 's \<times> 'e ShardKV) res option" where
  "SK_StartServer upper types opt gob s lab srvs me persister maxraftstate gid masters make_end ps =
     register_op upper types opt gob s lab (new_ShardKV srvs me persister maxraftstate gid masters make_end ps)"

section \<open>The skeleton under the test harness\<close>

text \<open>What the harness learns from the servers it runs: \<open>GetState\<close> may be called on a nil pointer, \<open>Start\<close> is not.\<close>

definition raft_states :: "('e Raft, 'c, 'o, 'v) config \<Rightarrow> nat \<Rightarrow> int \<times> bool" where
  "raft_states cfg i = GetState (rafts cfg ! i)"

definition start_answers :: "'c \<Rightarrow> ('e Raft, 'c, 'o, 'v) config \<Rightarrow> nat \<Rightarrow> int \<times> bool" where
  "start_answers cmd cfg i =
     (case rafts cfg ! i of None \<Rightarrow> (-1, False) | Some rf \<Rightarrow> (let (index, trm, isLeader) = Start cmd rf in (index, isLeader)))"

lemma no_leaders: "leaders_of (raft_states cfg) cfg = []"
  by (simp add: leaders_of_def raft_states_def GetState_def List.map_filter_def)

lemma one_leader_iter_none: "one_leader_iter (raft_states cfg) cfg = Inr None"
  by (simp add: one_leader_iter_def no_leaders)

lemma skeleton_no_leader: "checkOneLeader k (\<lambda>_. raft_states cfg) cfg = Inl (Fatal ''expected one leader, got none'')"
  by (induction k) (simp_all add: one_leader_iter_none)

lemma terms_loop_zero:
  "terms_loop 0 (map (\<lambda>i. (up i, 0)) is) = Inr 0"
  "terms_loop (-1) (map (\<lambda>i. (up i, 0)) is) = Inr (if list_ex up is then 0 else -1)"
proof -
  show zero: "terms_loop 0 (map (\<lambda>i. (up i, 0)) is) = Inr 0" for "is" by (induction "is") simp_all
  show "terms_loop (-1) (map (\<lambda>i. (up i, 0)) is) = Inr (if list_ex up is then 0 else -1)"
    by (induction "is") (simp_all add: zero)
qed

lemma one_pick_none: "fst (one_pick k starts (start_answers cmd cfg) cfg) = -1"
  by (induction k arbitrary: starts) (auto simp: start_answers_def Start_def Let_def)

lemma one_never:
  "one cmd expected retry starts (map (\<lambda>(cfg, obs). (start_answers cmd cfg, cfg, obs)) rounds) =
     Inl (Fatal ''one failed to reach agreement'')"
proof (induction rounds arbitrary: starts)
  case (Cons r rounds)
  obtain cfg obs where r: "r = (cfg, obs)" by fastforce
  obtain starts' where "one_pick (cn cfg) starts (start_answers cmd cfg) cfg = (-1, starts')"
    using one_pick_none [of "cn cfg" starts cmd cfg] by (metis prod.collapse)
  then show ?case using Cons r by simp
qed simp

text \<open>
  Whatever state the cluster is in, the harness accepts the skeleton's servers as followers that
  agree on the term (0 as soon as one is connected) and finds no leader; \<open>checkOneLeader\<close> and \<open>one\<close> report
  a failure, however often they look: every server takes a command and none gives it an index.
\<close>

lemma skeleton_has_no_leader:
  "checkNoLeader (raft_states cfg) cfg = Inr () \<and>
   checkTerms (raft_states cfg) cfg = Inr (if list_ex (\<lambda>i. connected cfg ! i) [0..<cn cfg] then 0 else -1) \<and>
   checkOneLeader 10 (\<lambda>_. raft_states cfg) cfg = Inl (Fatal ''expected one leader, got none'') \<and>
   one cmd expected retry starts (map (\<lambda>(cfg, obs). (start_answers cmd cfg, cfg, obs)) rounds) =
     Inl (Fatal ''one failed to reach agreement'')"
proof (intro conjI)
  show "checkNoLeader (raft_states cfg) cfg = Inr ()"
    by (simp add: checkNoLeader_def raft_states_def GetState_def list_ex_iff)
  show "checkTerms (raft_states cfg) cfg = Inr (if list_ex (\<lambda>i. connected cfg ! i) [0..<cn cfg] then 0 else -1)"
    using terms_loop_zero(2) [of "\<lambda>i. connected cfg ! i" "[0..<cn cfg]"] by (simp add: checkTerms_def raft_states_def GetState_def)
qed (rule skeleton_no_leader one_never)+

end
