(* ===== verification/Programs.thy ===== *)
theory Programs
  imports MapReduce
begin

text \<open>
  The programs of \<^verbatim>\<open>main/\<close> for services that are not in the repository (\<^verbatim>\<open>pbservice\<close>, \<^verbatim>\<open>viewservice\<close>, \<^verbatim>\<open>lockservice\<close>, \<^verbatim>\<open>diskv\<close>):
  \<^verbatim>\<open>pbc.go\<close>, \<^verbatim>\<open>pbd.go\<close>, \<^verbatim>\<open>viewd.go\<close>, \<^verbatim>\<open>lockc.go\<close>, \<^verbatim>\<open>lockd.go\<close> and \<^verbatim>\<open>diskvd.go\<close>, with the functions of those packages as arguments
  that work on a state \<open>'w\<close>; and the part of \<open>strconv\<close> that \<^verbatim>\<open>diskvd.go\<close> reads its arguments with.

  \<open>args\<close> is \<open>os.Args\<close> without the name of the program.  \<open>Fatal\<close> with the usage text is the call of \<open>os.Exit(1)\<close>; a server
  that is running is the state in which the program sleeps until it is killed.
\<close>

section \<open>Reading numbers and truth values\<close>

datatype num_error = ErrSyntax | ErrRange

text \<open>\<open>ParseUint\<close> with base 10 and 64 bits: the loop stops at the first character that is no digit or does not fit.\<close>

fun uint_loop :: "nat \<Rightarrow> string \<Rightarrow> nat \<times> num_error option" where
  "uint_loop n [] = (n, None)"
| "uint_loop n (c # cs) =
     (if \<not> is_digit c then (0, Some ErrSyntax)
      else (let n1 = 10 * n + (of_char c - 48) in if 2 ^ 64 \<le> n1 then (2 ^ 64 - 1, Some ErrRange) else uint_loop n1 cs))"

definition ParseUint :: "string \<Rightarrow> nat \<times> num_error option" where
  "ParseUint s = (if s = [] then (0, Some ErrSyntax) else uint_loop 0 s)"

definition ParseInt :: "string \<Rightarrow> int \<times> num_error option" where
  "ParseInt s =
     (if s = [] then (0, Some ErrSyntax)
      else (let neg = (hd s = CHR ''-'');
                (un, err) = ParseUint (if hd s \<in> {CHR ''+'', CHR ''-''} then tl s else s)
            in if err = Some ErrSyntax then (0, err)
               else if \<not> neg \<and> 2 ^ 63 \<le> un then (2 ^ 63 - 1, Some ErrRange)
               else if neg \<and> 2 ^ 63 < un then (- (2 ^ 63), Some ErrRange)
               else (if neg then - int un else int un, None)))"

text \<open>On 64 bits \<open>Atoi\<close> is \<open>ParseInt\<close>; it treats short texts separately, with the same result.\<close>

definition Atoi :: "string \<Rightarrow> int \<times> num_error option" where
  "Atoi s = ParseInt s"

definition ParseBool :: "string \<Rightarrow> bool \<times> num_error option" where
  "ParseBool s =
     (if s \<in> {''1'', ''t'', ''T'', ''true'', ''TRUE'', ''True''} then (True, None)
      else if s \<in> {''0'', ''f'', ''F'', ''false'', ''FALSE'', ''False''} then (False, None)
      else (False, Some ErrSyntax))"

section \<open>The server with arguments\<close>

record diskv_args =
  gid :: int
  masters :: "string list"
  replicas :: "string list"
  d_me :: int
  unreliable :: bool
  d_dir :: string
  d_restart :: bool

definition diskvd_zero :: diskv_args where
  "diskvd_zero = \<lparr>gid = -1, masters = [], replicas = [], d_me = -1, unreliable = False, d_dir = [], d_restart = False\<rparr>"

abbreviation diskvd_usage :: "'a res" where
  "diskvd_usage \<equiv> Inl (Fatal ''Usage: diskvd -g gid -m master... -s server... -i my-index -d dir'')"

text \<open>The loop takes the arguments in pairs; a last argument without a partner is not looked at.\<close>

definition diskvd_arg :: "string \<Rightarrow> string \<Rightarrow> diskv_args \<Rightarrow> diskv_args res" where
  "diskvd_arg a0 a1 a =
     (if a0 = ''-g'' then Inr (a\<lparr>gid := fst (ParseInt a1)\<rparr>)
      else if a0 = ''-m'' then Inr (a\<lparr>masters := masters a @ [a1]\<rparr>)
      else if a0 = ''-s'' then Inr (a\<lparr>replicas := replicas a @ [a1]\<rparr>)
      else if a0 = ''-i'' then Inr (a\<lparr>d_me := fst (Atoi a1)\<rparr>)
      else if a0 = ''-u'' then Inr (a\<lparr>unreliable := fst (ParseBool a1)\<rparr>)
      else if a0 = ''-d'' then Inr (a\<lparr>d_dir := a1\<rparr>)
      else if a0 = ''-r'' then Inr (a\<lparr>d_restart := fst (ParseBool a1)\<rparr>)
      else diskvd_usage)"

fun diskvd_loop :: "string list \<Rightarrow> diskv_args \<Rightarrow> diskv_args res" where
  "diskvd_loop (a0 # a1 # args) a = rbind (diskvd_arg a0 a1 a) (diskvd_loop args)"
| "diskvd_loop _ a = Inr a"

definition diskvd_bad :: "diskv_args \<Rightarrow> bool" where
  "diskvd_bad a \<longleftrightarrow> gid a < 0 \<or> d_me a < 0 \<or> length (masters a) < 1 \<or> d_me a \<ge> int (length (replicas a)) \<or> d_dir a = []"

definition diskvd :: "(int \<Rightarrow> string list \<Rightarrow> string list \<Rightarrow> int \<Rightarrow> string \<Rightarrow> bool \<Rightarrow> 'srv) \<Rightarrow> (bool \<Rightarrow> 'srv \<Rightarrow> 'srv) \<Rightarrow> string list \<Rightarrow> 'srv res" where
  "diskvd StartServer Setunreliable args =
     rbind (diskvd_loop args diskvd_zero) (\<lambda>a.
     if diskvd_bad a then diskvd_usage
     else Inr (Setunreliable (unreliable a) (StartServer (gid a) (masters a) (replicas a) (d_me a) (d_dir a) (d_restart a))))"

section \<open>The smaller programs\<close>

text \<open>\<^verbatim>\<open>pbc.go\<close>: the state after the call, and what is printed.\<close>

definition pbc :: "(string \<Rightarrow> string \<Rightarrow> 'ck) \<Rightarrow> ('ck \<Rightarrow> string \<Rightarrow> 'w \<Rightarrow> 'w \<times> string) \<Rightarrow> ('ck \<Rightarrow> string \<Rightarrow> string \<Rightarrow> 'w \<Rightarrow> 'w)
    \<Rightarrow> string list \<Rightarrow> 'w \<Rightarrow> ('w \<times> string) res" where
  "pbc MakeClerk Get Put args w =
     (case args of
        [viewport, key] \<Rightarrow>
          (let ck = MakeClerk viewport []; (w', v) = Get ck key w in Inr (w', v @ [CHR 0x0A]))
      | [viewport, key, val] \<Rightarrow>
          (let ck = MakeClerk viewport [] in Inr (Put ck key val w, []))
      | _ \<Rightarrow> Inl (Fatal ''Usage: pbc viewport key''))"

definition pbd :: "(string \<Rightarrow> string \<Rightarrow> 'w \<Rightarrow> 'w) \<Rightarrow> string list \<Rightarrow> 'w \<Rightarrow> 'w res" where
  "pbd StartServer args w =
     (if length args \<noteq> 2 then Inl (Fatal ''Usage: pbd viewport myport'') else Inr (StartServer (args ! 0) (args ! 1) w))"

definition viewd :: "(string \<Rightarrow> 'w \<Rightarrow> 'w) \<Rightarrow> string list \<Rightarrow> 'w \<Rightarrow> 'w res" where
  "viewd StartServer args w =
     (if length args \<noteq> 1 then Inl (Fatal ''Usage: viewd port'') else Inr (StartServer (args ! 0) w))"

definition show_bool :: "bool \<Rightarrow> string" where
  "show_bool b = (if b then ''true'' else ''false'')"

abbreviation lockc_usage :: "'a res" where
  "lockc_usage \<equiv> Inl (Fatal ''Usage: lockc -l|-u primaryport backupport lockname'')"

definition lockc :: "(string \<Rightarrow> string \<Rightarrow> 'ck) \<Rightarrow> ('ck \<Rightarrow> string \<Rightarrow> 'w \<Rightarrow> 'w \<times> bool) \<Rightarrow> ('ck \<Rightarrow> string \<Rightarrow> 'w \<Rightarrow> 'w \<times> bool)
    \<Rightarrow> string list \<Rightarrow> 'w \<Rightarrow> ('w \<times> string) res" where
  "lockc MakeClerk Lock Unlock args w =
     (if length args = 4 then
        (let ck = MakeClerk (args ! 1) (args ! 2) in
         rbind (if args ! 0 = ''-l'' then Inr (Lock ck (args ! 3) w)
                else if args ! 0 = ''-u'' then Inr (Unlock ck (args ! 3) w)
                else lockc_usage)
           (\<lambda>(w', ok). Inr (w', ''reply: '' @ show_bool ok @ [CHR 0x0A])))
      else lockc_usage)"

definition lockd :: "(string \<Rightarrow> string \<Rightarrow> bool \<Rightarrow> 'w \<Rightarrow> 'w) \<Rightarrow> string list \<Rightarrow> 'w \<Rightarrow> 'w res" where
  "lockd StartServer args w =
     (if length args = 3 \<and> args ! 0 = ''-p'' then Inr (StartServer (args ! 1) (args ! 2) True w)
      else if length args = 3 \<and> args ! 0 = ''-b'' then Inr (StartServer (args ! 1) (args ! 2) False w)
      else Inl (Fatal ''Usage: lockd -p|-b primaryport backupport''))"

section \<open>Numbers are read back\<close>

lemma foldl_digits_ge: "n \<le> foldl (\<lambda>v c. 10 * v + (of_char c - 48)) (n :: nat) s"
proof (induction s arbitrary: n)
  case (Cons c s)
  have "n \<le> 10 * n + (of_char c - 48)" by simp
  also have "\<dots> \<le> foldl (\<lambda>v c. 10 * v + (of_char c - 48)) (10 * n + (of_char c - 48)) s" by (rule Cons.IH)
  finally show ?case by simp
qed simp

lemma uint_loop_digits:
  assumes "list_all is_digit s" and "foldl (\<lambda>v c. 10 * v + (of_char c - 48)) n s < 2 ^ 64"
  shows "uint_loop n s = (foldl (\<lambda>v c. 10 * v + (of_char c - 48)) n s, None)"
  using assms
proof (induction s arbitrary: n)
  case (Cons c s)
  have "10 * n + (of_char c - 48) < 2 ^ 64"
    using foldl_digits_ge [of "10 * n + (of_char c - 48)" s] Cons.prems(2) by (simp del: power_numeral)
  then show ?case using Cons by (simp add: Let_def)
qed simp

lemma ParseUint_Itoa: "n < 2 ^ 64 \<Longrightarrow> ParseUint (Itoa n) = (n, None)"
  using uint_loop_digits [of "Itoa n" 0] Itoa_value [of n] Itoa_digits [of _ n]
  by (simp add: ParseUint_def Itoa_not_Nil list_all_iff digits_value_def)

lemma ParseInt_Itoa: "n < 2 ^ 63 \<Longrightarrow> ParseInt (Itoa n) = (int n, None)"
proof -
  assume n: "n < 2 ^ 63"
  have "is_digit (hd (Itoa n))" using Itoa_digits [of "hd (Itoa n)" n] Itoa_not_Nil [of n] by simp
  then have "hd (Itoa n) \<notin> {CHR ''+'', CHR ''-''}" by (auto simp: is_digit_def)
  then show ?thesis using n ParseUint_Itoa [of n] by (simp add: ParseInt_def Let_def Itoa_not_Nil)
qed

lemma ParseInt_bounds: "- (2 ^ 63) \<le> fst (ParseInt s) \<and> fst (ParseInt s) < 2 ^ 63"
  by (auto simp: ParseInt_def Let_def split: prod.split)

lemma ParseInt_syntax: "snd (ParseInt s) = Some ErrSyntax \<Longrightarrow> fst (ParseInt s) = 0"
  by (auto simp: ParseInt_def Let_def split: prod.splits if_splits)

lemma ParseBool_show: "ParseBool (show_bool b) = (b, None)"
  by (simp add: ParseBool_def show_bool_def)

section \<open>The arguments of the server\<close>

text \<open>The arguments as they are meant: a flag and its value, and what a list of them says.\<close>

datatype diskv_flag =
    FGroup nat
  | FMaster string
  | FServer string
  | FIndex nat
  | FUnreliable bool
  | FDir string
  | FRestart bool

fun flag_args :: "diskv_flag \<Rightarrow> string list" where
  "flag_args (FGroup n) = [''-g'', Itoa n]"
| "flag_args (FMaster m) = [''-m'', m]"
| "flag_args (FServer s) = [''-s'', s]"
| "flag_args (FIndex i) = [''-i'', Itoa i]"
| "flag_args (FUnreliable b) = [''-u'', show_bool b]"
| "flag_args (FDir d) = [''-d'', d]"
| "flag_args (FRestart b) = [''-r'', show_bool b]"

fun flag_ok :: "diskv_flag \<Rightarrow> bool" where
  "flag_ok (FGroup n) \<longleftrightarrow> n < 2 ^ 63"
| "flag_ok (FIndex i) \<longleftrightarrow> i < 2 ^ 63"
| "flag_ok _ \<longleftrightarrow> True"

fun set_flag :: "diskv_flag \<Rightarrow> diskv_args \<Rightarrow> diskv_args" where
  "set_flag (FGroup n) a = a\<lparr>gid := int n\<rparr>"
| "set_flag (FMaster m) a = a\<lparr>masters := masters a @ [m]\<rparr>"
| "set_flag (FServer s) a = a\<lparr>replicas := replicas a @ [s]\<rparr>"
| "set_flag (FIndex i) a = a\<lparr>d_me := int i\<rparr>"
| "set_flag (FUnreliable b) a = a\<lparr>unreliable := b\<rparr>"
| "set_flag (FDir d) a = a\<lparr>d_dir := d\<rparr>"
| "set_flag (FRestart b) a = a\<lparr>d_restart := b\<rparr>"

lemma diskvd_arg_flag: "flag_ok f \<Longrightarrow> diskvd_loop (flag_args f @ args) a = diskvd_loop args (set_flag f a)"
  by (cases f) (simp_all add: diskvd_arg_def ParseInt_Itoa ParseBool_show Atoi_def)

lemma diskvd_loop_flags:
  "list_all flag_ok fs \<Longrightarrow> diskvd_loop (concat (map flag_args fs) @ more_args) a = diskvd_loop more_args (fold set_flag fs a)"
proof (induction fs arbitrary: a)
  case (Cons f fs)
  then show ?case using diskvd_arg_flag [of f "concat (map flag_args fs) @ more_args" a] by simp
qed simp

text \<open>Whatever the order of the flags, the masters and the servers are passed on in the order in which they are given.\<close>

definition masters_of :: "diskv_flag list \<Rightarrow> string list" where
  "masters_of fs = List.map_filter (\<lambda>f. case f of FMaster m \<Rightarrow> Some m | _ \<Rightarrow> None) fs"

definition servers_of :: "diskv_flag list \<Rightarrow> string list" where
  "servers_of fs = List.map_filter (\<lambda>f. case f of FServer s \<Rightarrow> Some s | _ \<Rightarrow> None) fs"

lemma fold_flags_lists:
  "masters (fold set_flag fs a) = masters a @ masters_of fs" "replicas (fold set_flag fs a) = replicas a @ servers_of fs"
proof (induction fs arbitrary: a)
  case (Cons f fs)
  { case 1 show ?case by (cases f) (simp_all add: Cons masters_of_def List.map_filter_def) }
  { case 2 show ?case by (cases f) (simp_all add: Cons servers_of_def List.map_filter_def) }
qed (simp_all add: masters_of_def servers_of_def List.map_filter_def)

text \<open>
  Any sequence of flags, followed by at most one more argument, starts the server with what the flags say, or prints
  the usage if the group, the index, the directory, a master or the server of that index is missing.
\<close>

lemma diskvd_runs:
  assumes "list_all flag_ok fs" and "length more_args < 2"
  shows "diskvd start setu (concat (map flag_args fs) @ more_args) =
    (let a = fold set_flag fs diskvd_zero
     in if 0 \<le> gid a \<and> 0 \<le> d_me a \<and> masters_of fs \<noteq> [] \<and> d_me a < int (length (servers_of fs)) \<and> d_dir a \<noteq> []
        then Inr (setu (unreliable a) (start (gid a) (masters_of fs) (servers_of fs) (d_me a) (d_dir a) (d_restart a)))
        else diskvd_usage)"
proof -
  let ?a = "fold set_flag fs diskvd_zero"
  have l: "masters ?a = masters_of fs" "replicas ?a = servers_of fs" using fold_flags_lists [of fs diskvd_zero] by (simp_all add: diskvd_zero_def)
  have "diskvd_loop more_args ?a = Inr ?a" using assms(2) by (cases more_args; cases "tl more_args") auto
  then show ?thesis unfolding diskvd_def diskvd_loop_flags [OF assms(1)] by (auto simp: diskvd_bad_def l Let_def)
qed

text \<open>Every other argument list ends in the usage text, and a server never gets an index outside of its replicas.\<close>

lemma diskvd_unknown_flag:
  assumes "list_all flag_ok fs" and "a0 \<notin> {''-g'', ''-m'', ''-s'', ''-i'', ''-u'', ''-d'', ''-r''}"
  shows "diskvd start setu (concat (map flag_args fs) @ a0 # a1 # more_args) = diskvd_usage"
  using assms(2) unfolding diskvd_def diskvd_loop_flags [OF assms(1)] by (simp add: diskvd_arg_def)

lemma diskvd_index:
  assumes "diskvd start setu args = Inr srv"
  shows "\<exists>g ms rs me d r u. srv = setu u (start g ms rs me d r) \<and> 0 \<le> g \<and> ms \<noteq> [] \<and> 0 \<le> me \<and> me < int (length rs) \<and> d \<noteq> []"
proof -
  obtain a where a: "\<not> diskvd_bad a"
    "srv = setu (unreliable a) (start (gid a) (masters a) (replicas a) (d_me a) (d_dir a) (d_restart a))"
    using assms unfolding diskvd_def by (auto simp: rbind_eq_Inr split: if_splits)
  then show ?thesis
    by (intro exI [of _ "gid a"] exI [of _ "masters a"] exI [of _ "replicas a"] exI [of _ "d_me a"] exI [of _ "d_dir a"]
        exI [of _ "d_restart a"] exI [of _ "unreliable a"]) (auto simp: diskvd_bad_def)
qed

text \<open>A group or an index that is no number is read as 0, which passes for a group or an index.\<close>

lemma diskvd_bad_number:
  "diskvd start setu [''-g'', ''one'', ''-m'', ''m'', ''-s'', ''s'', ''-i'', ''x'', ''-d'', ''d''] = Inr (setu False (start 0 [''m''] [''s''] 0 ''d'' False))"
proof -
  have "ParseInt ''one'' = (0, Some ErrSyntax)" "ParseInt ''x'' = (0, Some ErrSyntax)" by code_simp+
  then show ?thesis by (simp add: diskvd_def diskvd_arg_def diskvd_zero_def diskvd_bad_def Atoi_def)
qed

text \<open>
  If the service returns for a key what was last put there, so do the two forms of \<^verbatim>\<open>pbc\<close>; the other numbers of arguments
  have no effect.
\<close>

lemma pbc_put_get:
  assumes "\<And>ck w. snd (Get ck k (Put ck k v w)) = v"
  shows "\<exists>w1 w2. pbc mk Get Put [port, k, v] w = Inr (w1, []) \<and> pbc mk Get Put [port, k] w1 = Inr (w2, v @ [CHR 0x0A])"
  using assms [of "mk port []" w] by (auto simp: pbc_def Let_def split: prod.split)

lemma pbc_usage: "length args \<notin> {2, 3} \<Longrightarrow> pbc mk Get Put args w = Inl (Fatal ''Usage: pbc viewport key'')"
  by (auto simp: pbc_def numeral_eq_Suc split: list.split)

lemma lock_programs_usage:
  "length args \<noteq> 4 \<or> args ! 0 \<notin> {''-l'', ''-u''} \<Longrightarrow> lockc mk Lock Unlock args w = lockc_usage"
  "length args' \<noteq> 3 \<or> args' ! 0 \<notin> {''-p'', ''-b''} \<Longrightarrow> lockd start args' w' = Inl (Fatal ''Usage: lockd -p|-b primaryport backupport'')"
  by (auto simp: lockc_def lockd_def Let_def)

end
