(* ===== verification/Spec2Isabelle.thy ===== *)
theory Spec2Isabelle
  imports KvStore VizPage HarnessProps Agreement ShardConfig MasterConfig MrMaster MrTiming Names Skeletons Programs
begin

text \<open>
  A verification of the Go code of the 6.824 labs (\<^verbatim>\<open>src/src/\<close>): the linearizability checker the labs are
  tested with, the simulated network and the test harnesses around it, MapReduce, and the clients and servers.

  \<^bold>\<open>The program and its theories\<close>

  \<^item> \<^verbatim>\<open>porcupine/\<close>, the checker.  A history of operations (\<^verbatim>\<open>model.go\<close>: theory History) is turned into time-ordered
    entries (\<open>makeEntries\<close>, \<open>convertEntries\<close>, \<open>renumber\<close>: Entries) and a doubly linked list of nodes (\<^verbatim>\<open>checker.go\<close>:
    NodeList, Linking).  \<open>checkSingle\<close> (Checker) searches it with \<open>lift\<close> and \<open>unlift\<close>, a stack, and a cache keyed by
    a bit set (\<^verbatim>\<open>bitset.go\<close>: Bitset) and the state.  \<open>checkParallel\<close> (Parallel) runs one search per partition in
    goroutines that share a kill flag and a channel; \<open>CheckOperations\<close> and \<open>CheckEvents\<close> (\<^verbatim>\<open>porcupine.go\<close>: CheckApi)
    are the entry points.  \<open>computeVisualizationData\<close> (Visualization) describes what a verbose check found, and
    \<open>Visualize\<close> (VizPage, with the JSON texts of Json) writes it into a page.
  \<^item> \<^verbatim>\<open>models/kv.go\<close> (KvStore): the key-value model the tests check histories against, partitioned by key.
  \<^item> \<^verbatim>\<open>labrpc/labrpc.go\<close> (Labrpc; what happens to one request of a run: RpcTrace): the simulated network.  \<^verbatim>\<open>labgob/labgob.go\<close> (Labgob): the checks made around every
    encoding and decoding of a message.
  \<^item> \<^verbatim>\<open>raft/persister.go\<close> (Persister) and \<^verbatim>\<open>raft/config.go\<close> (RaftConfig; its lemmas in RaftWiring, RaftChecks and Agreement): the
    harness that starts, connects, crashes and restarts servers and checks what they apply and report.  \<^verbatim>\<open>kvraft/config.go\<close> (KvConfig; sequences of its
    operations in KvRuns): the same with clerks and partitions.  \<^verbatim>\<open>shardmaster/config.go\<close> (MasterConfig): the same for shard masters, related to
    KvConfig by \<open>as_kv\<close> (\<open>master_harness_refines\<close>).
    \<^verbatim>\<open>shardkv/config.go\<close> (ShardConfig): shard masters and groups of servers.  Names: \<open>randstring\<close>, which they all draw the
    names of end-points with, \<open>makeSeed\<close> and \<open>nrand\<close>.
  \<^item> \<^verbatim>\<open>shardmaster/client.go\<close> and \<^verbatim>\<open>shardkv/client.go\<close> (Clerks): the retry loops of the two clients.
  \<^item> \<^verbatim>\<open>raft/raft.go\<close>, \<^verbatim>\<open>kvraft/server.go\<close>, \<^verbatim>\<open>kvraft/client.go\<close>, \<^verbatim>\<open>shardmaster/server.go\<close>, \<^verbatim>\<open>shardkv/server.go\<close> (Skeletons): the
    repository has the skeletons of these only.
  \<^item> \<^verbatim>\<open>main/mrsequential.go\<close> and the applications \<open>wc\<close>, \<open>indexer\<close>, \<open>crash\<close>, \<open>nocrash\<close> of \<^verbatim>\<open>mrapps/\<close> (MapReduce), the applications
    \<open>mtiming\<close> and \<open>rtiming\<close> (MrTiming), \<^verbatim>\<open>mr/\<close>, \<^verbatim>\<open>main/mrmaster.go\<close> and \<^verbatim>\<open>main/mrworker.go\<close> (MrMaster).
  \<^item> The programs of \<^verbatim>\<open>main/\<close> for services that are not in the repository (Programs): \<^verbatim>\<open>pbc.go\<close>, \<^verbatim>\<open>pbd.go\<close>, \<^verbatim>\<open>viewd.go\<close>, \<^verbatim>\<open>lockc.go\<close>,
    \<^verbatim>\<open>lockd.go\<close> and \<^verbatim>\<open>diskvd.go\<close>, with the services as arguments.

  \<^bold>\<open>How the code is modelled\<close>

  Prelude has Go's failures (\<open>gofault\<close>) and results (\<open>res\<close>), the checked slice accesses, the contract of sorting and the
  lemmas the other theories share.  Structs are records and keep the source's names, with a prefix where two structs share a
  field name.  Pointers that the code compares or writes through are indices into explicit stores: the nodes
  of the history (\<open>'v heap\<close>), the slices of partial linearizations (\<open>s_seqs\<close>), servers (\<open>sheap\<close>) and persisters
  (\<open>pheap\<close>).  Every panic and fatal exit is a value.  \<open>uint64\<close>, the 32-bit counters and hashes are words.

  What the standard library leaves open is an argument: the order of an unstable \<open>sort.Sort\<close> (\<open>go_sort\<close> is its
  contract) and of map iteration, random numbers, the text of \<open>%v\<close>, the \<open>gob\<close> codec, the file system.
  Concurrency is explicit: \<open>checkParallel\<close> runs a schedule, a list of atomic events of the goroutines and of the
  timer; the network runs a list of \<open>rpc_event\<close>s, each one atomic action of some goroutine in \<open>Call\<close>, \<open>MakeNetwork\<close> or
  \<open>processReq\<close> (\<open>w_listening\<close> says that the network still takes requests: after \<open>Cleanup\<close> it stops at some moment, and callers
  give up); the harness runs a list of \<open>harness_op\<close>s, those of the
  key-value servers and shard masters a list of \<open>m_op\<close>s; the workers of MrTiming are processes whose system calls \<open>np_step\<close>
  interleaves with those of other programs (reading the directory is one step).  The properties quantify over all of them.
  Two things are coarser: the clerks of C33 to C35 call a transport that makes one call at a time, which on the simulated network is
  \<open>net_call\<close>, a request with nothing else going on; and \<open>nCommitted\<close> is a function of what it reads of each server.

  \<^bold>\<open>Loops and fuel\<close>

  \<open>checkLoop\<close>, \<open>node_length\<close>, \<open>sm_loop\<close> and \<open>kv_loop\<close> are partial functions in the option monad: \<open>None\<close> means that the
  call does not return.  That \<open>checkSingle\<close> returns is proved with the bound \<open>work\<close> on its iterations (C2, C3),
  that \<open>checkParallel\<close> can always be completed is C5, and C34 says exactly when \<open>Query\<close> returns.  \<open>checkType\<close> of
  labgob recurses through a graph of types; its depth is bounded by the number of types plus one, which
  \<open>checkType_returns\<close> shows to be enough, because every level enters a type for the first time (C38).  The loops
  of the harness that watch the clock take the list of what they observe.

  \<^bold>\<open>Interfaces\<close>

  \<^item> \<open>position_set\<close> (Bitset): what the cache relies on of a bit set; interpreted on the Go methods.
  \<^item> \<open>state_equality\<close> (Search): when the cache may identify states; interpreted on \<open>ShallowEqual\<close>.
  \<^item> \<open>mr_application\<close> (MapReduce): what \<open>mrsequential\<close> needs of \<open>Map\<close> and \<open>Reduce\<close>; interpreted on \<open>wc\<close>, \<open>indexer\<close> and
    \<open>nocrash\<close>.
  \<^item> \<open>rpc_transport\<close> (Clerks): what the clerks need of a call; interpreted on the simulated network.

  \<^bold>\<open>What is shown\<close>

  \<^item> C1, C2, C7, C8, C9: the checker accepts exactly the linearizable histories, from one partition to the entry
    points, and for the key-value model the partition by key loses nothing.  C3, C4: nothing wrong is ever
    accepted or rejected when searches are killed or time out.  C5, C6: termination, and the empty history on which
    the call hangs.  C10, C14: the conversions keep values and real-time order.
    C12, C13: the list and the bit set against their abstractions.  C15: the result of every verbose check of a key-value
    history can be visualized, and what the data says of every operation and every step; C31: the page holds the data, byte for byte if its
    descriptions are valid UTF-8, in a form that cannot break the page.
  \<^item> C16 to C20: the network delivers a request at most once, never to an unreachable server, and loses nothing when
    reliable; a reply comes from the server the request went to, and only while that server is registered (C19); its counters.  C21 to C25: the harness's connectivity invariant, the isolation of old instances and
    their persisters, and the exactness of its checks (also \<open>checkTerms_exact\<close>).  C32, C11: what the tests may conclude
    from \<open>one\<close> and from \<open>wait\<close>.  C29: the names of end-points.  C36, C26: after any operations of the key-value and the shard master's harness,
    which servers reach each other after \<open>partition\<close> and which a new clerk reaches.  C37: the parts that \<open>make_partition\<close> makes.
  \<^item> C27, C28: \<open>mrsequential\<close> computes word counts and indexes.  \<open>mrsequential_errors\<close>, \<open>ihash_bounds\<close>, \<open>split_loses_contents\<close>,
    \<open>GetTask_repeats\<close>, \<open>mrworker_main_fails\<close>, \<open>mrmaster_main_waits\<close>: errors, the hash, and what the unfinished master and worker
    do.  C30: whom a call of \<open>nparallel\<close> counts.
  \<^item> \<open>diskvd_runs\<close>, \<open>diskvd_unknown_flag\<close>, \<open>diskvd_index\<close>: which server \<^verbatim>\<open>diskvd\<close> starts for which arguments; \<open>diskvd_bad_number\<close>: what it makes
    of an argument that is no number.
  \<^item> C33 to C35: the clerks, C33 over the simulated network.  C38, C39: labgob, its check of types and its check of variables.  C40: the cluster of groups and shard masters.
    \<open>skeleton_has_no_leader\<close>: what the harness finds when it runs the skeleton.

  \<^bold>\<open>Not modelled\<close>

  The text of the page in \<^verbatim>\<open>visualization.go\<close> (HTML, CSS and JavaScript, one constant, which \<open>Visualize_page\<close> takes as an
  argument); the generator that \<open>rand.Seed\<close> seeds, debugging output (\<open>DPrintf\<close>) and the removal of socket files; locks, which
  only make the modelled steps atomic; sleeps (the time limit of a test is \<open>checkTimeout\<close>).  The wrappers of labgob
  around \<open>encoding/gob\<close> that have no check of their own are the codec.  \<open>int\<close> and \<open>int64\<close> values that count or index are integers
  without bound.
\<close>

section \<open>A small history\<close>

definition put_op :: "string \<Rightarrow> string \<Rightarrow> int \<Rightarrow> int \<Rightarrow> kv_value Operation" where
  "put_op k v c r = \<lparr>ClientId = 0, Input = Some (IsInput \<lparr>Op = 1, Key = k, InValue = v\<rparr>), Call = c,
     Output = Some (IsOutput \<lparr>OutValue = []\<rparr>), Return = r\<rparr>"

definition get_op :: "string \<Rightarrow> string \<Rightarrow> int \<Rightarrow> int \<Rightarrow> kv_value Operation" where
  "get_op k v c r = \<lparr>ClientId = 1, Input = Some (IsInput \<lparr>Op = 0, Key = k, InValue = []\<rparr>), Call = c,
     Output = Some (IsOutput \<lparr>OutValue = v\<rparr>), Return = r\<rparr>"

definition demo_ops :: "kv_value Operation list" where
  "demo_ops = [put_op ''x'' ''1'' 0 2, get_op ''x'' ''1'' 1 3]"

definition stale_ops :: "kv_value Operation list" where
  "stale_ops = [put_op ''x'' ''1'' 0 1, get_op ''x'' [] 2 3]"

definition demo_env :: "(kv_value, string) env" where
  "demo_env = \<lparr>env_fmtv = (\<lambda>_. []), env_fmts = (\<lambda>_. []), env_sort = sort_key etime, env_iter = (\<lambda>xs. xs),
     env_sched = [Finish 0 (\<lambda>_. 0), Receive, ReturnNow]\<rparr>"

lemmas demo_defs = demo_ops_def stale_ops_def put_op_def get_op_def

definition demo_model :: "(kv_value, string) Model" where
  "demo_model = fillDefault (\<lambda>_. []) (\<lambda>_. []) KvModel"

definition demo_history :: "kv_value entry list" where
  "demo_history = makeEntries (sort_key etime) demo_ops"

definition stale_history :: "kv_value entry list" where
  "stale_history = makeEntries (sort_key etime) stale_ops"

lemma demo_env_ok: "env_ok demo_env"
  by (simp add: env_ok_def demo_env_def time_sort_go_sort)

lemma demo_ops_kv: "\<forall>op\<in>set demo_ops. kv_op op" "\<forall>op\<in>set stale_ops. kv_op op"
  by (simp_all add: demo_defs kv_op_def)

lemma demo_no_ties: "no_ties demo_ops" "no_ties stale_ops"
  by (simp_all add: demo_defs no_ties_def)

lemma demo_len: "length demo_ops < 2 ^ 64" "length stale_ops < 2 ^ 64" "demo_ops \<noteq> []" "stale_ops \<noteq> []"
  by (simp_all add: demo_ops_def stale_ops_def)

lemma demo_history_ok: "history_ok demo_model demo_history" "history_ok demo_model stale_history"
  unfolding demo_model_def demo_history_def stale_history_def
  using history_ok_makeEntries [OF time_sort_go_sort kv_equal_contract] kv_ops_ok [OF demo_ops_kv(1) demo_len(1), of "\<lambda>_. True"]
    kv_ops_ok [OF demo_ops_kv(2) demo_len(2), of "\<lambda>_. True"] by simp_all

lemma demo_single: "checkSingle demo_model demo_history False (\<lambda>_. 0) = Some (Inr (True, [Some 0, Some 0], [[0, 1]]))"
  by code_simp

lemma stale_single: "checkSingle demo_model stale_history False (\<lambda>_. 0) = Some (Inr (False, [None, None], []))"
  by code_simp

lemma demo_run: "CheckOperations demo_env KvModel demo_ops = Some (Inr True)"
proof -
  have p: "partitions_of KvModel demo_ops = Inr [demo_ops]" by code_simp
  show ?thesis
    using demo_single unfolding demo_model_def demo_history_def
    by (simp add: CheckOperations_def map_outcome_def checkOperations_unfold p demo_env_def checkParallel_def par_init_def
        par_step_def goroutine_def select_result_def return_result_def final_result_def Let_def)
qed

lemma stale_run: "CheckOperations demo_env KvModel stale_ops = Some (Inr False)"
proof -
  have p: "partitions_of KvModel stale_ops = Inr [stale_ops]" by code_simp
  show ?thesis
    using stale_single unfolding demo_model_def stale_history_def
    by (simp add: CheckOperations_def map_outcome_def checkOperations_unfold p demo_env_def checkParallel_def par_init_def
        par_step_def goroutine_def select_result_def return_result_def final_result_def Let_def)
qed

text \<open>Describing the operations of a key-value history.\<close>

lemma kv_describe_total: "kv_op op \<Longrightarrow> \<exists>d. kv_describe (Input op) (Output op) = Inr d"
  by (auto simp: kv_describe_def as_KvInput_def as_KvOutput_def elim!: kv_opE)

lemma kv_describe_state: "DescribeState (fillDefault fv fs KvModel) = Some (DefaultDescribeState fs)"
  by (simp add: fillDefault_def KvModel_def)

lemma kv_describe_entries:
  assumes "go_sort by_time_less srt" and "\<forall>op\<in>set q. kv_op op"
  shows "describe_total (fillDefault fv fs KvModel) (makeEntries srt q)"
proof -
  have "DescribeOperation (fillDefault fv fs KvModel) = Some kv_describe" by (simp add: fillDefault_def KvModel_def)
  then show ?thesis
    using kv_describe_total assms(2) makeEntries_io [OF assms(1), of _ q]
    by (auto simp: describe_total_def call_describe_def n_ops_makeEntries [OF assms(1)])
qed

section \<open>The linearizability checker\<close>

text \<open>C1.  \<open>CheckOperations\<close> on \<open>KvModel\<close> decides linearizability of the whole key-value store.  Whatever
  schedule the goroutines follow, the call either has not returned yet or returns true exactly when
  the recorded history is linearizable with respect to the store with all its keys; and for a
  non-empty history some schedule makes it return.\<close>

theorem kv_check_exact:
  assumes "env_ok E" and "\<forall>op\<in>set ops. kv_op op" and "no_ties ops" and "length ops < 2 ^ 64"
  shows "CheckOperations E KvModel ops \<in> {None, Some (Inr (ops_linearizable StoreModel ops))} \<and>
         (ops \<noteq> [] \<longrightarrow> (\<exists>sched. CheckOperations (E\<lparr>env_sched := sched\<rparr>) KvModel ops = Some (Inr (ops_linearizable StoreModel ops))))"
proof -
  have verdict: "CheckOperations E' KvModel ops = Some (Inr (ops_linearizable StoreModel ops))"
    if "env_ok E'" "checkOperations E' KvModel ops False 0 = Some out" for E' out
    using kv_check_verdict [OF that(1) assms(2-4) that(2)] that(2)
    by (auto simp: CheckOperations_def map_outcome_def verdict_ok_no_timeout)
  have "CheckOperations E KvModel ops \<in> {None, Some (Inr (ops_linearizable StoreModel ops))}"
  proof (cases "checkOperations E KvModel ops False 0")
    case None
    then show ?thesis by (simp add: CheckOperations_def map_outcome_def)
  next
    case (Some out)
    with verdict [OF assms(1)] show ?thesis by simp
  qed
  moreover have "\<exists>sched. CheckOperations (E\<lparr>env_sched := sched\<rparr>) KvModel ops = Some (Inr (ops_linearizable StoreModel ops))"
    if ne: "ops \<noteq> []"
  proof -
    obtain sched out where "checkOperations (E\<lparr>env_sched := sched\<rparr>) KvModel ops False 0 = Some out"
      using kv_check_completes [OF assms(1,2,4) ne] by metis
    moreover have "env_ok (E\<lparr>env_sched := sched\<rparr>)" using assms(1) by (simp add: env_ok_def)
    ultimately show ?thesis using verdict by blast
  qed
  ultimately show ?thesis by blast
qed

theorem kv_check_exact_witness:
  "ops_linearizable StoreModel demo_ops \<and> \<not> ops_linearizable StoreModel stale_ops"
  using kv_check_exact [OF demo_env_ok demo_ops_kv(1) demo_no_ties(1) demo_len(1)]
    kv_check_exact [OF demo_env_ok demo_ops_kv(2) demo_no_ties(2) demo_len(2)] demo_run stale_run
  by simp

text \<open>C2.  Without interference \<open>checkSingle\<close> ends, does not panic, and returns exactly whether the
  partition is linearizable, for every well-formed history, every total \<open>Step\<close> and every \<open>Equal\<close> that
  respects \<open>Step\<close>, with and without the computation of partial linearizations.\<close>

theorem checkSingle_exact:
  assumes "history_ok M es"
  shows "\<exists>longest seqs. checkSingle M es computePartial (\<lambda>_. 0) = Some (Inr (linearizable M es, longest, seqs))"
proof -
  obtain ok longest seqs where res: "checkSingle M es computePartial (\<lambda>_. 0) = Some (Inr (ok, longest, seqs))"
    and v: "if ok then (\<exists>q. is_linearization M es (seqs ! q) \<and> longest = replicate (nat (n_ops es)) (Some q))
            else (\<exists>j :: nat. (0 :: int) \<noteq> 0) \<or> \<not> linearizable M es"
    using checkSingle_result [OF assms, of computePartial "\<lambda>_. 0"] by blast
  have "ok = linearizable M es" using v by (auto simp: linearizable_def split: if_splits)
  with res show ?thesis by blast
qed

theorem checkSingle_exact_witness: "linearizable demo_model demo_history \<and> \<not> linearizable demo_model stale_history"
  using checkSingle_exact [OF demo_history_ok(1), of False] checkSingle_exact [OF demo_history_ok(2), of False]
    demo_single stale_single by simp

text \<open>C3.  Whatever values of the kill flag it loads, \<open>checkSingle\<close> ends without a panic; it returns true
  only with a complete linearization as the longest one of every operation; and every sequence it
  records for an operation is a partial linearization that contains the operation.\<close>

theorem checkSingle_killed:
  assumes "history_ok M es"
  shows "\<exists>ok longest seqs. checkSingle M es computePartial kill = Some (Inr (ok, longest, seqs)) \<and>
           longest_ok M es longest seqs \<and>
           (ok \<longrightarrow> (\<exists>q. is_linearization M es (seqs ! q) \<and> longest = replicate (nat (n_ops es)) (Some q)))"
  using checkSingle_result [OF assms, of computePartial kill] by (auto split: if_splits)

theorem checkSingle_killed_witness:
  "\<exists>ok longest seqs. checkSingle demo_model stale_history True (\<lambda>n. if n < 3 then 0 else 1) = Some (Inr (ok, longest, seqs)) \<and>
     longest_ok demo_model stale_history longest seqs"
  using checkSingle_killed [OF demo_history_ok(2), of True "\<lambda>n. if n < 3 then 0 else 1"] by blast

text \<open>C4.  For every schedule and timeout, what \<open>checkParallel\<close> returns is right: \<open>Ok\<close> only if every partition
  is linearizable, \<open>Illegal\<close> only if some partition is not, \<open>Unknown\<close> only if there is a timeout, and the
  info of a verbose run holds partial linearizations only.\<close>

theorem checkParallel_verdict:
  assumes "\<forall>es\<in>set history. history_ok M es" and "\<forall>xs. set (iter xs) = set xs"
    and "checkParallel M history computeInfo timeout iter sched = Some out"
  shows "\<exists>r info. out = Inr (r, info) \<and> info_ok M history computeInfo info \<and>
           verdict_ok (\<forall>es\<in>set history. linearizable M es) timeout r"
  using checkParallel_sound [OF assms] unfolding verdict_ok_def by blast

lemma demo_parallel:
  "checkParallel demo_model [demo_history, stale_history] False 0 (\<lambda>xs. xs)
     [Finish 1 (\<lambda>_. 0), Receive, Finish 0 (\<lambda>_. 0), ReturnNow] =
   Some (Inr (Illegal, \<lparr>lhistory = [], partialLinearizations = []\<rparr>))"
  using demo_single stale_single
  by (simp add: checkParallel_def par_init_def par_step_def goroutine_def select_result_def return_result_def
      final_result_def finish_info_def Let_def)

theorem checkParallel_verdict_witness:
  "\<not> (linearizable demo_model demo_history \<and> linearizable demo_model stale_history)"
  using checkParallel_verdict [of "[demo_history, stale_history]" demo_model "\<lambda>xs. xs" False 0, OF _ _ demo_parallel]
    demo_history_ok by (auto simp: verdict_ok_def)

text \<open>C5.  With at least one partition (or a timeout), \<open>checkParallel\<close> always returns: an execution has at
  most two events per partition and two more, and an execution that has not returned yet can always
  go on until it returns, without a panic.\<close>

theorem checkParallel_terminates:
  assumes "\<forall>es\<in>set history. history_ok M es" and "history \<noteq> [] \<or> timeout > 0"
    and "par_run M history computeInfo timeout iter sched (par_init history) = Some st"
  shows "length sched \<le> 2 * length history + 2 \<and>
         (\<exists>sched' r info. checkParallel M history computeInfo timeout iter (sched @ sched') = Some (Inr (r, info)))"
  by (rule checkParallel_completes [OF assms])

theorem checkParallel_terminates_witness:
  "\<exists>sched' r info. checkParallel demo_model [demo_history] True 5 (\<lambda>xs. xs) ([TimerFires] @ sched') = Some (Inr (r, info))"
proof -
  have "\<exists>st. par_run demo_model [demo_history] True 5 (\<lambda>xs. xs) [TimerFires] (par_init [demo_history]) = Some st"
    by (simp add: par_step_def par_init_def select_timeout_def)
  then show ?thesis using checkParallel_terminates [of "[demo_history]" demo_model 5 True "\<lambda>xs. xs" "[TimerFires]"]
      demo_history_ok by auto
qed

text \<open>C6.  An empty history never comes back: without a timeout \<open>CheckOperations\<close> on \<open>KvModel\<close> waits
  forever, since there is no partition, no goroutine, and a nil timer channel.\<close>

theorem CheckOperations_empty_hangs: "CheckOperations E KvModel [] = None"
  by (simp add: CheckOperations_def checkOperations_unfold partitions_of_def kv_inits kv_partition_def
      checkParallel_stuck map_outcome_def)

text \<open>C7.  For any model whose \<open>Partition\<close> succeeds, \<open>CheckOperations\<close> returns exactly whether all partitions
  are linearizable, if no operation returns at the very time another one is called.\<close>

theorem CheckOperations_exact:
  assumes "env_ok E" and "equal_contract M" and "partitions_of M ops = Inr ps"
    and "\<forall>q\<in>set ps. ops_ok M q \<and> no_ties q" and "CheckOperations E M ops = Some out"
  shows "out = Inr (\<forall>q\<in>set ps. ops_linearizable M q)"
proof -
  obtain out' where "checkOperations E M ops False 0 = Some out'" and out: "out = rbind out' (\<lambda>x. Inr (case x of (r, _) \<Rightarrow> r = Ok))"
    using assms(5) by (auto simp: CheckOperations_def map_outcome_def)
  from checkOperations_verdict [OF assms(1-4) this(1)] out show ?thesis by (auto simp: verdict_ok_no_timeout)
qed

theorem CheckOperations_exact_witness: "ops_linearizable KvModel demo_ops"
proof -
  have "partitions_of KvModel demo_ops = Inr [demo_ops]" by code_simp
  moreover have "ops_ok KvModel demo_ops" using kv_ops_ok [OF demo_ops_kv(1) demo_len(1), of "\<lambda>_. True"] by simp
  ultimately show ?thesis
    using CheckOperations_exact [OF demo_env_ok kv_equal_contract, of demo_ops "[demo_ops]" "Inr True"] demo_run demo_no_ties by simp
qed

text \<open>C8.  For event histories \<open>CheckEvents\<close> returns exactly whether all partitions are linearizable, where
  the order is that of the events and the identifiers are the caller's, whatever integers they are.\<close>

theorem CheckEvents_exact:
  assumes "env_ok E" and "equal_contract M" and "event_partitions_of M evs = Inr ps"
    and "\<forall>q\<in>set ps. events_ok M q" and "CheckEvents E M evs = Some out"
  shows "out = Inr (\<forall>q\<in>set ps. events_linearizable M q)"
proof -
  obtain out' where "checkEvents E M evs False 0 = Some out'" and out: "out = rbind out' (\<lambda>x. Inr (case x of (r, _) \<Rightarrow> r = Ok))"
    using assms(5) by (auto simp: CheckEvents_def map_outcome_def)
  from checkEvents_verdict [OF assms(1-4) this(1)] out show ?thesis by (auto simp: verdict_ok_no_timeout)
qed

definition demo_events :: "kv_value Event list" where
  "demo_events =
     [\<lparr>EvClientId = 0, Kind = CallEvent, Value = Some (IsInput \<lparr>Op = 1, Key = ''x'', InValue = ''1''\<rparr>), Id = 17\<rparr>,
      \<lparr>EvClientId = 1, Kind = CallEvent, Value = Some (IsInput \<lparr>Op = 0, Key = ''x'', InValue = []\<rparr>), Id = 4\<rparr>,
      \<lparr>EvClientId = 1, Kind = ReturnEvent, Value = Some (IsOutput \<lparr>OutValue = ''1''\<rparr>), Id = 4\<rparr>,
      \<lparr>EvClientId = 0, Kind = ReturnEvent, Value = Some (IsOutput \<lparr>OutValue = []\<rparr>), Id = 17\<rparr>]"

lemma demo_events_ok: "events_ok KvModel demo_events"
proof -
  have "complete_events demo_events" by code_simp
  moreover have "event_io demo_events 17 = (Some (IsInput \<lparr>Op = 1, Key = ''x'', InValue = ''1''\<rparr>), Some (IsOutput \<lparr>OutValue = []\<rparr>))"
    "event_io demo_events 4 = (Some (IsInput \<lparr>Op = 0, Key = ''x'', InValue = []\<rparr>), Some (IsOutput \<lparr>OutValue = ''1''\<rparr>))" by code_simp+
  moreover have "Id ` set demo_events = {17, 4}" by (auto simp: demo_events_def)
  moreover have "int (length demo_events) < 2 ^ 64" by (simp add: demo_events_def)
  ultimately show ?thesis by (auto simp: events_ok_def kv_inits kv_step_def as_KvInput_def as_KvOutput_def)
qed

lemma demo_events_run: "CheckEvents demo_env KvModel demo_events = Some (Inr True)"
proof -
  have "\<exists>l q. checkSingle demo_model (convertEntries (renumber demo_events)) False (\<lambda>_. 0) = Some (Inr (True, l, q))"
    by (intro exI, code_simp)
  moreover have "event_partitions_of KvModel demo_events = Inr [demo_events]" by (simp add: event_partitions_of_def KvModel_def)
  ultimately show ?thesis
    unfolding demo_model_def
    by (auto simp: CheckEvents_def map_outcome_def checkEvents_unfold demo_env_def checkParallel_def par_init_def
        par_step_def goroutine_def select_result_def return_result_def final_result_def Let_def)
qed

theorem CheckEvents_exact_witness: "events_linearizable KvModel demo_events"
proof -
  have "event_partitions_of KvModel demo_events = Inr [demo_events]" by (simp add: event_partitions_of_def KvModel_def)
  then show ?thesis
    using CheckEvents_exact [OF demo_env_ok kv_equal_contract, of demo_events "[demo_events]" "Inr True"] demo_events_ok demo_events_run
    by simp
qed

text \<open>C9.  The contract of \<open>Model.Partition\<close> for \<open>KvModel\<close>: a history of the store is linearizable if and only if
  each of the partitions that \<open>Partition\<close> returns is linearizable for a single key's value.\<close>

theorem kv_partition_contract:
  assumes "\<forall>op\<in>set ops. kv_op op"
  shows "\<exists>ps. kv_partition ops = Inr ps \<and> mset (concat ps) = mset ops \<and>
           (ops_linearizable StoreModel ops \<longleftrightarrow> (\<forall>q\<in>set ps. ops_linearizable KvModel q))"
proof -
  let ?K = "sorted_list_of_set (op_key ` set ops)"
  let ?ps = "map (\<lambda>k. filter (\<lambda>op. op_key op = k) ops) ?K"
  have "mset (concat ?ps) = mset ops" by (rule mset_concat_keys) simp_all
  moreover have "(\<forall>q\<in>set ?ps. ops_linearizable KvModel q) \<longleftrightarrow>
      (\<forall>k\<in>op_key ` set ops. ops_linearizable KvModel (filter (\<lambda>op. op_key op = k) ops))" by simp
  ultimately show ?thesis using kv_partition_result [OF assms] kv_locality [OF assms] by blast
qed

theorem kv_partition_contract_witness:
  "\<exists>ps. kv_partition (demo_ops @ [put_op ''y'' ''2'' 0 5]) = Inr ps \<and> mset (concat ps) = mset (demo_ops @ [put_op ''y'' ''2'' 0 5])"
  using kv_partition_contract [of "demo_ops @ [put_op ''y'' ''2'' 0 5]"] demo_ops_kv(1) by (fastforce simp: kv_op_def put_op_def)

text \<open>C10.  \<open>makeEntries\<close> gives a well-formed history for any sorting function, with the inputs and outputs of
  the operations, in which an operation that returned strictly before another was called precedes it.\<close>

theorem makeEntries_correct:
  assumes "go_sort by_time_less srt" and "\<forall>op\<in>set ops. Call op < Return op"
  shows "wf_entries (makeEntries srt ops) \<and> n_ops (makeEntries srt ops) = int (length ops) \<and>
    (\<forall>i j. 0 \<le> i \<and> i < int (length ops) \<and> 0 \<le> j \<and> j < int (length ops) \<longrightarrow>
       op_io (makeEntries srt ops) i = (Input (ops ! nat i), Output (ops ! nat i)) \<and>
       (Return (ops ! nat i) < Call (ops ! nat j) \<longrightarrow> precedes (makeEntries srt ops) i j) \<and>
       (precedes (makeEntries srt ops) i j \<longrightarrow> Return (ops ! nat i) \<le> Call (ops ! nat j)))"
  using makeEntries_wf [OF assms] n_ops_makeEntries(1) [OF assms(1)] makeEntries_io [OF assms(1)] makeEntries_precedes [OF assms(1)]
  by blast

theorem makeEntries_correct_witness: "wf_entries demo_history \<and> precedes stale_history 0 1"
proof -
  have "\<forall>op\<in>set demo_ops. Call op < Return op" "\<forall>op\<in>set stale_ops. Call op < Return op"
    by (simp_all add: demo_defs)
  from makeEntries_correct [OF time_sort_go_sort this(1)] makeEntries_correct [OF time_sort_go_sort this(2)]
  have "wf_entries demo_history"
    "\<forall>i j. 0 \<le> i \<and> i < int (length stale_ops) \<and> 0 \<le> j \<and> j < int (length stale_ops) \<longrightarrow>
       Return (stale_ops ! nat i) < Call (stale_ops ! nat j) \<longrightarrow> precedes stale_history i j"
    by (simp_all add: demo_history_def stale_history_def)
  moreover from this(2) [rule_format, of 0 1] have "precedes stale_history 0 1"
    by (simp add: stale_ops_def put_op_def get_op_def)
  ultimately show ?thesis by blast
qed

text \<open>C12.  \<open>lift\<close> takes a call and its return out of the linked list, keeps every payload, and \<open>unlift\<close>
  restores the exact store, so the search can undo any choice.\<close>

theorem lift_unlift_restores:
  assumes "links h None (us @ e # vs @ r # ws)" and "distinct (us @ e # vs @ r # ws)" and "us \<noteq> []"
    and "nmatch (h ! e) = Some r"
  shows "\<exists>h'. lift h (Some e) = Inr h' \<and> links h' None (us @ vs @ ws) \<and> same_payload h h' \<and> unlift h' (Some e) = Inr h"
  by (rule lift_links [OF assms])

definition demo_heap :: "nat heap" where
  "demo_heap = [\<lparr>nvalue = None, nmatch = None, nid = -1, nnext = Some 1, nprev = None\<rparr>,
     \<lparr>nvalue = Some 7, nmatch = Some 3, nid = 0, nnext = Some 2, nprev = Some 0\<rparr>,
     \<lparr>nvalue = Some 8, nmatch = Some 4, nid = 1, nnext = Some 3, nprev = Some 1\<rparr>,
     \<lparr>nvalue = Some 9, nmatch = None, nid = 0, nnext = Some 4, nprev = Some 2\<rparr>,
     \<lparr>nvalue = Some 9, nmatch = None, nid = 1, nnext = None, nprev = Some 3\<rparr>]"

theorem lift_unlift_restores_witness:
  "\<exists>h'. lift demo_heap (Some 2) = Inr h' \<and> links h' None ([0, 1] @ [3] @ []) \<and> unlift h' (Some 2) = Inr demo_heap"
  using lift_unlift_restores [of demo_heap "[0, 1]" 2 "[3]" 4 "[]"] by (auto simp: demo_heap_def)

text \<open>C13.  The bit set implements a set of positions below its capacity: \<open>set\<close>, \<open>clear\<close> and \<open>get\<close> work as
  insertion, deletion and membership and panic exactly out of range, \<open>equals\<close> decides equality of the
  sets, and \<open>popcnt\<close> counts the elements.\<close>

theorem bitset_refines_set:
  "(if p < capacity b
    then (\<exists>b' b''. bs_set b p = Inr b' \<and> bits_of b' = insert p (bits_of b) \<and> capacity b' = capacity b \<and>
            bs_clear b p = Inr b'' \<and> bits_of b'' = bits_of b - {p} \<and> capacity b'' = capacity b \<and>
            bs_get b p = Inr (p \<in> bits_of b))
    else bs_set b p = Inl IndexOutOfRange \<and> bs_clear b p = Inl IndexOutOfRange \<and> bs_get b p = Inl IndexOutOfRange) \<and>
   (bs_equals b c \<longleftrightarrow> length b = length c \<and> bits_of b = bits_of c) \<and> popcnt b = card (bits_of b) \<and>
   bits_of (newBitset n) = {} \<and> n \<le> capacity (newBitset n)"
proof -
  have eq: "bs_equals b c \<longleftrightarrow> length b = length c \<and> bits_of b = bits_of c"
    using bits_of_inject [of b c] by (auto simp: bs_equals_eq)
  show ?thesis
  proof (cases "p < capacity b")
    case True
    have "bs_get b p = Inr (p \<in> bits_of b)" using True by (simp add: bs_get_in_range bits_of_def)
    with True bs_set_bits [OF True] bs_clear_bits [OF True] eq popcnt_card newBitset_bits newBitset_capacity show ?thesis
      by (auto simp: capacity_def)
  next
    case False
    with bs_out_of_range [OF False] eq popcnt_card newBitset_bits newBitset_capacity show ?thesis by simp
  qed
qed

text \<open>C14.  \<open>renumber\<close> replaces the identifiers of an event history by an injective map onto an initial
  segment of the natural numbers and changes nothing else, and after \<open>convertEntries\<close> the history is
  well formed.\<close>

theorem renumber_correct:
  assumes "complete_events evs"
  shows "wf_entries (convertEntries (renumber evs)) \<and>
    (\<exists>f. inj_on f (Id ` set evs) \<and> f ` (Id ` set evs) = {0..<n_ops (convertEntries (renumber evs))} \<and>
       (\<forall>p<length evs. convertEntries (renumber evs) ! p = convert_entry (int p) ((evs ! p)\<lparr>Id := f (Id (evs ! p))\<rparr>)))"
  using convertEntries_wf [OF assms] convert_renumber [OF assms] by blast

theorem renumber_correct_witness: "wf_entries (convertEntries (renumber demo_events))"
  using renumber_correct [of demo_events] demo_events_ok by (simp add: events_ok_def)

text \<open>C15.  Whatever a verbose check of a key-value history returns, under any schedule, can be visualized:
  \<open>computeVisualizationData\<close> does not panic, since every recorded sequence replays through \<open>Step\<close>, and its data is right.
  For each partition by key there is one element per operation, with the client and time of its call, the time of its return and
  the description of the two values; for each recorded sequence the operations in order, each with the description of the state that
  replaying the sequence up to it gives; and \<open>Largest\<close> points every operation that is in some sequence to a longest one.
  \<open>Visualize\<close> writes the page with that data in the place of \<open>%s\<close>.\<close>

theorem kv_visualization_no_panic:
  assumes E: "env_ok E" and ops: "\<forall>op\<in>set ops. kv_op op" and len: "length ops < 2 ^ 64"
    and run: "CheckOperationsVerbose E KvModel ops timeout = Some out" and srt: "go_sort longer sortSlice"
    and page: "CHR ''%'' \<notin> set pre" "CHR ''%'' \<notin> set post"
  shows "\<exists>r info data info'. out = Inr (r, info) \<and>
           computeVisualizationData (env_fmtv E) (env_fmts E) sortSlice KvModel info = Inr (data, info') \<and>
           (\<exists>ps. kv_partition ops = Inr ps \<and> lhistory info = map (makeEntries (env_sort E)) ps) \<and>
           length data = length (lhistory info) \<and>
           (\<forall>j<length data. viz_ok (fillDefault (env_fmtv E) (env_fmts E) KvModel) (lhistory info ! j) (sortSlice (partialLinearizations info ! j)) (data ! j)) \<and>
           Visualize (env_fmtv E) (env_fmts E) sortSlice (pre @ ''%s'' @ post) KvModel info write w =
             Some (Inr (fst (write w (pre @ Marshal data @ post)), snd (write w (pre @ Marshal data @ post)), info'))"
proof -
  let ?M = "fillDefault (env_fmtv E) (env_fmts E) KvModel"
  let ?ps = "map (\<lambda>k. filter (\<lambda>op. op_key op = k) ops) (sorted_list_of_set (op_key ` set ops))"
  let ?hs = "map (makeEntries (env_sort E)) ?ps"
  have es: "go_sort by_time_less (env_sort E)" and iter: "\<forall>xs. set (env_iter E xs) = set xs" using E by (simp_all add: env_ok_def)
  have part_ok: "ops_ok KvModel q" if "q \<in> set ?ps" for q using that kv_ops_ok [OF ops len] by auto
  then have ok: "\<forall>h\<in>set ?hs. history_ok ?M h" using history_ok_makeEntries [OF es kv_equal_contract] by auto
  have "checkParallel ?M ?hs True timeout (env_iter E) (env_sched E) = Some out"
    using run by (simp add: CheckOperationsVerbose_def checkOperations_unfold kv_partitions [OF ops])
  from checkParallel_sound [OF ok iter this] obtain r info where out: "out = Inr (r, info)" and info: "info_ok ?M ?hs True info" by blast
  have "describe_total ?M (makeEntries (env_sort E) q)" if "q \<in> set ?ps" for q
    using that ops kv_describe_total by (intro kv_describe_entries [OF es]) auto
  with ok have "\<forall>h\<in>set ?hs. wf_entries h \<and> describe_total ?M h" by (auto simp: history_ok_def)
  from viz_loop_result [OF this kv_describe_state srt, of "partialLinearizations info" 0] info
  obtain data info' where "viz_loop sortSlice ?M 0 (partialLinearizations info) ?hs = Inr (data, info')" "length data = length ?hs"
    "\<forall>j<length ?hs. viz_ok ?M (?hs ! j) (sortSlice (partialLinearizations info ! j)) (data ! j)" by (auto simp: info_ok_def)
  with info obtain info'' where c: "computeVisualizationData (env_fmtv E) (env_fmts E) sortSlice KvModel info = Inr (data, info'')"
    "length data = length (lhistory info)"
    "\<forall>j<length data. viz_ok ?M (lhistory info ! j) (sortSlice (partialLinearizations info ! j)) (data ! j)"
    by (auto simp: computeVisualizationData_def info_ok_def)
  moreover have "Visualize (env_fmtv E) (env_fmts E) sortSlice (pre @ ''%s'' @ post) KvModel info write w =
      Some (Inr (fst (write w (pre @ Marshal data @ post)), snd (write w (pre @ Marshal data @ post)), info''))"
    using c(1) Fprintf_s_once [OF page, of "Marshal data"] by (simp add: Visualize_def Let_def split: prod.split)
  moreover have "kv_partition ops = Inr ?ps" "lhistory info = map (makeEntries (env_sort E)) ?ps"
    using kv_partition_result [OF ops] info by (simp_all add: info_ok_def)
  moreover note out
  ultimately show ?thesis by blast
qed

definition length_sort :: "int list list \<Rightarrow> int list list" where
  "length_sort = sort_key (\<lambda>p. - int (length p))"

lemma length_sort_go_sort: "go_sort longer length_sort"
proof -
  have e: "longer = (\<lambda>p q. - int (length p) < - int (length q))" by (intro ext) (simp add: longer_def)
  show ?thesis unfolding length_sort_def e by (rule sort_key_go_sort)
qed

lemma stale_verbose:
  "CheckOperationsVerbose demo_env KvModel stale_ops 0 =
     Some (Inr (Illegal, \<lparr>lhistory = [stale_history], partialLinearizations = [[[0]]]\<rparr>))"
proof -
  have p: "partitions_of KvModel stale_ops = Inr [stale_ops]" by code_simp
  have "checkSingle demo_model stale_history True (\<lambda>_. 0) = Some (Inr (False, [Some 0, None], [[0]]))" by code_simp
  then show ?thesis
    unfolding demo_model_def stale_history_def
    by (simp add: CheckOperationsVerbose_def checkOperations_unfold p demo_env_def checkParallel_def par_init_def
        par_step_def goroutine_def select_result_def return_result_def final_result_def finish_info_def partials_of_def
        List.map_filter_def Let_def)
qed

theorem kv_visualization_no_panic_witness:
  "\<exists>data info'. computeVisualizationData (\<lambda>_. []) (\<lambda>_. []) length_sort KvModel
     \<lparr>lhistory = [stale_history], partialLinearizations = [[[0]]]\<rparr> = Inr (data, info') \<and> length data = 1 \<and>
   Visualize (\<lambda>_. []) (\<lambda>_. []) length_sort ''<script>%s</script>'' KvModel
     \<lparr>lhistory = [stale_history], partialLinearizations = [[[0]]]\<rparr> (\<lambda>w s. (w @ s, None)) [] =
     Some (Inr (''<script>'' @ Marshal data @ ''</script>'', None, info'))"
  using kv_visualization_no_panic [OF demo_env_ok demo_ops_kv(2) demo_len(2) stale_verbose length_sort_go_sort,
      of "''<script>''" "''</script>''" "\<lambda>w s. (w @ s, None)" "[]"]
  by (auto simp: demo_env_def)

end
